(* ===== verification/Nof_Prelude.thy ===== *)
theory Nof_Prelude
  imports Main "HOL-Library.Word" "HOL-Library.Monad_Syntax"
begin

text \<open>
  Shared vocabulary of the development: the fixed-width integer types of the C sources, the
  errno values the code returns, and the generic facts on options, lists and words that the
  component theories use. The option type stands for C executions that may go wrong:
  \<open>None\<close> is undefined behaviour (a use of freed memory, a NULL dereference, an out-of-bounds
  write) or a failed assertion, and \<open>Some s\<close> a defined result.
\<close>

unbundle bit_operations_syntax

section \<open>Machine integers and error codes\<close>

type_synonym u8 = "8 word"
type_synonym u16 = "16 word"
type_synonym u32 = "32 word"
type_synonym u64 = "64 word"

abbreviation ENOENT :: int where "ENOENT \<equiv> 2"
abbreviation EIO :: int where "EIO \<equiv> 5"
abbreviation ENXIO :: int where "ENXIO \<equiv> 6"
abbreviation EAGAIN :: int where "EAGAIN \<equiv> 11"
abbreviation ENOMEM :: int where "ENOMEM \<equiv> 12"
abbreviation EBUSY :: int where "EBUSY \<equiv> 16"
abbreviation EINVAL :: int where "EINVAL \<equiv> 22"

section \<open>Collections\<close>

named_theorems word_bounds \<open>bounds of unsigned readings of words\<close>
named_theorems frame \<open>fields an operation leaves alone\<close>

section \<open>Words\<close>

lemma unat_u32_lt [word_bounds]: "unat (x :: u32) < 4294967296"
  using unsigned_less [where ?'a = nat, of x] by simp

lemma unat_u64_lt [word_bounds]: "unat (x :: u64) < 18446744073709551616"
  using unsigned_less [where ?'a = nat, of x] by simp

lemma unat_ucast_u32 [simp]: "unat (ucast (x :: u32) :: u64) = unat x"
  using unat_u32_lt [of x] by (simp add: unsigned_ucast_eq take_bit_nat_eq_self)

text \<open>Incrementing a counter that has not reached its last value.\<close>

lemma unat_inc:
  fixes x :: "'a :: len word"
  assumes "Suc (unat x) < 2 ^ LENGTH('a)"
  shows "unat (x + 1) = Suc (unat x)"
  using assms by (simp add: unat_word_ariths)

lemma unat_inc_lt:
  fixes x y :: "'a :: len word"
  assumes "x < y"
  shows "unat (x + 1) = Suc (unat x)"
proof (rule unat_inc)
  have "unat x < unat y" using assms by (simp add: word_less_nat_alt)
  then show "Suc (unat x) < 2 ^ LENGTH('a)" using unsigned_less [where ?'a = nat, of y] by linarith
qed

section \<open>Options\<close>

lemma bind_eq_Some [simp]: "(Option.bind m f = Some y) = (\<exists>x. m = Some x \<and> f x = Some y)"
  by (rule Option.bind_eq_Some_conv)

section \<open>Folding a fallible step over a list\<close>

text \<open>
  The \<open>FOREACH\<close> loops of the sources whose body may go wrong: the body threads the state and
  stops the run at the first undefined step.
\<close>

fun foldM :: "('a \<Rightarrow> 's \<Rightarrow> 's option) \<Rightarrow> 'a list \<Rightarrow> 's \<Rightarrow> 's option" where
  "foldM f [] s = Some s"
| "foldM f (x # xs) s = Option.bind (f x s) (foldM f xs)"

lemma foldM_append: "foldM f (xs @ ys) s = Option.bind (foldM f xs s) (foldM f ys)"
  by (induction xs arbitrary: s) (auto split: bind_split)

lemma foldM_invariant:
  assumes "foldM f xs s = Some s'" and "P s"
    and "\<And>x t t'. x \<in> set xs \<Longrightarrow> P t \<Longrightarrow> f x t = Some t' \<Longrightarrow> P t'"
  shows "P s'"
  using assms
proof (induction xs arbitrary: s)
  case Nil
  then show ?case by simp
next
  case (Cons x xs)
  from Cons.prems(1) obtain t where t: "f x s = Some t" "foldM f xs t = Some s'" by auto
  have "P t" using Cons.prems(2,3) t(1) by (meson list.set_intros(1))
  then show ?case using Cons.IH [OF t(2)] Cons.prems(3) by (meson list.set_intros(2))
qed

end
