(* ===== verification/Tailq.thy ===== *)
theory Tailq
  imports Nof_Prelude
begin

text \<open>
  The doubly linked tail queues (\<open>TAILQ_*\<close>) on which the applications and the driver keep
  their tasks, at the level of their pointers. A queue head holds the address of the first
  element and the address of the last \<open>tqe_next\<close> cell; an element holds the address of its
  successor and the address of the cell that points at it. One \<open>tailq\<close> record is the part of
  memory that all heads \<open>'h\<close> and all elements (addresses, \<open>nat\<close>) linked through one
  \<open>TAILQ_ENTRY\<close> field share, so that linking one element into two queues is expressible, and
  goes wrong as it does in C. The macros \<open>INIT\<close>, \<open>INSERT_TAIL\<close> and \<open>REMOVE\<close> are
  those of \<open>sys/queue.h\<close> (with \<open>REMOVE\<close> repeated in \<open>include/spdk/queue.h\<close>),
  \<open>SWAP\<close> is that of \<open>include/spdk/queue_extras.h\<close>.

  The interface \<open>tail_queue\<close> states what the macros promise to a client in terms of a map from
  heads to lists; the pointer structure implements it.
\<close>

section \<open>Pointer structure and macros\<close>

datatype 'h slot = First 'h | NextOf nat

record 'h tailq =
  tqh_first :: "'h \<Rightarrow> nat option"
  tqh_last :: "'h \<Rightarrow> 'h slot"
  tqe_next :: "nat \<Rightarrow> nat option"
  tqe_prev :: "nat \<Rightarrow> 'h slot"

fun slot_load :: "'h tailq \<Rightarrow> 'h slot \<Rightarrow> nat option" where
  "slot_load q (First h) = tqh_first q h"
| "slot_load q (NextOf a) = tqe_next q a"

fun slot_store :: "'h slot \<Rightarrow> nat option \<Rightarrow> 'h tailq \<Rightarrow> 'h tailq" where
  "slot_store (First h) v q = q\<lparr>tqh_first := (tqh_first q)(h := v)\<rparr>"
| "slot_store (NextOf a) v q = q\<lparr>tqe_next := (tqe_next q)(a := v)\<rparr>"

definition TAILQ_INIT :: "'h \<Rightarrow> 'h tailq \<Rightarrow> 'h tailq" where
  "TAILQ_INIT h q =
     q\<lparr>tqh_first := (tqh_first q)(h := None), tqh_last := (tqh_last q)(h := First h)\<rparr>"

definition TAILQ_INSERT_TAIL :: "'h \<Rightarrow> nat \<Rightarrow> 'h tailq \<Rightarrow> 'h tailq" where
  "TAILQ_INSERT_TAIL h a q =
     (let q1 = q\<lparr>tqe_next := (tqe_next q)(a := None),
                 tqe_prev := (tqe_prev q)(a := tqh_last q h)\<rparr>;
          q2 = slot_store (tqh_last q1 h) (Some a) q1
      in q2\<lparr>tqh_last := (tqh_last q2)(h := NextOf a)\<rparr>)"

definition TAILQ_REMOVE :: "'h \<Rightarrow> nat \<Rightarrow> 'h tailq \<Rightarrow> 'h tailq" where
  "TAILQ_REMOVE h a q =
     (let q1 = (case tqe_next q a of
                  Some b \<Rightarrow> q\<lparr>tqe_prev := (tqe_prev q)(b := tqe_prev q a)\<rparr>
                | None \<Rightarrow> q\<lparr>tqh_last := (tqh_last q)(h := tqe_prev q a)\<rparr>)
      in slot_store (tqe_prev q1 a) (tqe_next q1 a) q1)"

definition TAILQ_FIRST :: "'h tailq \<Rightarrow> 'h \<Rightarrow> nat option" where
  "TAILQ_FIRST q h = tqh_first q h"

definition TAILQ_NEXT :: "'h tailq \<Rightarrow> nat \<Rightarrow> nat option" where
  "TAILQ_NEXT q a = tqe_next q a"

definition TAILQ_SWAP :: "'h \<Rightarrow> 'h \<Rightarrow> 'h tailq \<Rightarrow> 'h tailq" where
  "TAILQ_SWAP h1 h2 q =
     (let swap_first = tqh_first q h1;
          swap_last = tqh_last q h1;
          q1 = q\<lparr>tqh_first := (tqh_first q)(h1 := tqh_first q h2),
                 tqh_last := (tqh_last q)(h1 := tqh_last q h2)\<rparr>;
          q2 = q1\<lparr>tqh_first := (tqh_first q1)(h2 := swap_first),
                  tqh_last := (tqh_last q1)(h2 := swap_last)\<rparr>;
          q3 = (case tqh_first q2 h1 of
                  Some a \<Rightarrow> q2\<lparr>tqe_prev := (tqe_prev q2)(a := First h1)\<rparr>
                | None \<Rightarrow> q2\<lparr>tqh_last := (tqh_last q2)(h1 := First h1)\<rparr>)
      in (case tqh_first q3 h2 of
            Some a \<Rightarrow> q3\<lparr>tqe_prev := (tqe_prev q3)(a := First h2)\<rparr>
          | None \<Rightarrow> q3\<lparr>tqh_last := (tqh_last q3)(h2 := First h2)\<rparr>))"

section \<open>The interface\<close>

text \<open>
  \<open>rep q L\<close>: in the memory \<open>q\<close>, every head \<open>h\<close> with \<open>L h = Some xs\<close> is an initialised
  queue that holds exactly \<open>xs\<close>, in order, and no element is in two queues.
\<close>

locale tail_queue =
  fixes rep :: "'q \<Rightarrow> ('h \<Rightarrow> nat list option) \<Rightarrow> bool"
    and init :: "'h \<Rightarrow> 'q \<Rightarrow> 'q"
    and insert_tail :: "'h \<Rightarrow> nat \<Rightarrow> 'q \<Rightarrow> 'q"
    and remove :: "'h \<Rightarrow> nat \<Rightarrow> 'q \<Rightarrow> 'q"
    and first :: "'q \<Rightarrow> 'h \<Rightarrow> nat option"
    and succ :: "'q \<Rightarrow> nat \<Rightarrow> nat option"
  assumes rep_init: "rep q L \<Longrightarrow> rep (init h q) (L(h \<mapsto> []))"
    and rep_insert: "rep q L \<Longrightarrow> L h = Some xs \<Longrightarrow> \<forall>g ys. L g = Some ys \<longrightarrow> a \<notin> set ys \<Longrightarrow>
      rep (insert_tail h a q) (L(h \<mapsto> xs @ [a]))"
    and rep_remove: "rep q L \<Longrightarrow> L h = Some xs \<Longrightarrow> a \<in> set xs \<Longrightarrow>
      rep (remove h a q) (L(h \<mapsto> remove1 a xs))"
    and rep_first: "rep q L \<Longrightarrow> L h = Some xs \<Longrightarrow>
      first q h = (case xs of [] \<Rightarrow> None | x # _ \<Rightarrow> Some x)"
    and rep_succ: "rep q L \<Longrightarrow> L h = Some (as @ a # bs) \<Longrightarrow>
      succ q a = (case bs of [] \<Rightarrow> None | b # _ \<Rightarrow> Some b)"
    and rep_distinct: "rep q L \<Longrightarrow> L h = Some xs \<Longrightarrow> distinct xs"
    and rep_disjoint: "rep q L \<Longrightarrow> L g = Some xs \<Longrightarrow> L h = Some ys \<Longrightarrow> g \<noteq> h \<Longrightarrow>
      set xs \<inter> set ys = {}"
begin

text \<open>Inserting fresh elements one after the other lists them in that order.\<close>

lemma rep_insert_all:
  assumes "rep q L" and "L h = Some xs" and "distinct ys"
    and "\<forall>g zs. L g = Some zs \<longrightarrow> set ys \<inter> set zs = {}"
  shows "rep (fold (insert_tail h) ys q) (L(h \<mapsto> xs @ ys))"
  using assms
proof (induction ys arbitrary: q L xs)
  case Nil
  then have "L(h \<mapsto> xs @ []) = L" by auto
  then show ?case using Nil.prems(1) by simp
next
  case (Cons y ys)
  let ?L = "L(h \<mapsto> xs @ [y])"
  have "rep (insert_tail h y q) ?L"
    using Cons.prems by (intro rep_insert) auto
  moreover have "\<forall>g zs. ?L g = Some zs \<longrightarrow> set ys \<inter> set zs = {}"
    using Cons.prems by auto
  ultimately have "rep (fold (insert_tail h) ys (insert_tail h y q)) (?L(h \<mapsto> (xs @ [y]) @ ys))"
    using Cons.prems(3) by (intro Cons.IH) (simp_all only: fun_upd_same distinct.simps)
  moreover have "?L(h \<mapsto> (xs @ [y]) @ ys) = L(h \<mapsto> xs @ y # ys)" by auto
  ultimately show ?case by (simp only: fold_simps)
qed

text \<open>Unlinking an element and linking it again moves it to the end.\<close>

lemma rep_move_last:
  assumes "rep q L" and "L h = Some xs" and "a \<in> set xs"
  shows "rep (insert_tail h a (remove h a q)) (L(h \<mapsto> remove1 a xs @ [a]))"
proof -
  let ?L = "L(h \<mapsto> remove1 a xs)"
  have 1: "rep (remove h a q) ?L" using assms by (rule rep_remove)
  have "a \<notin> set (remove1 a xs)" using rep_distinct [OF assms(1,2)] by simp
  moreover have "a \<notin> set ys" if "L g = Some ys" "g \<noteq> h" for g ys
    using rep_disjoint [OF assms(1) that(1) assms(2) that(2)] assms(3) by auto
  ultimately have "rep (insert_tail h a (remove h a q)) (?L(h \<mapsto> remove1 a xs @ [a]))"
    using 1 by (intro rep_insert) auto
  then show ?thesis by simp
qed

end

section \<open>The pointer structure implements the interface\<close>

text \<open>
  \<open>seg q s xs\<close>: starting at the cell \<open>s\<close>, the elements \<open>xs\<close> are linked one after the
  other, each pointing back at the cell that points at it; \<open>end_slot s xs\<close> is the cell where
  the next element would be linked.
\<close>

fun seg :: "'h tailq \<Rightarrow> 'h slot \<Rightarrow> nat list \<Rightarrow> bool" where
  "seg q s [] = True"
| "seg q s (a # as) = (slot_load q s = Some a \<and> tqe_prev q a = s \<and> seg q (NextOf a) as)"

definition end_slot :: "'h slot \<Rightarrow> nat list \<Rightarrow> 'h slot" where
  "end_slot s xs = (if xs = [] then s else NextOf (last xs))"

definition tq_list :: "'h tailq \<Rightarrow> 'h \<Rightarrow> nat list \<Rightarrow> bool" where
  "tq_list q h xs \<longleftrightarrow> seg q (First h) xs \<and> distinct xs \<and>
     tqh_last q h = end_slot (First h) xs \<and> slot_load q (end_slot (First h) xs) = None"

definition tq_rep :: "'h tailq \<Rightarrow> ('h \<Rightarrow> nat list option) \<Rightarrow> bool" where
  "tq_rep q L \<longleftrightarrow> (\<forall>h xs. L h = Some xs \<longrightarrow> tq_list q h xs) \<and>
     (\<forall>g h xs ys. L g = Some xs \<longrightarrow> L h = Some ys \<longrightarrow> g \<noteq> h \<longrightarrow> set xs \<inter> set ys = {})"

lemma slot_load_store [simp]:
  "slot_load (slot_store s v q) t = (if t = s then v else slot_load q t)"
  by (cases s; cases t) auto

lemma slot_store_frame [simp]:
  "tqe_prev (slot_store s v q) = tqe_prev q" "tqh_last (slot_store s v q) = tqh_last q"
  by (cases s; simp)+

lemma slot_load_upd [simp]:
  "slot_load (q\<lparr>tqe_prev := f\<rparr>) t = slot_load q t"
  "slot_load (q\<lparr>tqh_last := g\<rparr>) t = slot_load q t"
  "slot_load (q\<lparr>tqe_next := (tqe_next q)(a := v)\<rparr>) t = (if t = NextOf a then v else slot_load q t)"
  by (cases t; simp)+

lemma end_slot_simps [simp]:
  "end_slot s [] = s" "end_slot s (xs @ [a]) = NextOf a"
  "end_slot s (a # as) = end_slot (NextOf a) as"
  by (auto simp: end_slot_def)

lemma end_slot_append: "end_slot s (xs @ ys) = end_slot (end_slot s xs) ys"
  by (auto simp: end_slot_def)

lemma seg_append [simp]: "seg q s (xs @ ys) = (seg q s xs \<and> seg q (end_slot s xs) ys)"
  by (induction xs arbitrary: s) auto

lemma seg_cong:
  assumes "xs \<noteq> [] \<Longrightarrow> slot_load q' s = slot_load q s"
    and "\<And>a. a \<in> set (butlast xs) \<Longrightarrow> slot_load q' (NextOf a) = slot_load q (NextOf a)"
    and "\<And>a. a \<in> set xs \<Longrightarrow> tqe_prev q' a = tqe_prev q a"
  shows "seg q' s xs = seg q s xs"
  using assms
proof (induction xs arbitrary: s)
  case Nil
  then show ?case by simp
next
  case (Cons a xs)
  have "seg q' (NextOf a) xs = seg q (NextOf a) xs"
  proof (rule Cons.IH)
    show "slot_load q' (NextOf a) = slot_load q (NextOf a)" if "xs \<noteq> []"
      using Cons.prems(2) [of a] that by simp
    show "slot_load q' (NextOf b) = slot_load q (NextOf b)" if "b \<in> set (butlast xs)" for b
      using Cons.prems(2) [of b] that by (cases xs) auto
    show "tqe_prev q' b = tqe_prev q b" if "b \<in> set xs" for b
      using Cons.prems(3) that by simp
  qed
  then show ?case using Cons.prems by simp
qed

declare slot_load.simps [simp del]

text \<open>What each macro does to the cells.\<close>

lemma insert_effect:
  "slot_load (TAILQ_INSERT_TAIL h a q) t =
     (if t = tqh_last q h then Some a else if t = NextOf a then None else slot_load q t)"
  "tqe_prev (TAILQ_INSERT_TAIL h a q) = (tqe_prev q)(a := tqh_last q h)"
  "tqh_last (TAILQ_INSERT_TAIL h a q) = (tqh_last q)(h := NextOf a)"
proof -
  let ?q1 = "q\<lparr>tqe_next := (tqe_next q)(a := None), tqe_prev := (tqe_prev q)(a := tqh_last q h)\<rparr>"
  have l1: "slot_load ?q1 t = (if t = NextOf a then None else slot_load q t)" for t
    by (cases t) (auto simp: slot_load.simps)
  show "slot_load (TAILQ_INSERT_TAIL h a q) t =
     (if t = tqh_last q h then Some a else if t = NextOf a then None else slot_load q t)"
    unfolding TAILQ_INSERT_TAIL_def Let_def slot_load_upd slot_load_store l1 by simp
qed (simp_all add: TAILQ_INSERT_TAIL_def Let_def)

lemma remove_effect:
  assumes "tqe_next q a \<noteq> Some a"
  shows "slot_load (TAILQ_REMOVE h a q) t = (if t = tqe_prev q a then tqe_next q a else slot_load q t)"
    and "tqe_prev (TAILQ_REMOVE h a q) =
      (case tqe_next q a of Some b \<Rightarrow> (tqe_prev q)(b := tqe_prev q a) | None \<Rightarrow> tqe_prev q)"
    and "tqh_last (TAILQ_REMOVE h a q) =
      (case tqe_next q a of Some b \<Rightarrow> tqh_last q | None \<Rightarrow> (tqh_last q)(h := tqe_prev q a))"
  using assms by (auto simp: TAILQ_REMOVE_def Let_def split: option.splits)

lemma init_effect:
  "slot_load (TAILQ_INIT h q) t = (if t = First h then None else slot_load q t)"
  "tqe_prev (TAILQ_INIT h q) = tqe_prev q"
  "tqh_last (TAILQ_INIT h q) = (tqh_last q)(h := First h)"
  by (cases t) (auto simp: TAILQ_INIT_def slot_load.simps)

lemma butlast_last_distinct: "distinct xs \<Longrightarrow> a \<in> set (butlast xs) \<Longrightarrow> a \<noteq> last xs"
  by (induction xs) (auto split: if_splits)

lemma tq_list_insert:
  assumes "tq_list q h xs" and "a \<notin> set xs"
  shows "tq_list (TAILQ_INSERT_TAIL h a q) h (xs @ [a])"
proof -
  let ?q' = "TAILQ_INSERT_TAIL h a q"
  have e: "tqh_last q h = end_slot (First h) xs" and d: "distinct xs"
    and s: "seg q (First h) xs" using assms(1) by (auto simp: tq_list_def)
  have "seg ?q' (First h) xs = seg q (First h) xs"
    using assms(2) d e
    by (intro seg_cong) (auto simp: insert_effect end_slot_def dest: butlast_last_distinct in_set_butlastD)
  with s have "seg ?q' (First h) xs" by simp
  moreover have "slot_load ?q' (NextOf a) = None"
    using e assms(2) by (auto simp: insert_effect end_slot_def)
  ultimately show ?thesis using e d assms(2) by (simp add: tq_list_def insert_effect)
qed

lemma tq_list_insert_frame:
  assumes "tq_list q g ys" and "tq_list q h xs" and "g \<noteq> h" and "a \<notin> set ys"
    and "set xs \<inter> set ys = {}"
  shows "tq_list (TAILQ_INSERT_TAIL h a q) g ys"
proof -
  have ne: "First g \<noteq> tqh_last q h" "b \<in> set ys \<Longrightarrow> NextOf b \<noteq> tqh_last q h" for b
    using assms by (auto simp: tq_list_def end_slot_def dest: last_in_set)
  have l: "b \<in> set ys \<Longrightarrow> slot_load (TAILQ_INSERT_TAIL h a q) (NextOf b) = slot_load q (NextOf b)" for b
    using ne assms(4) by (auto simp: insert_effect(1))
  have f: "slot_load (TAILQ_INSERT_TAIL h a q) (First g) = slot_load q (First g)"
    using ne by (auto simp: insert_effect(1))
  have "seg (TAILQ_INSERT_TAIL h a q) (First g) ys = seg q (First g) ys"
    using l f assms(4) by (intro seg_cong) (auto simp: insert_effect(2) dest: in_set_butlastD)
  then show ?thesis using assms l f
    by (auto simp: tq_list_def insert_effect(2,3) end_slot_def)
qed

lemma seg_first: "seg q s xs \<Longrightarrow> xs \<noteq> [] \<Longrightarrow> slot_load q s = Some (hd xs)"
  by (cases xs) auto

text \<open>
  Removing the element \<open>a\<close> between \<open>as\<close> and \<open>bs\<close>: the cell that pointed at \<open>a\<close> now
  points at what followed it.
\<close>

lemma tq_list_remove_parts:
  assumes "tq_list q h (as @ a # bs)"
  shows "tqe_prev q a = end_slot (First h) as"
    and "tqe_next q a = (case bs of [] \<Rightarrow> None | b # _ \<Rightarrow> Some b)"
    and "tqe_next q a \<noteq> Some a"
proof -
  show p: "tqe_prev q a = end_slot (First h) as"
    using assms by (simp add: tq_list_def)
  show n: "tqe_next q a = (case bs of [] \<Rightarrow> None | b # _ \<Rightarrow> Some b)"
    using assms by (cases bs) (auto simp: tq_list_def end_slot_append slot_load.simps)
  show "tqe_next q a \<noteq> Some a" using assms n by (auto simp: tq_list_def split: list.splits)
qed

lemma tq_list_remove:
  assumes l: "tq_list q h (as @ a # bs)"
  shows "tq_list (TAILQ_REMOVE h a q) h (as @ bs)"
proof -
  let ?q' = "TAILQ_REMOVE h a q"
  let ?s = "end_slot (First h) as"
  note [simp] = remove_effect [OF tq_list_remove_parts(3) [OF l]] tq_list_remove_parts(1,2) [OF l]
  have d: "distinct (as @ a # bs)" and s1: "seg q (First h) as" and s2: "seg q (NextOf a) bs"
    using l by (auto simp: tq_list_def)
  have "seg ?q' (First h) as = seg q (First h) as"
    using d by (intro seg_cong)
      (auto simp: end_slot_def split: option.splits list.splits dest: butlast_last_distinct)
  moreover have "seg ?q' ?s bs"
  proof (cases bs)
    case (Cons b cs)
    have "seg ?q' (NextOf b) cs = seg q (NextOf b) cs"
      proof (rule seg_cong)
      have "NextOf c \<noteq> ?s" if "c \<in> set bs" for c
        using that d last_in_set [of as] by (cases "as = []") (simp add: end_slot_def, force simp: end_slot_def simp del: last_in_set)
      then show "slot_load ?q' (NextOf b) = slot_load q (NextOf b)"
        and "\<And>c. c \<in> set (butlast cs) \<Longrightarrow> slot_load ?q' (NextOf c) = slot_load q (NextOf c)"
        using Cons by (auto dest: in_set_butlastD)
      show "tqe_prev ?q' c = tqe_prev q c" if "c \<in> set cs" for c
        using that d Cons by auto
    qed
    then show ?thesis using Cons s2 by simp
  qed simp
  moreover have "tqh_last ?q' h = end_slot (First h) (as @ bs)"
    using l by (cases bs) (auto simp: tq_list_def end_slot_append)
  moreover have "slot_load ?q' (end_slot (First h) (as @ bs)) = None"
    using l d by (cases bs) (auto simp: tq_list_def end_slot_append end_slot_def split: if_splits)
  ultimately show ?thesis using d s1 by (simp add: tq_list_def)
qed

lemma tq_list_remove_frame:
  assumes l: "tq_list q h (as @ a # bs)" and g: "tq_list q g ys" and "g \<noteq> h"
    and dj: "set (as @ a # bs) \<inter> set ys = {}"
  shows "tq_list (TAILQ_REMOVE h a q) g ys"
proof -
  note [simp] = remove_effect [OF tq_list_remove_parts(3) [OF l]] tq_list_remove_parts(1,2) [OF l]
  have ne: "First g \<noteq> end_slot (First h) as" "b \<in> set ys \<Longrightarrow> NextOf b \<noteq> end_slot (First h) as" for b
    using assms(3) dj by (auto simp: end_slot_def dest: last_in_set)
  have "seg (TAILQ_REMOVE h a q) (First g) ys = seg q (First g) ys"
    using ne dj by (intro seg_cong) (auto split: list.splits dest: in_set_butlastD)
  moreover have "end_slot (First g) ys \<noteq> end_slot (First h) as"
    using ne by (auto simp: end_slot_def [of "First g"])
  ultimately show ?thesis using g assms(3) by (auto simp: tq_list_def split: list.splits)
qed

lemma tq_list_init: "tq_list (TAILQ_INIT h q) h []"
  by (simp add: tq_list_def init_effect)

lemma tq_list_init_frame: "tq_list q g ys \<Longrightarrow> g \<noteq> h \<Longrightarrow> tq_list (TAILQ_INIT h q) g ys"
proof -
  assume g: "tq_list q g ys" "g \<noteq> h"
  then have "seg (TAILQ_INIT h q) (First g) ys = seg q (First g) ys"
    by (intro seg_cong) (auto simp: init_effect)
  then show ?thesis using g by (auto simp: tq_list_def init_effect end_slot_def)
qed

lemma tq_rep_update:
  assumes "tq_rep q L" and "tq_list q' h xs'"
    and "\<And>g ys. g \<noteq> h \<Longrightarrow> L g = Some ys \<Longrightarrow> tq_list q' g ys \<and> set xs' \<inter> set ys = {}"
  shows "tq_rep q' (L(h \<mapsto> xs'))"
proof -
  have "set xs \<inter> set ys = {}"
    if fg: "(L(h \<mapsto> xs')) f = Some xs" "(L(h \<mapsto> xs')) g = Some ys" "f \<noteq> g" for f g xs ys
  proof (cases "f = h \<or> g = h")
    case True
    then consider "f = h" "g \<noteq> h" | "g = h" "f \<noteq> h" using fg(3) by blast
    then show ?thesis
    proof cases
      case 1
      then show ?thesis using assms(3) [of g ys] fg by simp
    next
      case 2
      then show ?thesis using assms(3) [of f xs] fg by (simp add: Int_commute)
    qed
  next
    case False
    then have "L f = Some xs" "L g = Some ys" using fg by auto
    then show ?thesis using assms(1) fg(3) unfolding tq_rep_def by blast
  qed
  moreover have "tq_list q' g ys" if "(L(h \<mapsto> xs')) g = Some ys" for g ys
    using that assms(2,3) by (auto split: if_splits)
  ultimately show ?thesis unfolding tq_rep_def by blast
qed

interpretation tq: tail_queue tq_rep TAILQ_INIT TAILQ_INSERT_TAIL TAILQ_REMOVE TAILQ_FIRST TAILQ_NEXT
proof
  fix q :: "'h tailq" and L h
  assume "tq_rep q L"
  then show "tq_rep (TAILQ_INIT h q) (L(h \<mapsto> []))"
    by (auto simp: tq_rep_def tq_list_init tq_list_init_frame)
next
  fix q :: "'h tailq" and L h xs a
  assume r: "tq_rep q L" "L h = Some xs" and a: "\<forall>g ys. L g = Some ys \<longrightarrow> a \<notin> set ys"
  show "tq_rep (TAILQ_INSERT_TAIL h a q) (L(h \<mapsto> xs @ [a]))"
  proof (rule tq_rep_update [OF r(1)])
    have h: "tq_list q h xs" using r by (simp add: tq_rep_def)
    then show "tq_list (TAILQ_INSERT_TAIL h a q) h (xs @ [a])"
      using a r(2) by (intro tq_list_insert) auto
    fix g ys
    assume g: "g \<noteq> h" "L g = Some ys"
    then have "set xs \<inter> set ys = {}" "tq_list q g ys"
      using r unfolding tq_rep_def by blast+
    then show "tq_list (TAILQ_INSERT_TAIL h a q) g ys \<and> set (xs @ [a]) \<inter> set ys = {}"
      using tq_list_insert_frame [OF _ h g(1)] a g(2) by auto
  qed
next
  fix q :: "'h tailq" and L h xs a
  assume r: "tq_rep q L" "L h = Some xs" "a \<in> set xs"
  then obtain as bs where x: "xs = as @ a # bs" "a \<notin> set as"
    by (meson split_list_first)
  then have x': "remove1 a xs = as @ bs" by (simp add: remove1_append)
  show "tq_rep (TAILQ_REMOVE h a q) (L(h \<mapsto> remove1 a xs))"
    unfolding x'
  proof (rule tq_rep_update [OF r(1)])
    have "tq_list q h (as @ a # bs)" using r x by (simp add: tq_rep_def)
    then show "tq_list (TAILQ_REMOVE h a q) h (as @ bs)" by (rule tq_list_remove)
    fix g ys
    assume g: "g \<noteq> h" "L g = Some ys"
    then have dj: "set (as @ a # bs) \<inter> set ys = {}" and "tq_list q g ys"
      using r x unfolding tq_rep_def by blast+
    then show "tq_list (TAILQ_REMOVE h a q) g ys \<and> set (as @ bs) \<inter> set ys = {}"
      using tq_list_remove_frame [OF \<open>tq_list q h (as @ a # bs)\<close> _ g(1)] by auto
  qed
next
  fix q :: "'h tailq" and L h xs
  assume "tq_rep q L" "L h = Some xs"
  then have "tq_list q h xs" by (simp add: tq_rep_def)
  then show "TAILQ_FIRST q h = (case xs of [] \<Rightarrow> None | x # _ \<Rightarrow> Some x)"
    by (cases xs) (auto simp: TAILQ_FIRST_def tq_list_def slot_load.simps)
next
  fix q :: "'h tailq" and L h as a bs
  assume "tq_rep q L" "L h = Some (as @ a # bs)"
  then have "tq_list q h (as @ a # bs)" by (simp add: tq_rep_def)
  then show "TAILQ_NEXT q a = (case bs of [] \<Rightarrow> None | b # _ \<Rightarrow> Some b)"
    by (simp add: TAILQ_NEXT_def tq_list_remove_parts(2))
qed (auto simp: tq_rep_def tq_list_def)

end
