(* ===== verification/Histogram.thy ===== *)
theory Histogram
  imports Nof_Prelude "HOL-Library.Multiset"
begin

text \<open>
  The latency histograms of \<open>include/spdk/histogram_data.h\<close>, which the performance tools
  fill on every completed command: ranges of buckets whose width doubles from one range to
  the next. The data structure keeps one flat array of 64-bit counters; an access outside
  the array is \<open>None\<close>. The lemmas show that tallying never leaves the array, that the bucket
  it picks is the one that holds the data point, that the buckets reported to a reader are
  adjacent, and that tallying, merging and reading agree on the number of data points.
\<close>

section \<open>Model\<close>

text \<open>
  The shift operators of C on unsigned operands: shifting by the width of the left operand or
  more is undefined.
\<close>

definition shl :: "'a :: len word \<Rightarrow> u32 \<Rightarrow> 'a word option" where
  "shl x n = (if unat n < LENGTH('a) then Some (push_bit (unat n) x) else None)"

definition shr :: "'a :: len word \<Rightarrow> u32 \<Rightarrow> 'a word option" where
  "shr x n = (if unat n < LENGTH('a) then Some (drop_bit (unat n) x) else None)"

record spdk_histogram_data =
  bucket_shift :: u32
  bucket :: "u64 list"

definition BUCKET_LSB :: "spdk_histogram_data \<Rightarrow> u32" where
  "BUCKET_LSB h = 64 - bucket_shift h"

definition NUM_BUCKETS_PER_RANGE :: "spdk_histogram_data \<Rightarrow> u64 option" where
  "NUM_BUCKETS_PER_RANGE h = shl 1 (bucket_shift h)"

definition BUCKET_MASK :: "spdk_histogram_data \<Rightarrow> u64 option" where
  "BUCKET_MASK h = do { n \<leftarrow> NUM_BUCKETS_PER_RANGE h; Some (n - 1) }"

definition NUM_BUCKET_RANGES :: "spdk_histogram_data \<Rightarrow> u32" where
  "NUM_BUCKET_RANGES h = BUCKET_LSB h + 1"

definition NUM_BUCKETS :: "spdk_histogram_data \<Rightarrow> u64 option" where
  "NUM_BUCKETS h = do { n \<leftarrow> NUM_BUCKETS_PER_RANGE h; Some (n * ucast (NUM_BUCKET_RANGES h)) }"

text \<open>Count leading zeros of a nonzero 64-bit value (\<open>__builtin_clzll\<close>).\<close>

fun bit_length :: "nat \<Rightarrow> nat" where
  "bit_length n = (if n = 0 then 0 else Suc (bit_length (n div 2)))"

declare bit_length.simps [simp del]

definition clzll :: "u64 \<Rightarrow> nat" where
  "clzll x = 64 - bit_length (unat x)"

text \<open>The subscript of a counter, computed in 32 bits.\<close>

definition bucket_pos :: "spdk_histogram_data \<Rightarrow> u32 \<Rightarrow> u32 \<Rightarrow> u32 option" where
  "bucket_pos h rng index = do { r \<leftarrow> shl rng (bucket_shift h); Some (r + index) }"

definition histogram_increment :: "spdk_histogram_data \<Rightarrow> u32 \<Rightarrow> u32 \<Rightarrow> spdk_histogram_data option" where
  "histogram_increment h rng index = do {
     p \<leftarrow> bucket_pos h rng index;
     let i = unat p;
     if i < length (bucket h) then Some (h\<lparr>bucket := (bucket h)[i := bucket h ! i + 1]\<rparr>) else None
   }"

definition histogram_get_count :: "spdk_histogram_data \<Rightarrow> u32 \<Rightarrow> u32 \<Rightarrow> u64 option" where
  "histogram_get_count h rng index = do {
     p \<leftarrow> bucket_pos h rng index;
     if unat p < length (bucket h) then Some (bucket h ! unat p) else None
   }"

text \<open>Clearing: \<open>memset\<close> of \<open>8 * NUM_BUCKETS\<close> bytes, a product of 64 bits.\<close>

definition histogram_data_reset :: "spdk_histogram_data \<Rightarrow> spdk_histogram_data option" where
  "histogram_data_reset h = do {
     n \<leftarrow> NUM_BUCKETS h;
     let k = unat (n * 8) div 8;
     if k \<le> length (bucket h) then Some (h\<lparr>bucket := replicate k 0 @ drop k (bucket h)\<rparr>) else None
   }"

definition get_bucket_range :: "spdk_histogram_data \<Rightarrow> u64 \<Rightarrow> u32" where
  "get_bucket_range h datapoint =
     (let clz = (if datapoint > 0 then of_nat (clzll datapoint) else 64)
      in if clz \<le> BUCKET_LSB h then BUCKET_LSB h - clz else 0)"

definition get_bucket_index :: "spdk_histogram_data \<Rightarrow> u64 \<Rightarrow> u32 \<Rightarrow> u32 option" where
  "get_bucket_index h datapoint rng = do {
     x \<leftarrow> shr datapoint (if rng = 0 then 0 else rng - 1);
     m \<leftarrow> BUCKET_MASK h;
     Some (ucast (x AND m))
   }"

definition histogram_data_tally :: "spdk_histogram_data \<Rightarrow> u64 \<Rightarrow> spdk_histogram_data option" where
  "histogram_data_tally h datapoint = do {
     let rng = get_bucket_range h datapoint;
     index \<leftarrow> get_bucket_index h datapoint rng;
     histogram_increment h rng index
   }"

definition get_bucket_start :: "spdk_histogram_data \<Rightarrow> u32 \<Rightarrow> u32 \<Rightarrow> u64 option" where
  "get_bucket_start h rng index =
     (let index' = index + 1
      in if rng > 0 then do {
           b \<leftarrow> shl 1 (rng + bucket_shift h - 1);
           x \<leftarrow> shl (ucast index') (rng - 1);
           Some (b + x)
         }
         else Some (ucast index'))"

text \<open>
  \<open>spdk_histogram_data_iterate\<close> calls a function on every bucket; the model returns the list
  of the calls' arguments (start, end, count, total, so far). The loop counters have 64 bits and
  are cut to 32 when they are passed on.
\<close>

definition bucket_indices :: "spdk_histogram_data \<Rightarrow> (u32 \<times> u32) list option" where
  "bucket_indices h =
     (if NUM_BUCKET_RANGES h = 0 then Some []
      else do {
        n \<leftarrow> NUM_BUCKETS_PER_RANGE h;
        Some (concat (map (\<lambda>i. map (\<lambda>j. (of_nat i, of_nat j)) [0..<unat n]) [0..<unat (NUM_BUCKET_RANGES h)]))
      })"

fun iterate_buckets :: "spdk_histogram_data \<Rightarrow> (u32 \<times> u32) list \<Rightarrow> u64 \<Rightarrow> u64 \<Rightarrow> u64 \<Rightarrow>
    (u64 \<times> u64 \<times> u64 \<times> u64 \<times> u64) list option" where
  "iterate_buckets h [] tot so_far last_bucket = Some []"
| "iterate_buckets h ((i, j) # ijs) tot so_far last_bucket = do {
     count \<leftarrow> histogram_get_count h i j;
     let so_far' = so_far + count;
     bucket' \<leftarrow> get_bucket_start h i j;
     calls \<leftarrow> iterate_buckets h ijs tot so_far' bucket';
     Some ((last_bucket, bucket', count, tot, so_far') # calls)
   }"

fun sum_buckets :: "spdk_histogram_data \<Rightarrow> (u32 \<times> u32) list \<Rightarrow> u64 \<Rightarrow> u64 option" where
  "sum_buckets h [] tot = Some tot"
| "sum_buckets h ((i, j) # ijs) tot = do {
     count \<leftarrow> histogram_get_count h i j;
     sum_buckets h ijs (tot + count)
   }"

definition histogram_data_iterate :: "spdk_histogram_data \<Rightarrow> (u64 \<times> u64 \<times> u64 \<times> u64 \<times> u64) list option" where
  "histogram_data_iterate h = do {
     ijs \<leftarrow> bucket_indices h;
     tot \<leftarrow> sum_buckets h ijs 0;
     iterate_buckets h ijs tot 0 0
   }"

definition histogram_data_merge ::
    "spdk_histogram_data \<Rightarrow> spdk_histogram_data \<Rightarrow> (int \<times> spdk_histogram_data) option" where
  "histogram_data_merge dst src =
     (if bucket_shift dst \<noteq> bucket_shift src then Some (- EINVAL, dst)
      else do {
        m \<leftarrow> NUM_BUCKETS dst;
        let n = unat m;
        if n \<le> length (bucket dst) \<and> n \<le> length (bucket src)
        then Some (0, dst\<lparr>bucket :=
               map2 (+) (take n (bucket dst)) (take n (bucket src)) @ drop n (bucket dst)\<rparr>)
        else None
      })"

text \<open>
  Allocation: \<open>ok\<close> and \<open>ok'\<close> tell whether the two calls of \<open>calloc\<close> succeed; \<open>Some None\<close> is the
  result \<open>NULL\<close>.
\<close>

definition histogram_data_alloc_sized :: "bool \<Rightarrow> bool \<Rightarrow> u32 \<Rightarrow> spdk_histogram_data option option" where
  "histogram_data_alloc_sized ok ok' shift =
     (if \<not> ok then Some None
      else let h = \<lparr>bucket_shift = shift, bucket = []\<rparr>
           in do {
                n \<leftarrow> NUM_BUCKETS h;
                Some (if ok' then Some (h\<lparr>bucket := replicate (unat n) 0\<rparr>) else None)
              })"

definition histogram_data_alloc :: "bool \<Rightarrow> bool \<Rightarrow> spdk_histogram_data option option" where
  "histogram_data_alloc ok ok' = histogram_data_alloc_sized ok ok' 7"

section \<open>Bit lengths\<close>

lemma bit_length_0 [simp]: "bit_length 0 = 0"
  by (simp add: bit_length.simps)

lemma bit_length_bounds: "n > 0 \<Longrightarrow> 2 ^ (bit_length n - 1) \<le> n \<and> n < 2 ^ bit_length n \<and> bit_length n > 0"
proof (induction n rule: bit_length.induct)
  case (1 n)
  show ?case
  proof (cases "n div 2 = 0")
    case True
    with 1 have "n = 1" by auto
    then show ?thesis by (simp add: bit_length.simps)
  next
    case False
    with 1 have ih: "2 ^ (bit_length (n div 2) - 1) \<le> n div 2" "n div 2 < 2 ^ bit_length (n div 2)"
      "bit_length (n div 2) > 0" by auto
    obtain k where k: "bit_length (n div 2) = Suc k" using ih(3) by (cases "bit_length (n div 2)") auto
    from 1 have "bit_length n = Suc (Suc k)" by (simp add: bit_length.simps [of n] k)
    then show ?thesis using ih(1,2) k by auto
  qed
qed

lemma bit_length_le: "n < 2 ^ k \<Longrightarrow> bit_length n \<le> k"
proof (rule ccontr)
  assume n: "n < 2 ^ k" "\<not> bit_length n \<le> k"
  then have "n > 0" by (cases "n = 0") auto
  with n have "2 ^ k \<le> (2 :: nat) ^ (bit_length n - 1)" by (intro power_increasing) auto
  with bit_length_bounds [OF \<open>n > 0\<close>] n show False by linarith
qed

section \<open>The invariant and the bucket of a data point\<close>

text \<open>
  The layout of a histogram with \<open>s\<close> as its shift: the number of its counters, and the range,
  the index and the position of the counter of a data point. The code computes the same values
  in words as long as the shift is at most 26; from 27 on the array has more than \<open>2 ^ 32\<close>
  counters and the 32-bit subscript wraps around.
\<close>

definition num_counters :: "nat \<Rightarrow> nat" where
  "num_counters s = (65 - s) * 2 ^ s"

definition range_of :: "nat \<Rightarrow> u64 \<Rightarrow> nat" where
  "range_of s d = bit_length (unat d) - s"

definition index_of :: "nat \<Rightarrow> u64 \<Rightarrow> nat" where
  "index_of s d = unat d div 2 ^ (range_of s d - 1) mod 2 ^ s"

definition hist_shift :: "spdk_histogram_data \<Rightarrow> nat" where
  "hist_shift h = unat (bucket_shift h)"

definition hist_inv :: "spdk_histogram_data \<Rightarrow> bool" where
  "hist_inv h \<longleftrightarrow> hist_shift h \<le> 26 \<and> length (bucket h) = num_counters (hist_shift h)"

definition hist_total :: "spdk_histogram_data \<Rightarrow> u64" where
  "hist_total h = sum_list (bucket h)"

lemma hist_shift_word: "bucket_shift h = of_nat (hist_shift h)"
  by (simp add: hist_shift_def)

lemma num_counters_small:
  assumes "s \<le> 26"
  shows "num_counters s < 2 ^ 32"
proof -
  have "s \<in> set [0..<27]" using assms by simp
  then show ?thesis by (auto simp: num_counters_def upt_rec)
qed

lemma bit_length_u64: "bit_length (unat (d :: u64)) \<le> 64"
  using unsigned_less [where ?'a = nat, of d] by (intro bit_length_le) simp

lemma of_nat_u32:
  assumes "n < 2 ^ 32"
  shows "unat (of_nat n :: u32) = n"
  using assms by (simp add: unat_of_nat)

lemma ucast_unat: "(ucast (x :: 'a :: len word) :: 'b :: len word) = of_nat (unat x)"
  using unsigned_of_nat [where ?'b = 'a and ?'a = "'b word", of "unat x"] unsigned_less [where ?'a = nat, of x]
  by (simp add: take_bit_nat_eq_self)

lemma BUCKET_LSB_eq: "hist_shift h \<le> 64 \<Longrightarrow> BUCKET_LSB h = of_nat (64 - hist_shift h)"
  by (simp add: BUCKET_LSB_def hist_shift_word of_nat_diff)

lemma per_range_eq: "hist_shift h < 64 \<Longrightarrow> NUM_BUCKETS_PER_RANGE h = Some (of_nat (2 ^ hist_shift h))"
  by (simp add: NUM_BUCKETS_PER_RANGE_def shl_def hist_shift_def push_bit_eq_mult)

lemma bucket_ranges_eq: "hist_shift h \<le> 64 \<Longrightarrow> NUM_BUCKET_RANGES h = of_nat (65 - hist_shift h)"
  using of_nat_Suc [of "64 - hist_shift h", where ?'a = u32]
  by (simp add: NUM_BUCKET_RANGES_def BUCKET_LSB_eq Suc_diff_le add.commute)

lemma num_buckets_eq:
  assumes "hist_shift h \<le> 26"
  shows "\<exists>n. NUM_BUCKETS h = Some n \<and> unat n = num_counters (hist_shift h)"
proof -
  let ?s = "hist_shift h"
  have r: "unat (of_nat (65 - ?s) :: u32) = 65 - ?s" by (rule of_nat_u32) simp
  have "(ucast (of_nat (65 - ?s) :: u32) :: u64) = of_nat (65 - ?s)"
    using r by (simp add: ucast_unat)
  then have "NUM_BUCKETS h = Some (of_nat (num_counters ?s))"
    using assms by (simp add: NUM_BUCKETS_def per_range_eq bucket_ranges_eq num_counters_def)
  moreover have "unat (of_nat (num_counters ?s) :: u64) = num_counters ?s"
    using num_counters_small [OF assms] by (simp add: unat_of_nat)
  ultimately show ?thesis by blast
qed

lemma range_bit_length:
  assumes "hist_shift h < 64"
  shows "get_bucket_range h d = of_nat (range_of (hist_shift h) d)"
proof -
  let ?s = "hist_shift h" and ?b = "bit_length (unat d)"
  define clz where "clz = 64 - ?b"
  have le: "?b \<le> 64" by (rule bit_length_u64)
  have c: "(if d > 0 then of_nat (clzll d) else 64) = (of_nat clz :: u32)"
    by (cases "d = 0") (auto simp: clz_def clzll_def word_neq_0_conv)
  have "(of_nat clz :: u32) \<le> of_nat (64 - ?s) \<longleftrightarrow> clz \<le> 64 - ?s"
    by (simp add: word_le_nat_alt of_nat_u32 clz_def)
  moreover have "of_nat (64 - ?s) - of_nat clz = (of_nat (?b - ?s) :: u32)" if "clz \<le> 64 - ?s"
    using that le assms by (simp add: clz_def flip: of_nat_diff)
  moreover have "?b - ?s = 0" if "\<not> clz \<le> 64 - ?s" using that le assms by (simp add: clz_def)
  ultimately show ?thesis
    using assms by (auto simp: get_bucket_range_def c BUCKET_LSB_eq Let_def range_of_def)
qed

lemma tally_range_le: "s < 64 \<Longrightarrow> range_of s d \<le> 64 - s"
  using bit_length_u64 [of d] by (simp add: range_of_def)

lemma index_eq:
  assumes "hist_shift h \<le> 26"
  shows "get_bucket_index h d (of_nat (range_of (hist_shift h) d)) = Some (of_nat (index_of (hist_shift h) d))"
proof -
  let ?s = "hist_shift h" and ?r = "range_of (hist_shift h) d"
  have r: "?r \<le> 64" "?r - 1 < 64" using tally_range_le [of ?s d] assms by simp_all
  have sub: "(if of_nat ?r = (0 :: u32) then 0 else of_nat ?r - 1) = (of_nat (?r - 1) :: u32)"
    using r of_nat_u32 [of ?r] by (cases ?r) auto
  have "BUCKET_MASK h = Some (mask ?s)"
    using assms by (simp add: BUCKET_MASK_def per_range_eq mask_eq_decr_exp)
  moreover have "shr d (of_nat (?r - 1)) = Some (drop_bit (?r - 1) d)"
    using r of_nat_u32 [of "?r - 1"] by (simp add: shr_def)
  ultimately have "get_bucket_index h d (of_nat ?r) = Some (ucast (take_bit ?s (drop_bit (?r - 1) d)))"
    by (simp only: get_bucket_index_def sub bind.bind_lunit flip: take_bit_eq_mask)
  moreover have "unat (take_bit ?s (drop_bit (?r - 1) d)) = index_of ?s d"
    using take_bit_nat_eq_self [of "unat d" 64] unsigned_less [where ?'a = nat, of d]
    by (simp only: unsigned_take_bit_eq unsigned_drop_bit_eq)
      (simp add: index_of_def drop_bit_eq_div take_bit_eq_mod)
  then have "(ucast (take_bit ?s (drop_bit (?r - 1) d)) :: u32) = of_nat (index_of ?s d)"
    by (simp add: ucast_unat)
  ultimately show ?thesis by simp
qed

lemma bucket_pos_eq:
  assumes "hist_shift h \<le> 26"
  shows "bucket_pos h (of_nat r) (of_nat i) = Some (of_nat (r * 2 ^ hist_shift h + i))"
  using assms by (simp add: bucket_pos_def shl_def hist_shift_def push_bit_eq_mult)

text \<open>
  The lower bound of the bucket at array position \<open>k\<close>, as a natural number: the buckets of
  range 0 hold one value each, those of range \<open>r > 0\<close> hold \<open>2 ^ (r - 1)\<close> values each.
\<close>

definition bucket_lo :: "nat \<Rightarrow> nat \<Rightarrow> nat" where
  "bucket_lo bs k =
     (let r = k div 2 ^ bs; i = k mod 2 ^ bs
      in if r = 0 then i else 2 ^ (r + bs - 1) + i * 2 ^ (r - 1))"

lemma bucket_lo_0 [simp]: "bucket_lo bs 0 = 0"
  by (simp add: bucket_lo_def)

lemma bucket_lo_pos:
  assumes "i < 2 ^ bs"
  shows "bucket_lo bs (r * 2 ^ bs + i) = (if r = 0 then i else 2 ^ (r + bs - 1) + i * 2 ^ (r - 1))"
  using assms by (simp add: bucket_lo_def)

lemma bucket_lo_Suc:
  assumes "i < 2 ^ bs"
  shows "bucket_lo bs (Suc (r * 2 ^ bs + i)) =
    (if r = 0 then i + 1 else 2 ^ (r + bs - 1) + (i + 1) * 2 ^ (r - 1))"
proof (cases "i + 1 < 2 ^ bs")
  case True
  then show ?thesis using bucket_lo_pos [of "i + 1" bs r] by simp
next
  case False
  with assms have i: "i + 1 = 2 ^ bs" by simp
  then have "Suc (r * 2 ^ bs + i) = Suc r * 2 ^ bs + 0" by simp
  then have "bucket_lo bs (Suc (r * 2 ^ bs + i)) = 2 ^ (r + bs)"
    using bucket_lo_pos [of 0 bs "Suc r"] by (simp only: if_False nat.distinct) simp
  moreover have "2 ^ (r + bs) = 2 ^ (r + bs - 1) + 2 ^ bs * (2 :: nat) ^ (r - 1)" if "r > 0"
    using that by (cases r) (auto simp: power_add mult.commute)
  ultimately show ?thesis using i by auto
qed

lemma get_bucket_start_eq:
  assumes "hist_shift h \<le> 26" and "r \<le> 64 - hist_shift h" and "i < 2 ^ hist_shift h"
  shows "get_bucket_start h (of_nat r) (of_nat i) = Some (of_nat (bucket_lo (hist_shift h) (Suc (r * 2 ^ hist_shift h + i))))"
proof -
  let ?s = "hist_shift h"
  have "(2 :: nat) ^ ?s \<le> 2 ^ 26" using assms(1) by (intro power_increasing) auto
  then have i: "unat (of_nat (Suc i) :: u32) = Suc i" using assms(3) by (intro of_nat_u32) simp
  then have ci: "(ucast (of_nat i + 1 :: u32) :: u64) = of_nat (Suc i)"
    by (simp add: ucast_unat add.commute)
  show ?thesis
  proof (cases r)
    case 0
    then show ?thesis using ci by (simp add: get_bucket_start_def bucket_lo_Suc [OF assms(3), of 0, simplified])
  next
    case (Suc q)
    have q: "q + ?s < 64" "q < 64" using assms(1,2) Suc by auto
    have pos: "(0 :: u32) < of_nat r" using assms(2) of_nat_u32 [of r] Suc by (simp add: word_less_nat_alt)
    have a: "of_nat r + bucket_shift h - 1 = (of_nat (q + ?s) :: u32)" "of_nat r - 1 = (of_nat q :: u32)"
      by (simp_all add: Suc hist_shift_word)
    have "unat (of_nat (q + ?s) :: u32) = q + ?s" "unat (of_nat q :: u32) = q"
      by (rule of_nat_u32, use q in simp)+
    then have "shl 1 (of_nat (q + ?s) :: u32) = Some (2 ^ (q + ?s) :: u64)"
      "shl (of_nat (Suc i) :: u64) (of_nat q) = Some (of_nat (Suc i) * 2 ^ q)"
      using q by (simp_all add: shl_def push_bit_eq_mult)
    then have "get_bucket_start h (of_nat r) (of_nat i) = Some (2 ^ (q + ?s) + of_nat (Suc i) * 2 ^ q)"
      by (simp only: get_bucket_start_def Let_def pos a ci if_True bind.bind_lunit)
    moreover have "bucket_lo ?s (Suc (r * 2 ^ ?s + i)) = 2 ^ (q + ?s) + Suc i * 2 ^ q"
      unfolding bucket_lo_Suc [OF assms(3)] by (simp add: Suc)
    ultimately show ?thesis by (simp add: distrib_right)
  qed
qed

definition tally_pos :: "spdk_histogram_data \<Rightarrow> u64 \<Rightarrow> nat" where
  "tally_pos h d = range_of (hist_shift h) d * 2 ^ hist_shift h + index_of (hist_shift h) d"

lemma index_of_lt: "index_of s d < 2 ^ s"
  by (simp add: index_of_def)

lemma pos_lt:
  assumes "s < 64" and "r \<le> 64 - s" and "i < 2 ^ s"
  shows "r * 2 ^ s + i < num_counters s"
proof -
  have "r * 2 ^ s + i < Suc r * 2 ^ s" using assms(3) by simp
  also have "\<dots> \<le> (65 - s) * 2 ^ s" using assms by (intro mult_le_mono1) simp
  finally show ?thesis by (simp add: num_counters_def)
qed

lemma tally_pos_lt: "hist_shift h < 64 \<Longrightarrow> tally_pos h d < num_counters (hist_shift h)"
  by (simp add: tally_pos_def pos_lt tally_range_le index_of_lt)

text \<open>The bucket a data point is tallied in is the one whose bounds enclose it.\<close>

lemma tally_pos_bounds:
  shows "bucket_lo (hist_shift h) (tally_pos h d) \<le> unat d"
    and "unat d < bucket_lo (hist_shift h) (Suc (tally_pos h d))"
proof -
  let ?bs = "hist_shift h" and ?n = "unat d"
  define r where "r = range_of ?bs d"
  define i where "i = index_of ?bs d"
  have i: "i < 2 ^ ?bs" by (simp add: i_def index_of_lt)
  have "(if r = 0 then i else 2 ^ (r + ?bs - 1) + i * 2 ^ (r - 1)) \<le> ?n \<and>
    ?n < (if r = 0 then i + 1 else 2 ^ (r + ?bs - 1) + (i + 1) * 2 ^ (r - 1))"
  proof (cases "r = 0")
    case True
    then have le: "bit_length ?n \<le> ?bs" by (simp add: r_def range_of_def)
    have "?n < 2 ^ ?bs"
    proof (cases "?n = 0")
      case False
      then have "?n < 2 ^ bit_length ?n" using bit_length_bounds by simp
      also have "\<dots> \<le> 2 ^ ?bs" using le by (intro power_increasing) auto
      finally show ?thesis .
    qed simp
    then show ?thesis using True by (simp add: i_def index_of_def r_def [symmetric])
  next
    case False
    define q where "q = ?n div 2 ^ (r - 1)"
    from False have rb: "bit_length ?n = r + ?bs" by (simp add: r_def range_of_def)
    then have "?n > 0" using False by (cases "?n = 0") auto
    with rb have b: "2 ^ (r + ?bs - 1) \<le> ?n" "?n < 2 ^ (r + ?bs)"
      using bit_length_bounds [of ?n] by auto
    have e: "2 ^ (r + ?bs - 1) = 2 ^ ?bs * (2 :: nat) ^ (r - 1)"
      "2 ^ (r + ?bs) = 2 * 2 ^ ?bs * (2 :: nat) ^ (r - 1)"
      using False by (cases r; simp add: power_add)+
    have "2 ^ ?bs \<le> q" using b(1) e(1) by (simp add: q_def less_eq_div_iff_mult_less_eq)
    moreover have "q < 2 * 2 ^ ?bs" using b(2) e(2) by (simp add: q_def div_less_iff_less_mult)
    ultimately have "q mod 2 ^ ?bs = q - 2 ^ ?bs" by (simp add: mod_if)
    then have q: "q = 2 ^ ?bs + i"
      using \<open>2 ^ ?bs \<le> q\<close> by (simp add: i_def index_of_def r_def [symmetric] q_def)
    have "q * 2 ^ (r - 1) \<le> ?n" by (simp add: q_def)
    moreover have "?n < (q + 1) * 2 ^ (r - 1)"
      using dividend_less_div_times [of "2 ^ (r - 1)" ?n] by (simp add: q_def algebra_simps)
    ultimately show ?thesis using False q e(1) by (simp add: algebra_simps)
  qed
  then show "bucket_lo ?bs (tally_pos h d) \<le> ?n" and "?n < bucket_lo ?bs (Suc (tally_pos h d))"
    using i by (simp_all add: tally_pos_def i_def [symmetric] r_def [symmetric] bucket_lo_pos bucket_lo_Suc)
qed

section \<open>Histograms as multisets of data points\<close>

text \<open>
  The interface of a sink of data points: what a client that tallies and merges relies on.
\<close>

locale datapoint_sink =
  fixes rep :: "'s \<Rightarrow> u64 multiset \<Rightarrow> bool"
    and tally :: "'s \<Rightarrow> u64 \<Rightarrow> 's option"
  assumes rep_tally: "rep s M \<Longrightarrow> \<exists>s'. tally s d = Some s' \<and> rep s' (add_mset d M)"
begin

lemma tally_all: "rep s M \<Longrightarrow> \<exists>s'. foldM (\<lambda>d s. tally s d) ds s = Some s' \<and> rep s' (mset ds + M)"
proof (induction ds arbitrary: s M)
  case Nil
  then show ?case by simp
next
  case (Cons d ds)
  from rep_tally [OF Cons.prems] obtain t where t: "tally s d = Some t" "rep t (add_mset d M)" by blast
  from Cons.IH [OF t(2)] t(1) show ?case by auto
qed

end

definition hist_rep :: "spdk_histogram_data \<Rightarrow> u64 multiset \<Rightarrow> bool" where
  "hist_rep h M \<longleftrightarrow> hist_inv h \<and>
     (\<forall>k < length (bucket h). bucket h ! k = of_nat (size (filter_mset (\<lambda>d. tally_pos h d = k) M)))"

lemma hist_upd_frame [simp, frame]:
  "hist_shift (h\<lparr>bucket := b\<rparr>) = hist_shift h" "tally_pos (h\<lparr>bucket := b\<rparr>) = tally_pos h"
  by (simp_all add: hist_shift_def tally_pos_def fun_eq_iff)

lemma tally_eq:
  assumes "hist_inv h"
  shows "histogram_data_tally h d =
    Some (h\<lparr>bucket := (bucket h)[tally_pos h d := bucket h ! tally_pos h d + 1]\<rparr>)"
proof -
  have s: "hist_shift h \<le> 26" "hist_shift h < 64" using assms by (simp_all add: hist_inv_def)
  have p: "tally_pos h d < num_counters (hist_shift h)" by (rule tally_pos_lt [OF s(2)])
  then have "unat (of_nat (tally_pos h d) :: u32) = tally_pos h d"
    using num_counters_small [OF s(1)] by (intro of_nat_u32) linarith
  moreover have "bucket_pos h (of_nat (range_of (hist_shift h) d)) (of_nat (index_of (hist_shift h) d)) = Some (of_nat (tally_pos h d))"
    unfolding bucket_pos_eq [OF s(1)] tally_pos_def ..
  ultimately show ?thesis
    using assms p by (simp add: histogram_data_tally_def range_bit_length [OF s(2)] index_eq [OF s(1)]
      histogram_increment_def hist_inv_def Let_def)
qed

lemma hist_inv_upd: "hist_inv h \<Longrightarrow> length b = length (bucket h) \<Longrightarrow> hist_inv (h\<lparr>bucket := b\<rparr>)"
  by (simp add: hist_inv_def)

lemma hist_rep_tally:
  assumes "hist_rep h M"
  shows "\<exists>h'. histogram_data_tally h d = Some h' \<and> hist_rep h' (add_mset d M)"
  using assms tally_eq [of h d] tally_pos_lt [of h d]
  by (auto simp: hist_rep_def hist_inv_upd nth_list_update hist_inv_def)

interpretation hist: datapoint_sink hist_rep histogram_data_tally
  by unfold_locales (rule hist_rep_tally)

lemma sum_list_update_inc: "k < length xs \<Longrightarrow> sum_list (xs[k := xs ! k + (1 :: u64)]) = sum_list xs + 1"
  by (induction xs arbitrary: k) (auto split: nat.splits)

text \<open>A fresh histogram.\<close>

definition empty_hist :: "u32 \<Rightarrow> spdk_histogram_data" where
  "empty_hist s = \<lparr>bucket_shift = s, bucket = replicate (num_counters (unat s)) 0\<rparr>"

lemma hist_empty_rep: "s \<le> 26 \<Longrightarrow> hist_rep (empty_hist s) {#}"
  by (simp add: hist_rep_def hist_inv_def hist_shift_def empty_hist_def word_le_nat_alt)

lemma alloc_sized_eq:
  assumes "s \<le> 26"
  shows "histogram_data_alloc_sized ok ok' s = Some (if ok \<and> ok' then Some (empty_hist s) else None)"
proof -
  have "hist_shift \<lparr>bucket_shift = s, bucket = []\<rparr> = unat s" by (simp add: hist_shift_def)
  moreover have "unat s \<le> 26" using assms by (simp add: word_le_nat_alt)
  ultimately show ?thesis
    using num_buckets_eq [of "\<lparr>bucket_shift = s, bucket = []\<rparr>"]
    by (auto simp: histogram_data_alloc_sized_def Let_def empty_hist_def)
qed

lemma reset_eq:
  assumes "hist_inv h"
  shows "histogram_data_reset h = Some (empty_hist (bucket_shift h))"
proof -
  obtain n where n: "NUM_BUCKETS h = Some n" "unat n = num_counters (hist_shift h)"
    using assms num_buckets_eq [of h] by (auto simp: hist_inv_def)
  have "unat n < 2 ^ 32" using assms num_counters_small [of "hist_shift h"] n(2) by (simp add: hist_inv_def)
  then have "unat (n * 8) = unat n * 8" by (simp add: unat_word_ariths)
  then have "unat (n * 8) div 8 = length (bucket h)" using n(2) assms by (simp add: hist_inv_def)
  then show ?thesis using n(1) assms
    by (simp add: histogram_data_reset_def Let_def empty_hist_def hist_inv_def hist_shift_def)
qed

text \<open>Merging adds the counters of every bucket.\<close>

lemma hist_merge_rep:
  assumes d: "hist_rep dst M" and s: "hist_rep src N" and sh: "bucket_shift dst = bucket_shift src"
  shows "\<exists>h'. histogram_data_merge dst src = Some (0, h') \<and> hist_rep h' (M + N)"
proof -
  have n: "hist_shift src = hist_shift dst" "tally_pos src = tally_pos dst"
    using sh by (simp_all add: hist_shift_def tally_pos_def fun_eq_iff)
  have l: "length (bucket dst) = num_counters (hist_shift dst)" "length (bucket src) = num_counters (hist_shift dst)"
    using d s n by (auto simp: hist_rep_def hist_inv_def)
  obtain m where m: "NUM_BUCKETS dst = Some m" "unat m = num_counters (hist_shift dst)"
    using d num_buckets_eq [of dst] by (auto simp: hist_rep_def hist_inv_def)
  let ?b = "map2 (+) (bucket dst) (bucket src)"
  have "histogram_data_merge dst src = Some (0, dst\<lparr>bucket := ?b\<rparr>)"
    using sh l m by (simp add: histogram_data_merge_def Let_def)
  moreover have "hist_rep (dst\<lparr>bucket := ?b\<rparr>) (M + N)"
    using d s l n by (auto simp: hist_rep_def hist_inv_upd)
  ultimately show ?thesis by blast
qed

text \<open>
  With a shift of 27 the first counter of range 32 is at \<open>2 ^ 32\<close>, which wraps around to the
  first counter of range 0; with a shift of 32 the subscript is undefined.
\<close>

lemma bucket_pos_wraps:
  "bucket_pos \<lparr>bucket_shift = 27, bucket = b\<rparr> 32 0 = bucket_pos \<lparr>bucket_shift = 27, bucket = b\<rparr> 0 0"
  "bucket_pos \<lparr>bucket_shift = 32, bucket = b\<rparr> r i = None"
  by (simp_all add: bucket_pos_def shl_def)

section \<open>Reading a histogram\<close>

lemma concat_map_nth:
  assumes "k < m * n"
  shows "concat (map (\<lambda>i. map (f i) [0..<n]) [a..<a + m]) ! k = f (a + k div n) (k mod n)"
  using assms
proof (induction m arbitrary: a k)
  case 0
  then show ?case by simp
next
  case (Suc m)
  then have n: "0 < n" by (cases n) auto
  have split: "[a..<Suc (a + m)] = a # [Suc a..<Suc (a + m)]" by (simp add: upt_conv_Cons del: upt_Suc)
  show ?case
  proof (cases "k < n")
    case True
    then show ?thesis by (simp add: split nth_append del: upt_Suc)
  next
    case False
    then have "k - n < m * n" using Suc.prems by auto
    from Suc.IH [OF this, of "Suc a"] False n show ?thesis
      by (simp add: split nth_append le_div_geq le_mod_geq del: upt_Suc)
  qed
qed

lemma bucket_indices_eq:
  assumes "hist_inv h"
  obtains ijs where "bucket_indices h = Some ijs" and "length ijs = length (bucket h)"
    and "\<And>k. k < length ijs \<Longrightarrow> ijs ! k = (of_nat (k div 2 ^ hist_shift h), of_nat (k mod 2 ^ hist_shift h))"
proof -
  let ?s = "hist_shift h" and ?f = "\<lambda>i j. (of_nat i :: u32, of_nat j :: u32)"
  let ?l = "concat (map (\<lambda>i. map (?f i) [0..<2 ^ ?s]) [0..<65 - ?s])"
  have s: "?s \<le> 26" using assms by (simp add: hist_inv_def)
  have "(2 :: nat) ^ ?s \<le> 2 ^ 26" using s by (intro power_increasing) auto
  then have n: "unat (of_nat (2 ^ ?s) :: u64) = 2 ^ ?s" by (simp add: unat_of_nat del: of_nat_power)
  have r: "unat (of_nat (65 - ?s) :: u32) = 65 - ?s" by (rule of_nat_u32) simp
  have nz: "(of_nat (65 - ?s) :: u32) \<noteq> 0"
  proof
    assume "(of_nat (65 - ?s) :: u32) = 0"
    then have "65 - ?s = 0" using r by (simp only: unsigned_0)
    then show False using s by simp
  qed
  have "bucket_indices h = Some ?l"
    using s n r nz by (simp add: bucket_indices_def per_range_eq bucket_ranges_eq del: of_nat_power)
  moreover have "length ?l = length (bucket h)"
    using assms by (simp add: length_concat comp_def sum_list_triv hist_inv_def num_counters_def)
  moreover have "?l ! k = ?f (k div 2 ^ ?s) (k mod 2 ^ ?s)" if "k < length ?l" for k
    using concat_map_nth [of k "65 - ?s" "2 ^ ?s" ?f 0] that by (simp add: length_concat comp_def sum_list_triv)
  ultimately show ?thesis using that by blast
qed

text \<open>
  Reading from position \<open>k\<close> on: the calls report the counters of the array from there on, with
  adjacent bounds and the running sum.
\<close>

lemma read_at:
  assumes "hist_inv h" and "k < length (bucket h)"
  shows "histogram_get_count h (of_nat (k div 2 ^ hist_shift h)) (of_nat (k mod 2 ^ hist_shift h)) = Some (bucket h ! k)"
    and "get_bucket_start h (of_nat (k div 2 ^ hist_shift h)) (of_nat (k mod 2 ^ hist_shift h)) =
      Some (of_nat (bucket_lo (hist_shift h) (Suc k)))"
proof -
  let ?s = "hist_shift h"
  have s: "?s \<le> 26" and k: "k < (65 - ?s) * 2 ^ ?s" using assms by (simp_all add: hist_inv_def num_counters_def)
  have "k < 2 ^ 32" using num_counters_small [OF s] k by (simp add: num_counters_def)
  then have u: "unat (of_nat k :: u32) = k" by (rule of_nat_u32)
  show "histogram_get_count h (of_nat (k div 2 ^ ?s)) (of_nat (k mod 2 ^ ?s)) = Some (bucket h ! k)"
    using assms(2) u by (simp only: histogram_get_count_def bucket_pos_eq [OF s] div_mult_mod_eq bind.bind_lunit if_True)
  have "k div 2 ^ ?s < 65 - ?s" using k by (simp add: div_less_iff_less_mult)
  then have "k div 2 ^ ?s \<le> 64 - ?s" by simp
  from get_bucket_start_eq [OF s this, of "k mod 2 ^ ?s"]
  show "get_bucket_start h (of_nat (k div 2 ^ ?s)) (of_nat (k mod 2 ^ ?s)) = Some (of_nat (bucket_lo ?s (Suc k)))"
    by (simp only: div_mult_mod_eq) simp
qed

lemma sum_buckets_drop:
  assumes h: "hist_inv h" and ijs: "length ijs = length (bucket h)"
      "\<And>k. k < length ijs \<Longrightarrow> ijs ! k = (of_nat (k div 2 ^ hist_shift h), of_nat (k mod 2 ^ hist_shift h))"
    and "k \<le> length (bucket h)"
  shows "sum_buckets h (drop k ijs) t = Some (t + sum_list (drop k (bucket h)))"
  using assms(4)
proof (induction "length (bucket h) - k" arbitrary: k t)
  case 0
  then show ?case using ijs(1) by simp
next
  case (Suc n)
  then have k: "k < length (bucket h)" "n = length (bucket h) - Suc k" by auto
  have "drop k (bucket h) = bucket h ! k # drop (Suc k) (bucket h)" "drop k ijs = ijs ! k # drop (Suc k) ijs"
    using k(1) ijs(1) by (simp_all add: Cons_nth_drop_Suc)
  then show ?case using Suc.hyps(1) [OF k(2)] k(1) ijs by (simp add: read_at [OF h] add.assoc)
qed

lemma iterate_drop:
  assumes h: "hist_inv h" and ijs: "length ijs = length (bucket h)"
      "\<And>k. k < length ijs \<Longrightarrow> ijs ! k = (of_nat (k div 2 ^ hist_shift h), of_nat (k mod 2 ^ hist_shift h))"
    and "k \<le> length (bucket h)"
  shows "iterate_buckets h (drop k ijs) t (sum_list (take k (bucket h))) (of_nat (bucket_lo (hist_shift h) k)) =
    Some (map (\<lambda>j. (of_nat (bucket_lo (hist_shift h) j), of_nat (bucket_lo (hist_shift h) (Suc j)),
      bucket h ! j, t, sum_list (take (Suc j) (bucket h)))) [k..<length (bucket h)])"
  using assms(4)
proof (induction "length (bucket h) - k" arbitrary: k)
  case 0
  then show ?case using ijs(1) by simp
next
  case (Suc n)
  then have k: "k < length (bucket h)" "n = length (bucket h) - Suc k" by auto
  have t: "sum_list (take (Suc k) (bucket h)) = sum_list (take k (bucket h)) + bucket h ! k"
    using k(1) by (simp add: take_Suc_conv_app_nth)
  have "drop k ijs = ijs ! k # drop (Suc k) ijs" using k(1) ijs(1) by (simp add: Cons_nth_drop_Suc)
  then show ?case
    using Suc.hyps(1) [OF k(2)] k(1) ijs
    by (simp add: read_at [OF h] t upt_conv_Cons [of k] del: upt_Suc)
qed

lemma iterate_eq:
  assumes "hist_inv h"
  shows "histogram_data_iterate h =
    Some (map (\<lambda>j. (of_nat (bucket_lo (hist_shift h) j), of_nat (bucket_lo (hist_shift h) (Suc j)),
      bucket h ! j, hist_total h, sum_list (take (Suc j) (bucket h)))) [0..<length (bucket h)])"
proof -
  obtain ijs where ijs: "bucket_indices h = Some ijs" "length ijs = length (bucket h)"
    "\<And>k. k < length ijs \<Longrightarrow> ijs ! k = (of_nat (k div 2 ^ hist_shift h), of_nat (k mod 2 ^ hist_shift h))"
    using bucket_indices_eq [OF assms] by blast
  show ?thesis
    using ijs(1) sum_buckets_drop [OF assms ijs(2,3), of 0 0] iterate_drop [OF assms ijs(2,3), of 0]
    by (simp add: histogram_data_iterate_def hist_total_def)
qed

lemma bucket_lo_Suc_le:
  assumes "s < 64" and "k < num_counters s"
  shows "bucket_lo s (Suc k) \<le> 2 ^ 64"
proof -
  define r i where "r = k div 2 ^ s" and "i = k mod 2 ^ s"
  have k: "k = r * 2 ^ s + i" "i < 2 ^ s" by (simp_all add: r_def i_def div_mult_mod_eq)
  have "r < 65 - s" using assms(2) by (simp add: r_def num_counters_def div_less_iff_less_mult)
  then have r: "r + s \<le> 64" using assms(1) by simp
  have "bucket_lo s (Suc k) \<le> 2 ^ (r + s)"
  proof (cases "r = 0")
    case True
    then show ?thesis using k bucket_lo_Suc [OF k(2), of r] by simp
  next
    case False
    have "(i + 1) * 2 ^ (r - 1) \<le> 2 ^ s * 2 ^ (r - 1)" using k(2) by (intro mult_le_mono1) simp
    moreover have "2 ^ (r + s) = 2 ^ (r + s - 1) + 2 ^ s * (2 :: nat) ^ (r - 1)"
      using False by (cases r) (auto simp: power_add)
    ultimately show ?thesis using False k by (simp add: bucket_lo_Suc)
  qed
  also have "\<dots> \<le> 2 ^ 64" using r by (intro power_increasing) auto
  finally show ?thesis .
qed

section \<open>Properties\<close>

text \<open>
  C0. Tallying a data point into a well-formed histogram, one whose shift is at most 26 (the
  performance tools use 7) and whose array has all the counters of that shift, stays inside the
  array and succeeds, and reading the histogram afterwards reports exactly one bucket that
  changed: its count grew by one, its start is at most the data point, and the data point is
  below its end (the end of the very last bucket, \<open>2 ^ 64\<close>, is reported as 0).
\<close>

theorem histogram_tally_right_bucket:
  assumes "hist_inv h" and "histogram_data_iterate h = Some before"
  shows "\<exists>h' after k. histogram_data_tally h d = Some h' \<and> hist_inv h' \<and>
    histogram_data_iterate h' = Some after \<and> length after = length before \<and> k < length after \<and>
    (case (before ! k, after ! k) of ((s, e, c, _, _), (s', e', c', t', _)) \<Rightarrow>
       s' = s \<and> e' = e \<and> c' = c + 1 \<and> s \<le> d \<and> (d < e \<or> e = 0) \<and> t' = hist_total h + 1) \<and>
    (\<forall>j < length after. j \<noteq> k \<longrightarrow> fst (snd (snd (after ! j))) = fst (snd (snd (before ! j))))"
proof -
  let ?bs = "hist_shift h" and ?k = "tally_pos h d"
  let ?h' = "h\<lparr>bucket := (bucket h)[?k := bucket h ! ?k + 1]\<rparr>"
  have bs: "?bs < 64" using assms(1) by (simp add: hist_inv_def)
  have inv': "hist_inv ?h'" using assms(1) by (simp add: hist_inv_upd)
  have k: "?k < num_counters ?bs" "?k < length (bucket h)"
    using tally_pos_lt [OF bs] assms(1) by (auto simp: hist_inv_def)
  have tot: "hist_total ?h' = hist_total h + 1"
    using k(2) by (simp add: hist_total_def sum_list_update_inc)
  have lo: "of_nat (bucket_lo ?bs ?k) \<le> d"
    using tally_pos_bounds(1) [of h d] unsigned_less [where ?'a = nat, of d]
    by (simp add: word_le_nat_alt unat_of_nat)
  have hi: "d < of_nat (bucket_lo ?bs (Suc ?k)) \<or> of_nat (bucket_lo ?bs (Suc ?k)) = (0 :: u64)"
  proof (cases "bucket_lo ?bs (Suc ?k) = 2 ^ 64")
    case True
    then show ?thesis by simp
  next
    case False
    then have "bucket_lo ?bs (Suc ?k) < 2 ^ 64" using bucket_lo_Suc_le [OF bs k(1)] by simp
    then show ?thesis using tally_pos_bounds(2) [of d h] by (simp add: word_less_nat_alt unat_of_nat)
  qed
  show ?thesis
    using assms(2) lo hi tot k
    by (intro exI [of _ ?h'] exI [of _ "the (histogram_data_iterate ?h')"] exI [of _ ?k])
      (auto simp: tally_eq [OF assms(1)] inv' iterate_eq [OF assms(1)] iterate_eq [OF inv'] nth_append)
qed

lemma hist_inv_empty: "s \<le> 26 \<Longrightarrow> hist_inv (empty_hist s)"
  using hist_empty_rep by (simp add: hist_rep_def)

theorem histogram_tally_right_bucket_witness:
  "histogram_data_alloc True True = Some (Some (empty_hist 7)) \<and> hist_inv (empty_hist 7) \<and>
   (\<exists>before h' after k. histogram_data_iterate (empty_hist 7) = Some before \<and>
     histogram_data_tally (empty_hist 7) 300 = Some h' \<and>
     histogram_data_iterate h' = Some after \<and> k < length after \<and>
     fst (snd (snd (after ! k))) = fst (snd (snd (before ! k))) + 1)"
proof -
  have inv: "hist_inv (empty_hist 7)" by (simp add: hist_inv_empty)
  obtain before where b: "histogram_data_iterate (empty_hist 7) = Some before"
    using iterate_eq [OF inv] by blast
  from histogram_tally_right_bucket [OF inv b, of 300] show ?thesis
    using inv b by (fastforce simp: histogram_data_alloc_def alloc_sized_eq split: prod.splits)
qed

lemma tally_shift: "histogram_data_tally h d = Some h' \<Longrightarrow> bucket_shift h' = bucket_shift h"
  by (auto simp: histogram_data_tally_def histogram_increment_def Let_def split: if_splits)

lemma tally_all_shift:
  "foldM (\<lambda>d h. histogram_data_tally h d) ds (empty_hist s) = Some g \<Longrightarrow> bucket_shift g = s"
  by (rule foldM_invariant [where P = "\<lambda>h. bucket_shift h = s"]) (auto dest: tally_shift simp: empty_hist_def)

text \<open>
  C0. For every shift up to 26, allocating a histogram gives \<open>NULL\<close> when one of the two
  allocations fails and a histogram with all counters 0 otherwise. Two such histograms filled by
  any sequences of data points and merged count, in every bucket, the points of both sequences
  that fall in it; clearing the result gives the fresh histogram back; merging histograms of
  different shifts is refused and leaves the destination alone.
\<close>

theorem histogram_merge_counts:
  assumes "s \<le> 26"
  shows "\<exists>h0 g h m. (\<forall>ok ok'. histogram_data_alloc_sized ok ok' s = Some (if ok \<and> ok' then Some h0 else None)) \<and>
    foldM (\<lambda>d h. histogram_data_tally h d) ds h0 = Some g \<and>
    foldM (\<lambda>d h. histogram_data_tally h d) es h0 = Some h \<and>
    histogram_data_merge g h = Some (0, m) \<and> hist_rep m (mset ds + mset es) \<and> histogram_data_reset m = Some h0 \<and>
    (\<forall>x. bucket_shift x \<noteq> s \<longrightarrow> histogram_data_merge g x = Some (- EINVAL, g))"
proof -
  let ?run = "\<lambda>ds. foldM (\<lambda>d h. histogram_data_tally h d) ds (empty_hist s)"
  from hist.tally_all [OF hist_empty_rep [OF assms], of ds] obtain g where
    g: "?run ds = Some g" "hist_rep g (mset ds)" by auto
  from hist.tally_all [OF hist_empty_rep [OF assms], of es] obtain h where
    h: "?run es = Some h" "hist_rep h (mset es)" by auto
  have sh: "bucket_shift g = s" "bucket_shift h = s" using g(1) h(1) by (auto dest: tally_all_shift)
  then obtain m where m: "histogram_data_merge g h = Some (0, m)" "hist_rep m (mset ds + mset es)"
    using hist_merge_rep [OF g(2) h(2)] by auto
  have "bucket_shift m = s"
    using m(1) sh by (auto simp: histogram_data_merge_def Let_def split: if_splits)
  then have "histogram_data_reset m = Some (empty_hist s)" using m(2) reset_eq [of m] by (simp add: hist_rep_def)
  moreover have "histogram_data_merge g x = Some (- EINVAL, g)" if "bucket_shift x \<noteq> s" for x
    using that sh by (simp add: histogram_data_merge_def)
  ultimately show ?thesis using alloc_sized_eq [OF assms] g(1) h(1) m by blast
qed

theorem histogram_merge_counts_witness:
  "\<exists>h0 g h m. histogram_data_alloc_sized True True 7 = Some (Some h0) \<and>
    foldM (\<lambda>d h. histogram_data_tally h d) [5, 300] h0 = Some g \<and>
    foldM (\<lambda>d h. histogram_data_tally h d) [300] h0 = Some h \<and>
    histogram_data_merge g h = Some (0, m) \<and> hist_rep m (mset [5, 300] + mset [300]) \<and> histogram_data_reset m = Some h0"
  using histogram_merge_counts [of 7 "[5, 300]" "[300]"] by (auto simp del: foldM.simps)

end
