(* ===== verification/Perf_Rep.thy ===== *)
theory Perf_Rep
  imports Tailq Histogram
begin

text \<open>
  The replicated load generator \<open>app/spdk_nvme_perf_rep/perf_rep.c\<close>: every I/O is a group of
  tasks, one per replica namespace, that share the data buffer; the group is submitted together
  and resubmitted when the last replica has completed. The model keeps what the C code keeps: a
  heap of task structures with their allocation state, the arrays of I/O vectors, the queue
  links of \<open>Tailq\<close> (the rep_tasks head inside each main task, the queued_tasks head of each
  namespace context), the namespace table and the per-namespace worker contexts. The
  configuration is the build without the optional latency log.

  The outside world is the record \<open>env\<close>: the result of the n-th call into the NVMe driver, the
  n-th value of the tick counter, the pseudo-random generator of the C library, the zipf
  generator, and the value an uninitialised local variable happens to have. The driver's list of
  accepted, not yet completed commands is the field \<open>inflight\<close>.

  A result \<open>None\<close> means the run ends there: a use of freed or NULL memory, a failed assertion,
  or \<open>exit(1)\<close>. Allocation always succeeds (the code exits otherwise).
\<close>

section \<open>Data\<close>

type_synonym addr = nat

datatype head = RepTasks addr | QueuedTasks nat | SwapList

record iovec =
  iov_base :: addr
  iov_len :: nat

record ns_entry =
  io_size_blocks :: u32
  num_io_requests :: u32
  size_in_ios :: u64
  block_size :: u32
  md_size :: u32
  md_interleave :: bool
  io_flags_pract :: bool
  seed :: u32
  zipf :: bool

record ns_worker_stats =
  io_submitted :: u64
  io_completed :: u64
  total_tsc :: u64
  min_tsc :: u64
  max_tsc :: u64

record ns_worker_ctx =
  entry :: nat
  stats :: ns_worker_stats
  current_queue_depth :: u64
  offset_in_ios :: u64
  is_draining :: bool
  num_active_qpairs :: nat
  last_qpair :: nat
  histogram :: spdk_histogram_data
  status :: int

record perf_task =
  t_io_id :: u32
  t_ns_id :: u32
  t_ns_ctx :: nat
  t_iovs :: addr
  t_iovcnt :: nat
  t_iovpos :: nat
  t_iov_offset :: nat
  t_md_iov :: iovec
  t_submit_tsc :: u64
  t_offset_in_ios :: u64
  t_is_read :: bool
  t_main_task :: addr
  t_rep_completed_num :: u32

record command =
  c_task :: addr
  c_ns :: nat
  c_qpair :: nat
  c_buf :: addr
  c_lba :: u64
  c_lba_count :: u32
  c_read :: bool
  c_vectored :: bool

record globals =
  g_rep_num :: u32
  g_queue_depth :: u32
  g_send_main_rep_finally :: bool
  g_continue_on_error :: bool
  g_is_random :: bool
  g_rw_percentage :: int
  g_number_ios :: u64
  g_io_size_bytes :: u32
  g_io_unit_size :: u32
  g_max_io_md_size :: u32
  g_max_io_size_blocks :: u32
  g_latency_sw_tracking_level :: int

record env =
  driver_rc :: "nat \<Rightarrow> int"
  ticks :: "nat \<Rightarrow> u64"
  rand_r :: "u32 \<Rightarrow> nat \<times> u32"
  zipf_generate :: "nat \<Rightarrow> u64"
  dif_ctx_init_rc :: "nat \<Rightarrow> int"
  dif_generate_rc :: "nat \<Rightarrow> int"
  uninit_u64 :: "nat \<Rightarrow> u64"

record perf =
  live :: "addr \<Rightarrow> bool"
  brk :: addr
  task_mem :: "addr \<Rightarrow> perf_task"
  iov_mem :: "addr \<Rightarrow> iovec list"
  dma_pattern :: "addr \<Rightarrow> u8"
  links :: "head tailq"
  namespaces :: "ns_entry list"
  ns_ctxs :: "ns_worker_ctx list"
  n_driver :: nat
  n_tick :: nat
  n_zipf :: nat
  inflight :: "addr list"
  issued :: "command list"

section \<open>Memory access\<close>

definition alloc :: "nat \<Rightarrow> perf \<Rightarrow> addr \<times> perf" where
  "alloc n s = (brk s, s\<lparr>live := (live s)(brk s := True), brk := brk s + max 1 n\<rparr>)"

definition free :: "addr \<Rightarrow> perf \<Rightarrow> perf option" where
  "free p s =
     (if p = 0 then Some s else if live s p then Some (s\<lparr>live := (live s)(p := False)\<rparr>) else None)"

definition read_task :: "addr \<Rightarrow> perf \<Rightarrow> perf_task option" where
  "read_task p s = (if p \<noteq> 0 \<and> live s p then Some (task_mem s p) else None)"

definition write_task :: "addr \<Rightarrow> (perf_task \<Rightarrow> perf_task) \<Rightarrow> perf \<Rightarrow> perf option" where
  "write_task p f s =
     (if p \<noteq> 0 \<and> live s p then Some (s\<lparr>task_mem := (task_mem s)(p := f (task_mem s p))\<rparr>) else None)"

definition read_ctx :: "nat \<Rightarrow> perf \<Rightarrow> ns_worker_ctx option" where
  "read_ctx i s = (if i < length (ns_ctxs s) then Some (ns_ctxs s ! i) else None)"

definition write_ctx :: "nat \<Rightarrow> (ns_worker_ctx \<Rightarrow> ns_worker_ctx) \<Rightarrow> perf \<Rightarrow> perf option" where
  "write_ctx i f s =
     (if i < length (ns_ctxs s) then Some (s\<lparr>ns_ctxs := (ns_ctxs s)[i := f (ns_ctxs s ! i)]\<rparr>) else None)"

definition read_entry :: "nat \<Rightarrow> perf \<Rightarrow> ns_entry option" where
  "read_entry e s = (if e < length (namespaces s) then Some (namespaces s ! e) else None)"

definition write_entry :: "nat \<Rightarrow> (ns_entry \<Rightarrow> ns_entry) \<Rightarrow> perf \<Rightarrow> perf option" where
  "write_entry e f s =
     (if e < length (namespaces s)
      then Some (s\<lparr>namespaces := (namespaces s)[e := f (namespaces s ! e)]\<rparr>) else None)"

definition read_iov0 :: "perf_task \<Rightarrow> perf \<Rightarrow> iovec option" where
  "read_iov0 t s =
     (if live s (t_iovs t) \<and> iov_mem s (t_iovs t) \<noteq> [] then Some (hd (iov_mem s (t_iovs t))) else None)"

definition get_ticks :: "env \<Rightarrow> perf \<Rightarrow> u64 \<times> perf" where
  "get_ticks e s = (ticks e (n_tick s), s\<lparr>n_tick := n_tick s + 1\<rparr>)"

fun head_ok :: "perf \<Rightarrow> head \<Rightarrow> bool" where
  "head_ok s (RepTasks m) = live s m"
| "head_ok s (QueuedTasks i) = (i < length (ns_ctxs s))"
| "head_ok s SwapList = True"

fun slot_ok :: "perf \<Rightarrow> head slot \<Rightarrow> bool" where
  "slot_ok s (First h) = head_ok s h"
| "slot_ok s (NextOf a) = live s a"

text \<open>The queue macros, checked: every structure they read or write is allocated.\<close>

definition tailq_init :: "head \<Rightarrow> perf \<Rightarrow> perf option" where
  "tailq_init h s = (if head_ok s h then Some (s\<lparr>links := TAILQ_INIT h (links s)\<rparr>) else None)"

definition tailq_insert_tail :: "head \<Rightarrow> addr \<Rightarrow> perf \<Rightarrow> perf option" where
  "tailq_insert_tail h a s =
     (if head_ok s h \<and> live s a \<and> slot_ok s (tqh_last (links s) h)
      then Some (s\<lparr>links := TAILQ_INSERT_TAIL h a (links s)\<rparr>) else None)"

definition tailq_remove :: "head \<Rightarrow> addr \<Rightarrow> perf \<Rightarrow> perf option" where
  "tailq_remove h a s =
     (if head_ok s h \<and> live s a \<and> slot_ok s (tqe_prev (links s) a) \<and>
         (case tqe_next (links s) a of None \<Rightarrow> True | Some b \<Rightarrow> live s b)
      then Some (s\<lparr>links := TAILQ_REMOVE h a (links s)\<rparr>) else None)"

definition tailq_first :: "head \<Rightarrow> perf \<Rightarrow> addr option option" where
  "tailq_first h s = (if head_ok s h then Some (TAILQ_FIRST (links s) h) else None)"

definition tailq_next :: "addr \<Rightarrow> perf \<Rightarrow> addr option option" where
  "tailq_next a s = (if live s a then Some (TAILQ_NEXT (links s) a) else None)"

section \<open>Submitting a command\<close>

datatype dif_mode = DIF_MODE_NONE | DIF_MODE_DIF | DIF_MODE_DIX

definition driver_submit :: "env \<Rightarrow> command \<Rightarrow> perf \<Rightarrow> int \<times> perf" where
  "driver_submit e c s =
     (let rc = driver_rc e (n_driver s); s = s\<lparr>n_driver := n_driver s + 1\<rparr>
      in if rc = 0 then (0, s\<lparr>inflight := inflight s @ [c_task c], issued := issued s @ [c]\<rparr>)
         else (rc, s))"

definition nvme_submit_io :: "env \<Rightarrow> addr \<Rightarrow> nat \<Rightarrow> u64 \<Rightarrow> perf \<Rightarrow> (int \<times> perf) option" where
  "nvme_submit_io e task ns_ctx offset s = do {
     t \<leftarrow> read_task task s;
     ctx \<leftarrow> read_ctx ns_ctx s;
     ent \<leftarrow> read_entry (entry ctx) s;
     let lba = offset * ucast (io_size_blocks ent);
     let mode = (if md_size ent \<noteq> 0 \<and> \<not> io_flags_pract ent
                 then (if md_interleave ent then DIF_MODE_DIF else DIF_MODE_DIX) else DIF_MODE_NONE);
     let qp_num = last_qpair ctx;
     s \<leftarrow> write_ctx ns_ctx (\<lambda>c. c\<lparr>last_qpair :=
            (if last_qpair c + 1 = num_active_qpairs c then 0 else last_qpair c + 1)\<rparr>) s;
     if mode \<noteq> DIF_MODE_NONE \<and> dif_ctx_init_rc e (n_driver s) \<noteq> 0 then None
     else do {
       buf \<leftarrow> (if t_iovcnt t = 1 then map_option iov_base (read_iov0 t s) else Some 0);
       let c = \<lparr>c_task = task, c_ns = ns_ctx, c_qpair = qp_num, c_buf = buf, c_lba = lba,
                c_lba_count = io_size_blocks ent, c_read = t_is_read t, c_vectored = (t_iovcnt t \<noteq> 1)\<rparr>;
       let gen = dif_generate_rc e (n_driver s);
       if \<not> t_is_read t \<and> mode \<noteq> DIF_MODE_NONE \<and> gen \<noteq> 0 then Some (gen, s)
       else Some (driver_submit e c s)
     }
   }"

text \<open>
  What a failed submission does with the task: queue it for a later attempt, or give up on it
  and free it.
\<close>

definition submit_failed :: "globals \<Rightarrow> addr \<Rightarrow> nat \<Rightarrow> perf \<Rightarrow> perf option" where
  "submit_failed g task ns_ctx s =
     (if g_continue_on_error g then tailq_insert_tail (QueuedTasks ns_ctx) task s
      else do {
        t \<leftarrow> read_task task s;
        iov \<leftarrow> read_iov0 t s;
        s \<leftarrow> free (iov_base iov) s;
        s \<leftarrow> free (t_iovs t) s;
        s \<leftarrow> free (iov_base (t_md_iov t)) s;
        s \<leftarrow> write_ctx (t_ns_ctx t) (\<lambda>c. c\<lparr>status := 1\<rparr>) s;
        free task s
      })"

definition submit_accepted :: "nat \<Rightarrow> perf \<Rightarrow> perf option" where
  "submit_accepted ns_ctx s =
     write_ctx ns_ctx (\<lambda>c. c\<lparr>current_queue_depth := current_queue_depth c + 1,
        stats := (stats c)\<lparr>io_submitted := io_submitted (stats c) + 1\<rparr>\<rparr>) s"

definition drain_if_done :: "globals \<Rightarrow> nat \<Rightarrow> perf \<Rightarrow> perf option" where
  "drain_if_done g ns_ctx s = do {
     ctx \<leftarrow> read_ctx ns_ctx s;
     if g_number_ios g \<noteq> 0 \<and> io_submitted (stats ctx) \<ge> g_number_ios g
     then write_ctx ns_ctx (\<lambda>c. c\<lparr>is_draining := True\<rparr>) s else Some s
   }"

definition submit_and_account :: "env \<Rightarrow> globals \<Rightarrow> addr \<Rightarrow> nat \<Rightarrow> u64 \<Rightarrow> perf \<Rightarrow> perf option" where
  "submit_and_account e g task ns_ctx offset s = do {
     (rc, s) \<leftarrow> nvme_submit_io e task ns_ctx offset s;
     s \<leftarrow> (if rc \<noteq> 0 then submit_failed g task ns_ctx s else submit_accepted ns_ctx s);
     drain_if_done g ns_ctx s
   }"

text \<open>
  Resubmission of a single queued task. The local variable \<open>offset_in_ios\<close> of the C function is
  passed on without ever being assigned.
\<close>

definition submit_single_io :: "env \<Rightarrow> globals \<Rightarrow> addr \<Rightarrow> perf \<Rightarrow> perf option" where
  "submit_single_io e g task s = do {
     t \<leftarrow> read_task task s;
     ctx \<leftarrow> read_ctx (t_ns_ctx t) s;
     if is_draining ctx then None
     else do {
       let (now, s) = get_ticks e s;
       s \<leftarrow> write_task task (\<lambda>t. t\<lparr>t_submit_tsc := now\<rparr>) s;
       submit_and_account e g task (t_ns_ctx t) (uninit_u64 e (n_driver s)) s
     }
   }"

section \<open>Replica groups\<close>

definition get_min_size_in_ios :: "perf \<Rightarrow> u64 option" where
  "get_min_size_in_ios s =
     (case namespaces s of [] \<Rightarrow> None
      | e # es \<Rightarrow> Some (fold (\<lambda>x m. min m (size_in_ios x)) (e # es) (size_in_ios e)))"

definition pick_offset :: "env \<Rightarrow> globals \<Rightarrow> nat \<Rightarrow> u64 \<Rightarrow> perf \<Rightarrow> (u64 \<times> perf) option" where
  "pick_offset e g main_ns_ctx min_size s = do {
     ctx \<leftarrow> read_ctx main_ns_ctx s;
     ent \<leftarrow> read_entry (entry ctx) s;
     if zipf ent then Some (zipf_generate e (n_zipf s), s\<lparr>n_zipf := n_zipf s + 1\<rparr>)
     else if g_is_random g then
       (if size_in_ios ent = 0 then None
        else do {
          let (r, sd) = rand_r e (seed ent);
          s \<leftarrow> write_entry (entry ctx) (\<lambda>x. x\<lparr>seed := sd\<rparr>) s;
          Some (of_nat r mod size_in_ios ent, s)
        })
     else do {
       let off = offset_in_ios ctx;
       s \<leftarrow> write_ctx main_ns_ctx (\<lambda>c. c\<lparr>offset_in_ios :=
              (if off + 1 = min_size then 0 else off + 1)\<rparr>) s;
       Some (off, s)
     }
   }"

definition pick_is_read :: "env \<Rightarrow> globals \<Rightarrow> nat \<Rightarrow> perf \<Rightarrow> (bool \<times> perf) option" where
  "pick_is_read e g main_ns_ctx s = do {
     ctx \<leftarrow> read_ctx main_ns_ctx s;
     ent \<leftarrow> read_entry (entry ctx) s;
     if g_rw_percentage g = 100 then Some (True, s)
     else if g_rw_percentage g \<noteq> 0 then do {
       let (r, sd) = rand_r e (seed ent);
       s \<leftarrow> write_entry (entry ctx) (\<lambda>x. x\<lparr>seed := sd\<rparr>) s;
       Some (int (r mod 100) < g_rw_percentage g, s)
     }
     else Some (False, s)
   }"

text \<open>One turn of the loop over the replicas in \<open>submit_single_io_rep\<close>.\<close>

definition submit_replica :: "env \<Rightarrow> globals \<Rightarrow> u64 \<Rightarrow> bool \<Rightarrow> addr \<Rightarrow> perf \<Rightarrow> perf option" where
  "submit_replica e g offset rd task s = do {
     let (now, s) = get_ticks e s;
     s \<leftarrow> write_task task (\<lambda>t. t\<lparr>t_submit_tsc := now, t_offset_in_ios := offset, t_is_read := rd\<rparr>) s;
     t \<leftarrow> read_task task s;
     submit_and_account e g task (t_ns_ctx t) offset s
   }"

text \<open>
  \<open>TAILQ_FOREACH\<close> with a body that may change the links: the successor is read from the element
  after the body has run on it.
\<close>

partial_function (option) tailq_foreach :: "(addr \<Rightarrow> perf \<Rightarrow> perf option) \<Rightarrow> addr option \<Rightarrow> perf \<Rightarrow> perf option" where
  "tailq_foreach body p s =
     (case p of None \<Rightarrow> Some s
      | Some a \<Rightarrow> Option.bind (body a s) (\<lambda>s'. Option.bind (tailq_next a s') (\<lambda>p'. tailq_foreach body p' s')))"

definition submit_single_io_rep :: "env \<Rightarrow> globals \<Rightarrow> addr \<Rightarrow> perf \<Rightarrow> perf option" where
  "submit_single_io_rep e g main s = do {
     m \<leftarrow> read_task main s;
     ctx \<leftarrow> read_ctx (t_ns_ctx m) s;
     min_size \<leftarrow> get_min_size_in_ios s;
     if is_draining ctx then None
     else do {
       (offset, s) \<leftarrow> pick_offset e g (t_ns_ctx m) min_size s;
       (rd, s) \<leftarrow> pick_is_read e g (t_ns_ctx m) s;
       p \<leftarrow> tailq_first (RepTasks main) s;
       tailq_foreach (submit_replica e g offset rd) p s
     }
   }"

definition release_replica :: "addr \<Rightarrow> addr \<Rightarrow> perf \<Rightarrow> perf option" where
  "release_replica main task s = do {
     t \<leftarrow> read_task task s;
     s \<leftarrow> free (t_iovs t) s;
     if task \<noteq> main then free task s else Some s
   }"

definition rep_task_release :: "addr \<Rightarrow> perf \<Rightarrow> perf option" where
  "rep_task_release main s = do {
     m \<leftarrow> read_task main s;
     iov \<leftarrow> read_iov0 m s;
     s \<leftarrow> free (iov_base iov) s;
     s \<leftarrow> free (iov_base (t_md_iov m)) s;
     p \<leftarrow> tailq_first (RepTasks main) s;
     s \<leftarrow> tailq_foreach (release_replica main) p s;
     free main s
   }"

text \<open>
  The statistics part of \<open>task_complete\<close> (the metadata check it also runs, \<open>verify_io\<close>, only
  prints), and the barrier over the replicas.
\<close>

definition account_completion :: "env \<Rightarrow> globals \<Rightarrow> addr \<Rightarrow> perf \<Rightarrow> perf option" where
  "account_completion e g task s = do {
     t \<leftarrow> read_task task s;
     let (now, s) = get_ticks e s;
     let tsc_diff = now - t_submit_tsc t;
     ctx \<leftarrow> read_ctx (t_ns_ctx t) s;
     h \<leftarrow> (if g_latency_sw_tracking_level g > 0
          then histogram_data_tally (histogram ctx) tsc_diff else Some (histogram ctx));
     write_ctx (t_ns_ctx t) (\<lambda>c. c\<lparr>current_queue_depth := current_queue_depth c - 1,
        histogram := h,
        stats := (stats c)\<lparr>io_completed := io_completed (stats c) + 1,
          total_tsc := total_tsc (stats c) + tsc_diff,
          min_tsc := (if min_tsc (stats c) > tsc_diff then tsc_diff else min_tsc (stats c)),
          max_tsc := (if max_tsc (stats c) < tsc_diff then tsc_diff else max_tsc (stats c))\<rparr>\<rparr>) s
   }"

text \<open>
  The loop that looks for a draining namespace and renumbers the replicas on its way; \<open>Inr\<close>
  is the early return after releasing the group.
\<close>

partial_function (option) renumber_replicas :: "addr \<Rightarrow> u32 \<Rightarrow> addr option \<Rightarrow> perf \<Rightarrow> (perf + perf) option" where
  "renumber_replicas main io_id p s =
     (case p of None \<Rightarrow> Some (Inl s)
      | Some a \<Rightarrow> Option.bind (read_task a s) (\<lambda>t. Option.bind (read_ctx (t_ns_ctx t) s) (\<lambda>ctx.
          if is_draining ctx then map_option Inr (rep_task_release main s)
          else Option.bind (write_task a (\<lambda>t. t\<lparr>t_io_id := io_id\<rparr>) s) (\<lambda>s'.
               Option.bind (tailq_next a s') (\<lambda>p'. renumber_replicas main io_id p' s')))))"

definition next_io_id :: "globals \<Rightarrow> u32 \<Rightarrow> u32" where
  "next_io_id g io_id = (let i = io_id + g_queue_depth g in if i = 0 then 1 else i)"

definition task_complete :: "env \<Rightarrow> globals \<Rightarrow> addr \<Rightarrow> perf \<Rightarrow> perf option" where
  "task_complete e g task s = do {
     s \<leftarrow> account_completion e g task s;
     t \<leftarrow> read_task task s;
     let main = t_main_task t;
     s \<leftarrow> write_task main (\<lambda>m. m\<lparr>t_rep_completed_num := t_rep_completed_num m + 1\<rparr>) s;
     m \<leftarrow> read_task main s;
     if t_rep_completed_num m < g_rep_num g then Some s
     else do {
       s \<leftarrow> write_task main (\<lambda>m. m\<lparr>t_rep_completed_num := 0\<rparr>) s;
       let io_id = next_io_id g (t_io_id m);
       p \<leftarrow> tailq_first (RepTasks main) s;
       r \<leftarrow> renumber_replicas main io_id p s;
       (case r of Inr s \<Rightarrow> Some s | Inl s \<Rightarrow> submit_single_io_rep e g main s)
     }
   }"

record spdk_nvme_status =
  sct :: nat
  sc :: nat

definition cpl_is_error :: "spdk_nvme_status \<Rightarrow> bool" where
  "cpl_is_error st \<longleftrightarrow> sc st \<noteq> 0 \<or> sct st \<noteq> 0"

definition io_complete :: "env \<Rightarrow> globals \<Rightarrow> addr \<Rightarrow> spdk_nvme_status \<Rightarrow> perf \<Rightarrow> perf option" where
  "io_complete e g task st s = do {
     s \<leftarrow> (if cpl_is_error st \<and> \<not> g_continue_on_error g then do {
             t \<leftarrow> read_task task s;
             write_ctx (t_ns_ctx t) (\<lambda>c. c\<lparr>status := 1,
               is_draining := (if sct st = 0 \<and> sc st = 11 then True else is_draining c)\<rparr>) s
           } else Some s);
     task_complete e g task s
   }"

section \<open>Building the groups\<close>

text \<open>\<open>nvme_perf_allocate_iovs\<close>: cut the buffer into units of \<open>g_io_unit_size\<close> bytes.\<close>

function fill_iovs :: "nat \<Rightarrow> nat \<Rightarrow> addr \<Rightarrow> nat \<Rightarrow> iovec list" where
  "fill_iovs unit len buf offset =
     (if len = 0 \<or> unit = 0 then []
      else \<lparr>iov_base = buf + offset, iov_len = min len unit\<rparr> #
           fill_iovs unit (len - min len unit) buf (offset + min len unit))"
  by pat_completeness auto
termination by (relation "measure (\<lambda>(unit, len, buf, offset). len)") auto

declare fill_iovs.simps [simp del]

definition nvme_perf_allocate_iovs :: "globals \<Rightarrow> addr \<Rightarrow> addr \<Rightarrow> nat \<Rightarrow> perf \<Rightarrow> perf option" where
  "nvme_perf_allocate_iovs g task buf len s =
     (let unit = unat (g_io_unit_size g)
      in if unit = 0 then None
         else let iovcnt = (len + unit - 1) div unit;
                  (iovs, s) = alloc iovcnt s;
                  s = s\<lparr>iov_mem := (iov_mem s)(iovs := fill_iovs unit len buf 0)\<rparr>
              in write_task task (\<lambda>t. t\<lparr>t_iovcnt := iovcnt, t_iovs := iovs\<rparr>) s)"

definition nvme_setup_payload :: "globals \<Rightarrow> addr \<Rightarrow> u8 \<Rightarrow> perf \<Rightarrow> perf option" where
  "nvme_setup_payload g task pattern s = do {
     let max_io_size_bytes = g_io_size_bytes g + g_max_io_md_size g * g_max_io_size_blocks g;
     let (buf, s) = alloc (unat max_io_size_bytes) s;
     let s = s\<lparr>dma_pattern := (dma_pattern s)(buf := pattern)\<rparr>;
     s \<leftarrow> nvme_perf_allocate_iovs g task buf (unat max_io_size_bytes) s;
     let max_io_md_size = g_max_io_md_size g * g_max_io_size_blocks g;
     if max_io_md_size \<noteq> 0 then do {
       let (md, s) = alloc (unat max_io_md_size) s;
       write_task task (\<lambda>t. t\<lparr>t_md_iov := \<lparr>iov_base = md, iov_len = unat max_io_md_size\<rparr>\<rparr>) s
     } else Some s
   }"

definition zero_task :: perf_task where
  "zero_task = \<lparr>t_io_id = 0, t_ns_id = 0, t_ns_ctx = 0, t_iovs = 0, t_iovcnt = 0, t_iovpos = 0,
     t_iov_offset = 0, t_md_iov = \<lparr>iov_base = 0, iov_len = 0\<rparr>, t_submit_tsc = 0,
     t_offset_in_ios = 0, t_is_read = False, t_main_task = 0, t_rep_completed_num = 0\<rparr>"

definition calloc_task :: "perf \<Rightarrow> addr \<times> perf" where
  "calloc_task s =
     (let (task, s) = alloc 1 s in (task, s\<lparr>task_mem := (task_mem s)(task := zero_task)\<rparr>))"

definition allocate_main_task :: "globals \<Rightarrow> nat \<Rightarrow> nat \<Rightarrow> u32 \<Rightarrow> u32 \<Rightarrow> perf \<Rightarrow> (addr \<times> perf) option" where
  "allocate_main_task g ns_ctx queue_depth io_id ns_id s = do {
     let (task, s) = calloc_task s;
     s \<leftarrow> nvme_setup_payload g task (of_nat (queue_depth mod 8 + 1)) s;
     s \<leftarrow> write_task task (\<lambda>t. t\<lparr>t_ns_ctx := ns_ctx, t_io_id := io_id, t_ns_id := ns_id\<rparr>) s;
     s \<leftarrow> tailq_init (RepTasks task) s;
     s \<leftarrow> tailq_insert_tail (RepTasks task) task s;
     s \<leftarrow> write_task task (\<lambda>t. t\<lparr>t_main_task := task, t_rep_completed_num := 0\<rparr>) s;
     Some (task, s)
   }"

text \<open>A result address 0 is the C function's NULL.\<close>

definition copy_task :: "addr \<Rightarrow> nat \<Rightarrow> u32 \<Rightarrow> perf \<Rightarrow> (addr \<times> perf) option" where
  "copy_task main ns_ctx ns_id s =
     (if main = 0 then Some (0, s)
      else do {
        let (task, s) = calloc_task s;
        m \<leftarrow> read_task main s;
        let (iovs, s) = alloc (t_iovcnt m) s;
        s \<leftarrow> (if live s (t_iovs m)
             then Some (s\<lparr>iov_mem := (iov_mem s)(iovs := take (t_iovcnt m) (iov_mem s (t_iovs m)))\<rparr>)
             else None);
        s \<leftarrow> write_task task (\<lambda>t. t\<lparr>t_ns_ctx := ns_ctx, t_ns_id := ns_id, t_iovcnt := t_iovcnt m,
               t_iovs := iovs, t_md_iov := t_md_iov m, t_io_id := t_io_id m, t_main_task := main\<rparr>) s;
        s \<leftarrow> tailq_insert_tail (RepTasks main) task s;
        Some (task, s)
      })"

text \<open>The loop over the namespace contexts of the worker, for one I/O.\<close>

fun build_group :: "globals \<Rightarrow> nat \<Rightarrow> u32 \<Rightarrow> nat list \<Rightarrow> u32 \<Rightarrow> bool \<Rightarrow> addr \<Rightarrow> perf \<Rightarrow> (addr \<times> perf) option" where
  "build_group g queue_depth io_id [] ns_id is_main main s = Some (main, s)"
| "build_group g queue_depth io_id (c # cs) ns_id is_main main s =
     (if is_main then do {
        (main, s) \<leftarrow> allocate_main_task g c queue_depth io_id ns_id s;
        s \<leftarrow> (if g_send_main_rep_finally g then tailq_remove (RepTasks main) main s else Some s);
        build_group g queue_depth io_id cs (ns_id + 1) False main s
      } else do {
        (_, s) \<leftarrow> copy_task main c ns_id s;
        build_group g queue_depth io_id cs (ns_id + 1) False main s
      })"

fun submit_io_rep :: "env \<Rightarrow> globals \<Rightarrow> nat \<Rightarrow> u32 \<Rightarrow> addr \<Rightarrow> perf \<Rightarrow> perf option" where
  "submit_io_rep e g 0 io_id main s = Some s"
| "submit_io_rep e g (Suc queue_depth) io_id main s = do {
     (main, s) \<leftarrow> build_group g queue_depth io_id [0..<length (ns_ctxs s)] 0 True main s;
     s \<leftarrow> (if g_send_main_rep_finally g then tailq_insert_tail (RepTasks main) main s else Some s);
     s \<leftarrow> submit_single_io_rep e g main s;
     submit_io_rep e g queue_depth (io_id + 1) main s
   }"

section \<open>The scatter-gather callbacks\<close>

text \<open>
  The driver walks a task's I/O vectors with these two callbacks: position the cursor at a byte
  offset, then take one element after the other.
\<close>

fun seek_iov :: "iovec list \<Rightarrow> nat \<Rightarrow> nat \<Rightarrow> nat \<times> nat" where
  "seek_iov [] pos offset = (pos, offset)"
| "seek_iov (v # vs) pos offset =
     (if offset < iov_len v then (pos, offset) else seek_iov vs (pos + 1) (offset - iov_len v))"

definition nvme_perf_reset_sgl :: "addr \<Rightarrow> nat \<Rightarrow> perf \<Rightarrow> perf option" where
  "nvme_perf_reset_sgl task sgl_offset s = do {
     t \<leftarrow> read_task task s;
     let (pos, off) = seek_iov (take (t_iovcnt t) (iov_mem s (t_iovs t))) 0 sgl_offset;
     write_task task (\<lambda>t. t\<lparr>t_iovpos := pos, t_iov_offset := off\<rparr>) s
   }"

definition nvme_perf_next_sge :: "addr \<Rightarrow> perf \<Rightarrow> ((addr \<times> nat) \<times> perf) option" where
  "nvme_perf_next_sge task s = do {
     t \<leftarrow> read_task task s;
     if t_iovpos t < t_iovcnt t \<and> t_iovpos t < length (iov_mem s (t_iovs t)) then do {
       let iov = iov_mem s (t_iovs t) ! t_iovpos t;
       if t_iov_offset t \<le> iov_len iov then do {
         s \<leftarrow> write_task task (\<lambda>t. t\<lparr>t_iovpos := t_iovpos t + 1, t_iov_offset := 0\<rparr>) s;
         Some ((iov_base iov + t_iov_offset t, iov_len iov - t_iov_offset t), s)
       } else None
     } else None
   }"

section \<open>Polling, requeueing and cleanup\<close>

definition nvme_check_io :: "env \<Rightarrow> globals \<Rightarrow> (addr \<times> spdk_nvme_status) list \<Rightarrow> int \<Rightarrow> nat \<Rightarrow> perf \<Rightarrow> (int \<times> perf) option" where
  "nvme_check_io e g cpls rc ns_ctx s = do {
     s \<leftarrow> foldM (\<lambda>(task, st) s. io_complete e g task st (s\<lparr>inflight := remove1 task (inflight s)\<rparr>)) cpls s;
     if rc < 0 then do {
       s \<leftarrow> write_ctx ns_ctx (\<lambda>c. c\<lparr>status := 1\<rparr>) s;
       Some (-1, s)
     } else Some (rc, s)
   }"

definition perf_disconnect_cb :: "nat \<Rightarrow> perf \<Rightarrow> perf option" where
  "perf_disconnect_cb ns_ctx s = write_ctx ns_ctx (\<lambda>c. c\<lparr>is_draining := True, status := 1\<rparr>) s"

text \<open>The loop of \<open>work_fn\<close> that resubmits the queued tasks of one namespace context.\<close>

partial_function (option) resubmit_swapped :: "env \<Rightarrow> globals \<Rightarrow> nat \<Rightarrow> perf \<Rightarrow> perf option" where
  "resubmit_swapped e g ns_ctx s =
     (case TAILQ_FIRST (links s) SwapList of
        None \<Rightarrow> Some s
      | Some task \<Rightarrow>
          Option.bind (tailq_remove SwapList task s) (\<lambda>s.
          Option.bind (read_ctx ns_ctx s) (\<lambda>ctx.
          Option.bind (if is_draining ctx then tailq_insert_tail (QueuedTasks ns_ctx) task s
                       else submit_single_io e g task s) (\<lambda>s.
          resubmit_swapped e g ns_ctx s))))"

definition requeue_tasks :: "env \<Rightarrow> globals \<Rightarrow> nat \<Rightarrow> perf \<Rightarrow> perf option" where
  "requeue_tasks e g ns_ctx s = do {
     ctx \<leftarrow> read_ctx ns_ctx s;
     if g_continue_on_error g \<and> \<not> is_draining ctx then do {
       s \<leftarrow> tailq_init SwapList s;
       let s = s\<lparr>links := TAILQ_SWAP SwapList (QueuedTasks ns_ctx) (links s)\<rparr>;
       resubmit_swapped e g ns_ctx s
     } else Some s
   }"

partial_function (option) complete_queued :: "env \<Rightarrow> globals \<Rightarrow> nat \<Rightarrow> addr option \<Rightarrow> perf \<Rightarrow> perf option" where
  "complete_queued e g ns_ctx p s =
     (case p of None \<Rightarrow> Some s
      | Some task \<Rightarrow>
          Option.bind (tailq_next task s) (\<lambda>ttask.
          Option.bind (tailq_remove (QueuedTasks ns_ctx) task s) (\<lambda>s.
          Option.bind (task_complete e g task s) (\<lambda>s. complete_queued e g ns_ctx ttask s))))"

definition cleanup_ns_worker_ctx :: "env \<Rightarrow> globals \<Rightarrow> nat \<Rightarrow> perf \<Rightarrow> perf option" where
  "cleanup_ns_worker_ctx e g ns_ctx s = do {
     p \<leftarrow> tailq_first (QueuedTasks ns_ctx) s;
     complete_queued e g ns_ctx p s
   }"

section \<open>Registering namespaces and assigning them to workers\<close>

text \<open>What the driver reports of a namespace.\<close>

record nvme_ns =
  ns_active :: bool
  ns_size :: u64
  ns_sector_size :: u32
  ns_ext_sector_size :: u32
  ns_max_io_xfer_size :: u32
  ns_md_size :: u32
  ns_extended_lba :: bool
  ns_pi_supported :: bool

record registry =
  r_namespaces :: "ns_entry list"
  r_max_io_md_size :: u32
  r_max_io_size_blocks :: u32
  r_warn :: bool

text \<open>
  \<open>register_ns\<close>, with the values of \<open>rand()\<close>, of the command line option for PRACT and of the
  number of I/O queues per namespace as arguments.
\<close>

definition register_ns :: "globals \<Rightarrow> u32 \<Rightarrow> bool \<Rightarrow> bool \<Rightarrow> u64 \<Rightarrow> nvme_ns \<Rightarrow> registry \<Rightarrow> registry option" where
  "register_ns g rnd theta_pos pract nr_io_queues ns r =
     (if \<not> ns_active ns then Some (r\<lparr>r_warn := True\<rparr>)
      else if ns_size ns < ucast (g_io_size_bytes g) \<or> ns_sector_size ns > g_io_size_bytes g
      then Some (r\<lparr>r_warn := True\<rparr>)
      else if ns_max_io_xfer_size ns = 0 \<or> nr_io_queues = 0 \<or> g_io_size_bytes g = 0 \<or> ns_sector_size ns = 0
      then None
      else
        let entries = (g_io_size_bytes g - 1) div ns_max_io_xfer_size ns + 2 + 1;
            io_pract = (ns_pi_supported ns \<and> pract);
            ent = \<lparr>io_size_blocks = g_io_size_bytes g div ns_sector_size ns,
                   num_io_requests = ucast (ucast entries * ((ucast (g_queue_depth g) + nr_io_queues - 1) div nr_io_queues)),
                   size_in_ios = ns_size ns div ucast (g_io_size_bytes g),
                   block_size = (if io_pract \<and> ns_md_size ns = 8 then ns_sector_size ns else ns_ext_sector_size ns),
                   md_size = ns_md_size ns, md_interleave = ns_extended_lba ns, io_flags_pract = io_pract,
                   seed = (if g_is_random g then rnd else 0), zipf = (g_is_random g \<and> theta_pos)\<rparr>
        in if block_size ent = 0 then None
           else if g_io_size_bytes g mod block_size ent \<noteq> 0 then Some (r\<lparr>r_warn := True\<rparr>)
           else Some (r\<lparr>r_max_io_md_size := max (r_max_io_md_size r) (md_size ent),
                        r_max_io_size_blocks := max (r_max_io_size_blocks r) (io_size_blocks ent),
                        r_namespaces := r_namespaces r @ [ent]\<rparr>))"

text \<open>
  \<open>associate_workers_with_ns\<close>: the contexts that each worker gets, in order, each with the position
  of its namespace and its histogram, \<open>None\<close> when it could not be allocated. \<open>mem n\<close> tells for the
  \<open>n\<close>-th context whether the context, its histogram and the histogram's counters can be allocated.
  With no worker at all the default case follows a NULL pointer.
\<close>

type_synonym worker_ctxs = "(nat \<times> spdk_histogram_data option) list"

definition allocate_ns_worker :: "bool \<times> bool \<times> bool \<Rightarrow> nat \<Rightarrow> nat \<Rightarrow> worker_ctxs list \<Rightarrow> (int \<times> worker_ctxs list) option" where
  "allocate_ns_worker m ent wrk ws =
     (if \<not> fst m then Some (- 1, ws)
      else if length ws \<le> wrk then None
      else do {
        h \<leftarrow> histogram_data_alloc (fst (snd m)) (snd (snd m));
        Some (0, ws[wrk := ws ! wrk @ [(ent, h)]])
      })"

fun assoc_every :: "(nat \<Rightarrow> bool \<times> bool \<times> bool) \<Rightarrow> nat \<Rightarrow> (nat \<times> nat) list \<Rightarrow> worker_ctxs list \<Rightarrow> (int \<times> worker_ctxs list) option" where
  "assoc_every mem n [] ws = Some (0, ws)"
| "assoc_every mem n ((wrk, ent) # ps) ws = do {
     (rc, ws) \<leftarrow> allocate_ns_worker (mem n) ent wrk ws;
     if rc \<noteq> 0 then Some (- 1, ws) else assoc_every mem (n + 1) ps ws
   }"

text \<open>The default: entries and workers are stepped through round robin.\<close>

fun assoc_loop :: "(nat \<Rightarrow> bool \<times> bool \<times> bool) \<Rightarrow> nat \<Rightarrow> nat \<Rightarrow> nat \<Rightarrow> nat \<Rightarrow> nat \<Rightarrow> nat \<Rightarrow> worker_ctxs list \<Rightarrow> (int \<times> worker_ctxs list) option" where
  "assoc_loop mem n 0 ent wrk n_ns n_wrk ws = Some (0, ws)"
| "assoc_loop mem n (Suc k) ent wrk n_ns n_wrk ws = do {
     (rc, ws) \<leftarrow> allocate_ns_worker (mem n) ent wrk ws;
     if rc \<noteq> 0 then Some (- 1, ws)
     else assoc_loop mem (n + 1) k (if ent + 1 = n_ns then 0 else ent + 1) (if wrk + 1 = n_wrk then 0 else wrk + 1)
            n_ns n_wrk ws
   }"

definition associate_workers_with_ns :: "(nat \<Rightarrow> bool \<times> bool \<times> bool) \<Rightarrow> bool \<Rightarrow> nat \<Rightarrow> nat \<Rightarrow> (int \<times> worker_ctxs list) option" where
  "associate_workers_with_ns mem use_every_core n_ns n_wrk =
     (let ws = replicate n_wrk []
      in if use_every_core then assoc_every mem 0 (concat (map (\<lambda>w. map (Pair w) [0..<n_ns]) [0..<n_wrk])) ws
         else if n_ns = 0 then Some (0, ws)
         else assoc_loop mem 0 (max n_ns n_wrk) 0 0 n_ns n_wrk ws)"

end
