(* ===== verification/Perf_Group.thy ===== *)
theory Perf_Group
  imports Perf_Rep
begin

text \<open>
  Correctness of the replica groups of \<open>Perf_Rep\<close>. A group is a main task and the list of its
  replicas, linked through the pointers of the rep_tasks queue. The theory shows what a
  submission sends to the replicas, that the completion barrier resubmits a group exactly when
  its last replica completes, that the groups built at the start satisfy the invariant of this
  argument and every sequence of completions keeps it, and where the code leaves defined
  behaviour.
\<close>

section \<open>Groups\<close>

definition task_ok :: "perf \<Rightarrow> addr \<Rightarrow> addr \<Rightarrow> bool" where
  "task_ok s main a \<longleftrightarrow>
     (let t = task_mem s a in a \<noteq> 0 \<and> live s a \<and> t_main_task t = main \<and>
        t_ns_ctx t < length (ns_ctxs s) \<and> live s (t_iovs t) \<and> iov_mem s (t_iovs t) \<noteq> [] \<and> t_iovcnt t \<noteq> 0)"

definition ctxs_ok :: "perf \<Rightarrow> bool" where
  "ctxs_ok s \<longleftrightarrow> namespaces s \<noteq> [] \<and> (\<forall>c \<in> set (ns_ctxs s). entry c < length (namespaces s)) \<and>
     (\<forall>x \<in> set (namespaces s). size_in_ios x \<noteq> 0)"

definition linked :: "perf \<Rightarrow> head \<Rightarrow> addr list \<Rightarrow> bool" where
  "linked s h xs \<longleftrightarrow> (\<exists>Q. tq_rep (links s) Q \<and> Q h = Some xs)"

definition replica_group :: "perf \<Rightarrow> addr \<Rightarrow> addr list \<Rightarrow> bool" where
  "replica_group s main xs \<longleftrightarrow> linked s (RepTasks main) xs \<and> main \<in> set xs \<and> (\<forall>a \<in> set xs. task_ok s main a) \<and>
     distinct (map (\<lambda>a. t_ns_ctx (task_mem s a)) xs)"

text \<open>
  What no submission or completion changes: the allocation and the links, the fixed fields of
  tasks, contexts and namespaces.
\<close>

definition task_shape :: "perf_task \<Rightarrow> nat \<times> nat \<times> addr \<times> nat \<times> iovec \<times> addr" where
  "task_shape t = (unat (t_ns_id t), t_ns_ctx t, t_iovs t, t_iovcnt t, t_md_iov t, t_main_task t)"

definition same_shape :: "perf \<Rightarrow> perf \<Rightarrow> bool" where
  "same_shape s s' \<longleftrightarrow> links s' = links s \<and> live s' = live s \<and> brk s' = brk s \<and> iov_mem s' = iov_mem s \<and>
     map entry (ns_ctxs s') = map entry (ns_ctxs s) \<and>
     map (\<lambda>x. x\<lparr>seed := 0\<rparr>) (namespaces s') = map (\<lambda>x. x\<lparr>seed := 0\<rparr>) (namespaces s) \<and>
     (\<forall>a. task_shape (task_mem s' a) = task_shape (task_mem s a))"

lemma same_shape_refl [simp]: "same_shape s s"
  by (simp add: same_shape_def)

lemma same_shape_trans: "same_shape s t \<Longrightarrow> same_shape t u \<Longrightarrow> same_shape s u"
  by (simp add: same_shape_def)

lemma same_shape_lengths:
  assumes "same_shape s s'"
  shows "length (ns_ctxs s') = length (ns_ctxs s)" and "length (namespaces s') = length (namespaces s)"
proof -
  have "map entry (ns_ctxs s') = map entry (ns_ctxs s)"
    and "map (\<lambda>x. x\<lparr>seed := 0\<rparr>) (namespaces s') = map (\<lambda>x. x\<lparr>seed := 0\<rparr>) (namespaces s)"
    using assms by (simp_all only: same_shape_def)
  then show "length (ns_ctxs s') = length (ns_ctxs s)" and "length (namespaces s') = length (namespaces s)"
    using map_eq_imp_length_eq by blast+
qed

lemma same_shape_entry:
  assumes "same_shape s s'" and "i < length (ns_ctxs s)"
  shows "entry (ns_ctxs s' ! i) = entry (ns_ctxs s ! i)"
proof -
  have "map entry (ns_ctxs s') ! i = map entry (ns_ctxs s) ! i"
    using assms(1) by (simp only: same_shape_def)
  then show ?thesis using assms(2) same_shape_lengths(1) [OF assms(1)] by simp
qed

lemma same_shape_namespace:
  assumes "same_shape s s'" and "i < length (namespaces s)"
  shows "(namespaces s' ! i)\<lparr>seed := 0\<rparr> = (namespaces s ! i)\<lparr>seed := 0\<rparr>"
proof -
  have "map (\<lambda>x. x\<lparr>seed := 0\<rparr>) (namespaces s') ! i = map (\<lambda>x. x\<lparr>seed := 0\<rparr>) (namespaces s) ! i"
    using assms(1) by (simp only: same_shape_def)
  then show ?thesis using assms(2) same_shape_lengths(2) [OF assms(1)] by simp
qed

lemma seed_irrelevant:
  assumes "x\<lparr>seed := 0\<rparr> = y\<lparr>seed := (0 :: u32)\<rparr>"
  shows "size_in_ios x = size_in_ios y" "io_size_blocks x = io_size_blocks y" "zipf x = zipf y"
    "md_size x = md_size y" "io_flags_pract x = io_flags_pract y"
proof -
  note e = assms
  show "size_in_ios x = size_in_ios y" using arg_cong [OF e, of size_in_ios] by simp
  show "io_size_blocks x = io_size_blocks y" using arg_cong [OF e, of io_size_blocks] by simp
  show "zipf x = zipf y" using arg_cong [OF e, of zipf] by simp
  show "md_size x = md_size y" using arg_cong [OF e, of md_size] by simp
  show "io_flags_pract x = io_flags_pract y" using arg_cong [OF e, of io_flags_pract] by simp
qed

lemmas same_shape_ns_fields = seed_irrelevant [OF same_shape_namespace]

lemma same_shape_task:
  assumes "same_shape s s'"
  shows "t_ns_ctx (task_mem s' a) = t_ns_ctx (task_mem s a)" "t_iovs (task_mem s' a) = t_iovs (task_mem s a)"
    "t_main_task (task_mem s' a) = t_main_task (task_mem s a)"
    "t_iovcnt (task_mem s' a) = t_iovcnt (task_mem s a)"
proof -
  have "task_shape (task_mem s' a) = task_shape (task_mem s a)" using assms by (simp only: same_shape_def)
  then show "t_ns_ctx (task_mem s' a) = t_ns_ctx (task_mem s a)" "t_iovs (task_mem s' a) = t_iovs (task_mem s a)"
    "t_main_task (task_mem s' a) = t_main_task (task_mem s a)"
    "t_iovcnt (task_mem s' a) = t_iovcnt (task_mem s a)"
    by (simp_all add: task_shape_def)
qed

lemma same_shape_heap:
  assumes "same_shape s s'"
  shows "links s' = links s" "live s' = live s" "iov_mem s' = iov_mem s" "brk s' = brk s"
  using assms by (simp_all only: same_shape_def)

lemma same_shape_ok:
  assumes "same_shape s s'"
  shows "task_ok s' main a = task_ok s main a" and "linked s' h xs = linked s h xs"
    and "replica_group s' main xs = replica_group s main xs"
proof -
  show 1: "task_ok s' main a = task_ok s main a" for a
    using same_shape_task [OF assms] same_shape_heap [OF assms] same_shape_lengths [OF assms]
    by (simp add: task_ok_def Let_def)
  show 2: "linked s' h xs = linked s h xs" for h xs
    using same_shape_heap [OF assms] by (simp add: linked_def)
  show "replica_group s' main xs = replica_group s main xs"
    using same_shape_task(1) [OF assms] by (simp add: replica_group_def 1 2)
qed

lemma same_shape_ctxs_ok:
  assumes "same_shape s s'" and "ctxs_ok s"
  shows "ctxs_ok s'"
proof -
  note len = same_shape_lengths [OF assms(1)]
  have "entry (ns_ctxs s' ! i) < length (namespaces s')" if "i < length (ns_ctxs s')" for i
    using that assms len same_shape_entry [OF assms(1), of i] by (auto simp: ctxs_ok_def)
  moreover have "size_in_ios (namespaces s' ! i) \<noteq> 0" if "i < length (namespaces s')" for i
    using that assms len same_shape_ns_fields(1) [OF assms(1), of i] by (auto simp: ctxs_ok_def)
  moreover have "namespaces s' \<noteq> []" using len assms(2) by (auto simp: ctxs_ok_def)
  ultimately show ?thesis by (auto simp: ctxs_ok_def in_set_conv_nth)
qed

section \<open>Loops over a group\<close>

definition hd_opt :: "'a list \<Rightarrow> 'a option" where
  "hd_opt xs = (case xs of [] \<Rightarrow> None | x # _ \<Rightarrow> Some x)"

lemma hd_opt_simps [simp]: "hd_opt [] = None" "hd_opt (x # xs) = Some x"
  by (simp_all add: hd_opt_def)

lemma linked_first: "linked s h xs \<Longrightarrow> TAILQ_FIRST (links s) h = hd_opt xs"
  unfolding linked_def hd_opt_def by (elim exE conjE) (rule tq.rep_first)

lemma linked_next: "linked s h (as @ a # bs) \<Longrightarrow> TAILQ_NEXT (links s) a = hd_opt bs"
  unfolding linked_def hd_opt_def by (elim exE conjE) (rule tq.rep_succ)

lemma linked_distinct: "linked s h xs \<Longrightarrow> distinct xs"
  unfolding linked_def by (elim exE conjE) (rule tq.rep_distinct)

lemma linked_links: "links t = links s \<Longrightarrow> linked t h xs = linked s h xs"
  by (simp add: linked_def)

lemma tailq_foreach_simps [simp]:
  "tailq_foreach body None s = Some s"
  "tailq_foreach body (Some a) s =
     Option.bind (body a s) (\<lambda>s'. Option.bind (tailq_next a s') (\<lambda>p'. tailq_foreach body p' s'))"
  by (subst tailq_foreach.simps, simp)+

text \<open>
  A pointer-following loop whose body leaves the links and the allocation alone visits the list
  that the pointers represent.
\<close>

lemma tailq_foreach_foldM:
  assumes "linked s h (as @ bs)"
    and "\<And>a t t'. a \<in> set bs \<Longrightarrow> P t \<Longrightarrow> body a t = Some t' \<Longrightarrow> P t'"
    and "P s" and "\<And>t. P t \<Longrightarrow> links t = links s \<and> live t = live s"
    and "\<forall>a \<in> set bs. live s a"
  shows "tailq_foreach body (hd_opt bs) s = foldM body bs s"
  using assms
proof (induction bs arbitrary: as s)
  case Nil
  show ?case by simp
next
  case (Cons b bs)
  show ?case
  proof (cases "body b s")
    case None
    then show ?thesis by simp
  next
    case (Some t)
    have Pt: "P t" using Cons.prems(2) [OF _ Cons.prems(3) Some] by simp
    have eq: "links t = links s" "live t = live s" using Cons.prems(4) [OF Pt] by auto
    have "linked t h ((as @ [b]) @ bs)" using Cons.prems(1) linked_links [OF eq(1)] by simp
    then have "tailq_foreach body (hd_opt bs) t = foldM body bs t"
    proof (rule Cons.IH [OF _ _ Pt])
      show "P u'" if "a \<in> set bs" "P u" "body a u = Some u'" for a u u'
        using Cons.prems(2) [OF _ that(2,3)] that(1) by simp
      show "links u = links t \<and> live u = live t" if "P u" for u
        using Cons.prems(4) [OF that] eq by simp
      show "\<forall>a\<in>set bs. live t a" using Cons.prems(5) eq by simp
    qed
    moreover have "tailq_next b t = Some (hd_opt bs)"
      using linked_next [OF Cons.prems(1)] Cons.prems(5) eq by (simp add: tailq_next_def)
    ultimately show ?thesis using Some by simp
  qed
qed

section \<open>Submitting a group\<close>

text \<open>A driver that takes every command, as it does while its request pool has room.\<close>

definition accepting :: "env \<Rightarrow> bool" where
  "accepting e \<longleftrightarrow> (\<forall>n. driver_rc e n = 0 \<and> dif_ctx_init_rc e n = 0 \<and> dif_generate_rc e n = 0)"

definition submitted_ctx :: "globals \<Rightarrow> ns_worker_ctx \<Rightarrow> ns_worker_ctx" where
  "submitted_ctx g c =
     c\<lparr>last_qpair := (if last_qpair c + 1 = num_active_qpairs c then 0 else last_qpair c + 1),
       current_queue_depth := current_queue_depth c + 1,
       stats := (stats c)\<lparr>io_submitted := io_submitted (stats c) + 1\<rparr>,
       is_draining := (is_draining c \<or>
         g_number_ios g \<noteq> 0 \<and> io_submitted (stats c) + 1 \<ge> g_number_ios g)\<rparr>"

text \<open>The command that a replica puts on its namespace.\<close>

definition replica_cmd :: "perf \<Rightarrow> u64 \<Rightarrow> bool \<Rightarrow> addr \<Rightarrow> command" where
  "replica_cmd s off rd a =
     (let t = task_mem s a; c = ns_ctxs s ! t_ns_ctx t; blocks = io_size_blocks (namespaces s ! entry c)
      in \<lparr>c_task = a, c_ns = t_ns_ctx t, c_qpair = last_qpair c,
          c_buf = (if t_iovcnt t = 1 then iov_base (hd (iov_mem s (t_iovs t))) else 0),
          c_lba = off * ucast blocks, c_lba_count = blocks, c_read = rd, c_vectored = (t_iovcnt t \<noteq> 1)\<rparr>)"

definition submitted :: "env \<Rightarrow> globals \<Rightarrow> u64 \<Rightarrow> bool \<Rightarrow> addr \<Rightarrow> perf \<Rightarrow> perf" where
  "submitted e g off rd a s =
     (let t = task_mem s a; i = t_ns_ctx t
      in s\<lparr>n_tick := n_tick s + 1, n_driver := n_driver s + 1,
           task_mem := (task_mem s)(a := t\<lparr>t_submit_tsc := ticks e (n_tick s),
             t_offset_in_ios := off, t_is_read := rd\<rparr>),
           ns_ctxs := (ns_ctxs s)[i := submitted_ctx g (ns_ctxs s ! i)],
           inflight := inflight s @ [a], issued := issued s @ [replica_cmd s off rd a]\<rparr>)"

lemma ctxs_ok_entry: "ctxs_ok s \<Longrightarrow> i < length (ns_ctxs s) \<Longrightarrow> entry (ns_ctxs s ! i) < length (namespaces s)"
  by (simp add: ctxs_ok_def)

lemma submit_replica_accepted:
  assumes "accepting e" and "ctxs_ok s" and "task_ok s main a"
  shows "submit_replica e g off rd a s = Some (submitted e g off rd a s)"
proof -
  let ?t = "task_mem s a"
  have a: "a \<noteq> 0" "live s a" "t_ns_ctx ?t < length (ns_ctxs s)" "live s (t_iovs ?t)" "iov_mem s (t_iovs ?t) \<noteq> []"
    using assms(3) by (simp_all add: task_ok_def Let_def)
  have ent: "entry (ns_ctxs s ! t_ns_ctx ?t) < length (namespaces s)"
    using ctxs_ok_entry [OF assms(2) a(3)] .
  have acc: "driver_rc e n = 0" "dif_ctx_init_rc e n = 0" "dif_generate_rc e n = 0" for n
    using assms(1) by (simp_all add: accepting_def)
  show ?thesis using a ent
    by (simp add: submit_replica_def get_ticks_def write_task_def read_task_def submit_and_account_def
      nvme_submit_io_def read_ctx_def read_entry_def write_ctx_def read_iov0_def acc driver_submit_def
      submit_accepted_def drain_if_done_def submitted_def submitted_ctx_def replica_cmd_def Let_def)
qed

lemma submitted_same_shape [simp]:
  assumes "t_ns_ctx (task_mem s a) < length (ns_ctxs s)"
  shows "same_shape s (submitted e g off rd a s)"
  using assms by (auto simp: same_shape_def submitted_def task_shape_def submitted_ctx_def Let_def
      intro!: nth_equalityI simp: nth_list_update)

lemma task_ok_ctx: "task_ok s main a \<Longrightarrow> t_ns_ctx (task_mem s a) < length (ns_ctxs s)"
  by (simp add: task_ok_def Let_def)

lemma submit_all:
  assumes "accepting e" and "ctxs_ok s" and "\<forall>a \<in> set xs. task_ok s main a"
  shows "foldM (submit_replica e g off rd) xs s = Some (fold (submitted e g off rd) xs s) \<and>
         same_shape s (fold (submitted e g off rd) xs s)"
  using assms
proof (induction xs arbitrary: s)
  case Nil
  show ?case by simp
next
  case (Cons x xs)
  let ?t = "submitted e g off rd x s"
  have x: "task_ok s main x" using Cons.prems(3) by simp
  have sh: "same_shape s ?t" using task_ok_ctx [OF x] by simp
  have "\<forall>a \<in> set xs. task_ok ?t main a" using Cons.prems(3) by (simp add: same_shape_ok(1) [OF sh])
  then have "foldM (submit_replica e g off rd) xs ?t = Some (fold (submitted e g off rd) xs ?t)"
    and "same_shape ?t (fold (submitted e g off rd) xs ?t)"
    using Cons.IH [OF assms(1) same_shape_ctxs_ok [OF sh Cons.prems(2)]] by simp_all
  then show ?case
    using same_shape_trans [OF sh] by (simp add: submit_replica_accepted [OF assms(1) Cons.prems(2) x])
qed

lemma fold_submitted_inflight: "inflight (fold (submitted e g off rd) xs s) = inflight s @ xs"
  by (induction xs arbitrary: s) (simp_all add: submitted_def Let_def)

lemma fold_submitted_ids [simp]:
  "t_io_id (task_mem (fold (submitted e g off rd) xs s) a) = t_io_id (task_mem s a)"
  "t_rep_completed_num (task_mem (fold (submitted e g off rd) xs s) a) = t_rep_completed_num (task_mem s a)"
  by (induction xs arbitrary: s) (simp_all add: submitted_def Let_def)

lemma fold_submitted_other: "a \<notin> set xs \<Longrightarrow> task_mem (fold (submitted e g off rd) xs s) a = task_mem s a"
  by (induction xs arbitrary: s) (simp_all add: submitted_def Let_def)

lemma fold_submitted_work:
  "t_offset_in_ios (task_mem (fold (submitted e g off rd) xs s) a) =
     (if a \<in> set xs then off else t_offset_in_ios (task_mem s a))"
  "t_is_read (task_mem (fold (submitted e g off rd) xs s) a) =
     (if a \<in> set xs then rd else t_is_read (task_mem s a))"
  by (induction xs arbitrary: s) (simp_all add: submitted_def Let_def)

lemma fold_submitted_ns [simp]: "namespaces (fold (submitted e g off rd) xs s) = namespaces s"
  by (induction xs arbitrary: s) (simp_all add: submitted_def Let_def)

lemma submitted_ns_ctx [simp]: "t_ns_ctx (task_mem (submitted e g off rd a s) b) = t_ns_ctx (task_mem s b)"
  by (simp add: submitted_def Let_def)

text \<open>The contexts of the replicas, which are pairwise different, each advance by one submission.\<close>

lemma fold_submitted_ctx:
  assumes "distinct (map (\<lambda>a. t_ns_ctx (task_mem s a)) xs)"
    and "i < length (ns_ctxs s)" and "\<forall>a \<in> set xs. t_ns_ctx (task_mem s a) < length (ns_ctxs s)"
  shows "ns_ctxs (fold (submitted e g off rd) xs s) ! i =
    (if i \<in> (\<lambda>a. t_ns_ctx (task_mem s a)) ` set xs then submitted_ctx g (ns_ctxs s ! i) else ns_ctxs s ! i)"
  using assms
proof (induction xs arbitrary: s)
  case Nil
  show ?case by simp
next
  case (Cons x xs)
  let ?t = "submitted e g off rd x s"
  have len: "length (ns_ctxs ?t) = length (ns_ctxs s)" by (simp add: submitted_def Let_def)
  have "ns_ctxs (fold (submitted e g off rd) xs ?t) ! i =
    (if i \<in> (\<lambda>a. t_ns_ctx (task_mem s a)) ` set xs then submitted_ctx g (ns_ctxs ?t ! i) else ns_ctxs ?t ! i)"
    using Cons.IH [of ?t] Cons.prems by (simp add: len)
  moreover have "ns_ctxs ?t ! i =
    (if i = t_ns_ctx (task_mem s x) then submitted_ctx g (ns_ctxs s ! i) else ns_ctxs s ! i)"
    using Cons.prems(2) by (simp add: submitted_def Let_def nth_list_update)
  ultimately show ?case using Cons.prems(1) by auto
qed

lemma replica_cmd_submitted:
  assumes "t_ns_ctx (task_mem s a) \<noteq> t_ns_ctx (task_mem s x)"
  shows "replica_cmd (submitted e g off rd x s) off' rd' a = replica_cmd s off' rd' a"
  using assms by (auto simp: replica_cmd_def submitted_def Let_def)

lemma fold_submitted_issued:
  assumes "distinct (map (\<lambda>a. t_ns_ctx (task_mem s a)) xs)"
  shows "issued (fold (submitted e g off rd) xs s) = issued s @ map (replica_cmd s off rd) xs"
  using assms
proof (induction xs arbitrary: s)
  case Nil
  show ?case by simp
next
  case (Cons x xs)
  have "map (replica_cmd (submitted e g off rd x s) off rd) xs = map (replica_cmd s off rd) xs"
  proof (intro map_cong refl replica_cmd_submitted)
    fix a assume "a \<in> set xs"
    then show "t_ns_ctx (task_mem s a) \<noteq> t_ns_ctx (task_mem s x)"
      using Cons.prems by (simp add: image_iff) metis
  qed
  moreover have "issued (submitted e g off rd x s) = issued s @ [replica_cmd s off rd x]"
    by (simp add: submitted_def Let_def)
  ultimately show ?case using Cons.IH [of "submitted e g off rd x s"] Cons.prems by simp
qed

section \<open>Choosing what to submit\<close>

text \<open>
  Choosing the offset and the direction changes at most the random seed and the sequential
  offset counter.
\<close>

definition same_work :: "perf \<Rightarrow> perf \<Rightarrow> bool" where
  "same_work s s' \<longleftrightarrow> same_shape s s' \<and> task_mem s' = task_mem s \<and> inflight s' = inflight s \<and>
     issued s' = issued s \<and> n_driver s' = n_driver s \<and>
     (\<forall>i < length (ns_ctxs s). (ns_ctxs s' ! i)\<lparr>offset_in_ios := 0\<rparr> = (ns_ctxs s ! i)\<lparr>offset_in_ios := 0\<rparr>)"

lemma same_work_refl [simp]: "same_work s s"
  by (simp add: same_work_def)

lemma same_work_shape: "same_work s s' \<Longrightarrow> same_shape s s'"
  by (simp add: same_work_def)

lemma same_work_trans:
  assumes "same_work s t" and "same_work t u"
  shows "same_work s u"
proof -
  have "same_shape s t" "same_shape t u" using assms by (simp_all add: same_work_def)
  then have "same_shape s u" "length (ns_ctxs t) = length (ns_ctxs s)"
    by (auto dest: same_shape_lengths intro: same_shape_trans)
  then show ?thesis using assms by (simp add: same_work_def)
qed

lemma write_entry_seed:
  assumes "i < length (namespaces s)"
  obtains s' where "write_entry i (\<lambda>x. x\<lparr>seed := sd\<rparr>) s = Some s'" "same_work s s'" "ns_ctxs s' = ns_ctxs s"
    "map size_in_ios (namespaces s') = map size_in_ios (namespaces s)"
proof
  let ?s' = "s\<lparr>namespaces := (namespaces s)[i := (namespaces s ! i)\<lparr>seed := sd\<rparr>]\<rparr>"
  show "write_entry i (\<lambda>x. x\<lparr>seed := sd\<rparr>) s = Some ?s'" using assms by (simp add: write_entry_def)
  have "map (\<lambda>x. x\<lparr>seed := 0\<rparr>) ((namespaces s)[i := (namespaces s ! i)\<lparr>seed := sd\<rparr>]) =
    map (\<lambda>x. x\<lparr>seed := 0\<rparr>) (namespaces s)"
    using assms by (intro nth_equalityI) (auto simp: nth_list_update)
  then show "same_work s ?s'" by (simp add: same_work_def same_shape_def)
  show "map size_in_ios (namespaces ?s') = map size_in_ios (namespaces s)"
    using assms by (intro nth_equalityI) (auto simp: nth_list_update)
qed simp

lemma pick_is_read_spec:
  assumes "ctxs_ok s" and "i < length (ns_ctxs s)"
  obtains rd s' where "pick_is_read e g i s = Some (rd, s')" "same_work s s'" "ns_ctxs s' = ns_ctxs s"
proof (cases "g_rw_percentage g = 100 \<or> g_rw_percentage g = 0")
  case True
  then have "pick_is_read e g i s = Some (g_rw_percentage g = 100, s)"
    using assms(2) ctxs_ok_entry [OF assms] by (auto simp: pick_is_read_def read_ctx_def read_entry_def)
  then show ?thesis using that by simp
next
  case False
  obtain r sd where r: "rand_r e (seed (namespaces s ! entry (ns_ctxs s ! i))) = (r, sd)" by fastforce
  obtain s' where s': "write_entry (entry (ns_ctxs s ! i)) (\<lambda>x. x\<lparr>seed := sd\<rparr>) s = Some s'"
    "same_work s s'" "ns_ctxs s' = ns_ctxs s"
    using write_entry_seed [OF ctxs_ok_entry [OF assms]] by blast
  have "pick_is_read e g i s = Some (int (r mod 100) < g_rw_percentage g, s')"
    using False assms(2) ctxs_ok_entry [OF assms] r s'(1)
    by (simp add: pick_is_read_def read_ctx_def read_entry_def)
  then show ?thesis using that s' by simp
qed

definition sequential :: "globals \<Rightarrow> perf \<Rightarrow> nat \<Rightarrow> bool" where
  "sequential g s i \<longleftrightarrow> \<not> g_is_random g \<and> \<not> zipf (namespaces s ! entry (ns_ctxs s ! i))"

lemma write_ctx_offset:
  assumes "i < length (ns_ctxs s)"
  shows "same_work s (s\<lparr>ns_ctxs := (ns_ctxs s)[i := (ns_ctxs s ! i)\<lparr>offset_in_ios := v\<rparr>]\<rparr>)"
proof -
  have "map entry ((ns_ctxs s)[i := (ns_ctxs s ! i)\<lparr>offset_in_ios := v\<rparr>]) = map entry (ns_ctxs s)"
    using assms by (intro nth_equalityI) (auto simp: nth_list_update)
  then show ?thesis using assms by (simp add: same_work_def same_shape_def nth_list_update)
qed

lemma pick_offset_sequential:
  assumes "ctxs_ok s" and "i < length (ns_ctxs s)" and "sequential g s i"
  shows "pick_offset e g i m s = Some (offset_in_ios (ns_ctxs s ! i),
    s\<lparr>ns_ctxs := (ns_ctxs s)[i := (ns_ctxs s ! i)\<lparr>offset_in_ios :=
      (if offset_in_ios (ns_ctxs s ! i) + 1 = m then 0 else offset_in_ios (ns_ctxs s ! i) + 1)\<rparr>]\<rparr>)"
  using assms(2,3) ctxs_ok_entry [OF assms(1,2)]
  by (simp add: pick_offset_def read_ctx_def read_entry_def write_ctx_def sequential_def Let_def)

lemma pick_offset_spec:
  assumes "ctxs_ok s" and "i < length (ns_ctxs s)"
  obtains off s' where "pick_offset e g i m s = Some (off, s')" "same_work s s'"
proof -
  note ent = ctxs_ok_entry [OF assms]
  let ?x = "namespaces s ! entry (ns_ctxs s ! i)"
  consider (z) "zipf ?x" | (q) "sequential g s i" | (r) "\<not> zipf ?x" "g_is_random g"
    by (auto simp: sequential_def)
  then show ?thesis
  proof cases
    case z
    then have "pick_offset e g i m s = Some (zipf_generate e (n_zipf s), s\<lparr>n_zipf := n_zipf s + 1\<rparr>)"
      using assms(2) ent by (simp add: pick_offset_def read_ctx_def read_entry_def)
    then show ?thesis using that by (simp add: same_work_def same_shape_def)
  next
    case q
    then show ?thesis using that pick_offset_sequential [OF assms] write_ctx_offset [OF assms(2)] by blast
  next
    case r
    have nz: "size_in_ios ?x \<noteq> 0" using assms(1) ent by (simp add: ctxs_ok_def)
    obtain n sd where n: "rand_r e (seed ?x) = (n, sd)" by fastforce
    obtain s' where s': "write_entry (entry (ns_ctxs s ! i)) (\<lambda>x. x\<lparr>seed := sd\<rparr>) s = Some s'" "same_work s s'"
      using write_entry_seed [OF ent] by blast
    have "pick_offset e g i m s = Some (of_nat n mod size_in_ios ?x, s')"
      using r nz assms(2) ent n s'(1) by (simp add: pick_offset_def read_ctx_def read_entry_def)
    then show ?thesis using that s' by blast
  qed
qed

section \<open>The whole submission\<close>

lemma foldl_min_le:
  fixes f :: "'a \<Rightarrow> 'b :: linorder"
  shows "fold (\<lambda>x m. min m (f x)) xs m \<le> m" and "x \<in> set xs \<Longrightarrow> fold (\<lambda>x m. min m (f x)) xs m \<le> f x"
proof -
  show 1: "fold (\<lambda>x m. min m (f x)) xs m \<le> m" for m xs
  proof (induction xs arbitrary: m)
    case (Cons y ys)
    then show ?case using Cons.IH [of "min m (f y)"] by auto
  qed simp
  show "x \<in> set xs \<Longrightarrow> fold (\<lambda>x m. min m (f x)) xs m \<le> f x"
  proof (induction xs arbitrary: m)
    case (Cons y ys)
    then show ?case using 1 [of ys "min m (f y)"] by auto
  qed simp
qed

lemma fold_min_in:
  fixes f :: "'a \<Rightarrow> 'b :: linorder"
  shows "fold (\<lambda>x m. min m (f x)) xs m \<in> insert m (f ` set xs)"
proof (induction xs arbitrary: m)
  case (Cons y ys)
  then show ?case using Cons.IH [of "min m (f y)"] by (auto simp: min_def split: if_splits)
qed simp

text \<open>The smallest namespace, in I/Os.\<close>

lemma min_size_spec:
  assumes "ctxs_ok s"
  obtains m where "get_min_size_in_ios s = Some m" "m \<noteq> 0" "\<forall>x \<in> set (namespaces s). m \<le> size_in_ios x"
    "m \<in> size_in_ios ` set (namespaces s)"
proof -
  obtain x xs where ns: "namespaces s = x # xs" using assms by (auto simp: ctxs_ok_def neq_Nil_conv)
  let ?m = "fold (\<lambda>x m. min m (size_in_ios x)) (x # xs) (size_in_ios x)"
  have "?m \<in> size_in_ios ` set (namespaces s)"
    using fold_min_in [of size_in_ios "x # xs" "size_in_ios x"] ns by auto
  moreover have "\<forall>y \<in> set (namespaces s). ?m \<le> size_in_ios y"
    using foldl_min_le(2) [of _ "x # xs" size_in_ios "size_in_ios x"] ns by auto
  moreover have "get_min_size_in_ios s = Some ?m" using ns by (simp add: get_min_size_in_ios_def)
  ultimately show ?thesis using that [of ?m] assms by (auto simp: ctxs_ok_def)
qed

lemma replica_cmd_cong:
  assumes "same_shape s s'" and "ctxs_ok s" and "t_ns_ctx (task_mem s a) < length (ns_ctxs s)"
    and "last_qpair (ns_ctxs s' ! t_ns_ctx (task_mem s a)) = last_qpair (ns_ctxs s ! t_ns_ctx (task_mem s a))"
  shows "replica_cmd s' off rd a = replica_cmd s off rd a"
proof -
  let ?i = "t_ns_ctx (task_mem s a)"
  have "io_size_blocks (namespaces s' ! entry (ns_ctxs s ! ?i)) =
    io_size_blocks (namespaces s ! entry (ns_ctxs s ! ?i))"
    by (rule same_shape_ns_fields(2) [OF assms(1) ctxs_ok_entry [OF assms(2,3)]])
  then show ?thesis
    using assms(4) same_shape_entry [OF assms(1,3)] same_shape_heap [OF assms(1)] same_shape_task [OF assms(1)]
    by (simp add: replica_cmd_def Let_def)
qed

lemma replica_cmd_same_work:
  assumes "same_work s s'" and "ctxs_ok s" and "t_ns_ctx (task_mem s a) < length (ns_ctxs s)"
  shows "replica_cmd s' off rd a = replica_cmd s off rd a"
proof -
  let ?i = "t_ns_ctx (task_mem s a)"
  have c: "(ns_ctxs s' ! ?i)\<lparr>offset_in_ios := 0\<rparr> = (ns_ctxs s ! ?i)\<lparr>offset_in_ios := 0\<rparr>"
    using assms(1,3) by (simp add: same_work_def)
  have "last_qpair (ns_ctxs s' ! ?i) = last_qpair (ns_ctxs s ! ?i)"
    using arg_cong [OF c, of last_qpair] by simp
  then show ?thesis by (rule replica_cmd_cong [OF same_work_shape [OF assms(1)] assms(2,3)])
qed

lemma group_dest:
  assumes "replica_group s main xs"
  shows "linked s (RepTasks main) xs" "main \<in> set xs" "\<forall>a \<in> set xs. task_ok s main a" "task_ok s main main"
    "distinct (map (\<lambda>a. t_ns_ctx (task_mem s a)) xs)" "distinct xs" "\<forall>a \<in> set xs. live s a"
    "\<forall>a \<in> set xs. t_ns_ctx (task_mem s a) < length (ns_ctxs s)"
  using assms linked_distinct by (auto simp: replica_group_def task_ok_def Let_def)

text \<open>The loop of a submission, on the list that the links represent.\<close>

lemma submit_loop:
  assumes "accepting e" and "ctxs_ok s" and "replica_group s main xs"
  shows "tailq_foreach (submit_replica e g off rd) (hd_opt xs) s = Some (fold (submitted e g off rd) xs s)"
    and "same_shape s (fold (submitted e g off rd) xs s)"
proof -
  note g = group_dest [OF assms(3)]
  have "tailq_foreach (submit_replica e g off rd) (hd_opt xs) s = foldM (submit_replica e g off rd) xs s"
  proof (rule tailq_foreach_foldM [where P = "same_shape s" and h = "RepTasks main" and as = "[]"])
    show "linked s (RepTasks main) ([] @ xs)" using g(1) by simp
    show "same_shape s t'" if "a \<in> set xs" "same_shape s t" "submit_replica e g off rd a t = Some t'" for a t t'
    proof -
      have ok: "task_ok t main a" using g(3) that(1) by (simp add: same_shape_ok(1) [OF that(2)])
      then have "t' = submitted e g off rd a t"
        using that(3) submit_replica_accepted [OF assms(1) same_shape_ctxs_ok [OF that(2) assms(2)] ok] by simp
      then show ?thesis using same_shape_trans [OF that(2) submitted_same_shape [OF task_ok_ctx [OF ok]]] by simp
    qed
    show "links t = links s \<and> live t = live s" if "same_shape s t" for t
      using same_shape_heap [OF that] by simp
  qed (use g in auto)
  then show "tailq_foreach (submit_replica e g off rd) (hd_opt xs) s = Some (fold (submitted e g off rd) xs s)"
    using submit_all [OF assms(1,2) g(3)] by simp
  show "same_shape s (fold (submitted e g off rd) xs s)" using submit_all [OF assms(1,2) g(3)] by simp
qed

text \<open>
  The sequential workload: the offset of a submission is the counter of the main context, which
  then goes up by one or back to 0 at the I/O count of the smallest namespace; the counters of
  the other contexts stay.
\<close>

definition seq_step :: "globals \<Rightarrow> perf \<Rightarrow> addr \<Rightarrow> u64 \<Rightarrow> perf \<Rightarrow> bool" where
  "seq_step g s main off s' \<longleftrightarrow>
     (let i = t_ns_ctx (task_mem s main)
      in sequential g s i \<longrightarrow> off = offset_in_ios (ns_ctxs s ! i) \<and>
        (\<forall>j < length (ns_ctxs s). offset_in_ios (ns_ctxs s' ! j) =
           (if j \<noteq> i then offset_in_ios (ns_ctxs s ! j)
            else if Some (off + 1) = get_min_size_in_ios s then 0 else off + 1)))"

lemma submit_group:
  assumes "accepting e" and "ctxs_ok s" and "replica_group s main xs"
    and "\<not> is_draining (ns_ctxs s ! t_ns_ctx (task_mem s main))"
  obtains off rd s1 where "same_work s s1"
    "submit_single_io_rep e g main s = Some (fold (submitted e g off rd) xs s1)"
    "same_shape s (fold (submitted e g off rd) xs s1)" "seq_step g s main off s1"
proof -
  let ?i = "t_ns_ctx (task_mem s main)"
  note g = group_dest [OF assms(3)]
  have i: "?i < length (ns_ctxs s)" by (rule task_ok_ctx [OF g(4)])
  have m: "main \<noteq> 0" "live s main" using g(4) by (simp_all add: task_ok_def Let_def)
  obtain n where n: "get_min_size_in_ios s = Some n" using min_size_spec [OF assms(2)] by blast
  obtain off s0 where s0: "pick_offset e g ?i n s = Some (off, s0)" "same_work s s0"
    using pick_offset_spec [OF assms(2) i] by blast
  have sh0: "same_shape s s0" by (rule same_work_shape [OF s0(2)])
  obtain rd s1 where s1: "pick_is_read e g ?i s0 = Some (rd, s1)" "same_work s0 s1" "ns_ctxs s1 = ns_ctxs s0"
    using pick_is_read_spec [OF same_shape_ctxs_ok [OF sh0 assms(2)]] i same_shape_lengths(1) [OF sh0] by metis
  have w: "same_work s s1" by (rule same_work_trans [OF s0(2) s1(2)])
  note sh = same_work_shape [OF w]
  have "tailq_first (RepTasks main) s1 = Some (hd_opt xs)"
    using m same_shape_heap [OF sh] linked_first [OF g(1)] by (simp add: tailq_first_def)
  moreover have "replica_group s1 main xs" using assms(3) by (simp add: same_shape_ok(3) [OF sh])
  note loop = submit_loop [OF assms(1) same_shape_ctxs_ok [OF sh assms(2)] this]
  ultimately have "submit_single_io_rep e g main s = Some (fold (submitted e g off rd) xs s1)"
    using i m n s0(1) s1(1) assms(4) by (simp add: submit_single_io_rep_def read_task_def read_ctx_def)
  moreover have "seq_step g s main off s1"
    using pick_offset_sequential [OF assms(2) i, of g e n] s0(1) s1(3) i n by (auto simp: seq_step_def Let_def)
  ultimately show ?thesis using that w same_shape_trans [OF sh loop(2)] by blast
qed

lemma same_work_dest:
  assumes "same_work s s'"
  shows "task_mem s' = task_mem s" "inflight s' = inflight s" "issued s' = issued s" "n_driver s' = n_driver s"
  using assms by (simp_all add: same_work_def)

lemma submitted_ctx_offset:
  assumes "(c :: ns_worker_ctx)\<lparr>offset_in_ios := 0\<rparr> = d\<lparr>offset_in_ios := 0\<rparr>"
  shows "current_queue_depth c = current_queue_depth d" "stats c = stats d" "is_draining c = is_draining d"
    "last_qpair c = last_qpair d" "histogram c = histogram d"
  using arg_cong [OF assms, of current_queue_depth] arg_cong [OF assms, of stats]
    arg_cong [OF assms, of is_draining] arg_cong [OF assms, of last_qpair]
    arg_cong [OF assms, of histogram] by simp_all

definition in_group :: "perf \<Rightarrow> addr list \<Rightarrow> nat \<Rightarrow> u64" where
  "in_group s xs i = (if i \<in> (\<lambda>a. t_ns_ctx (task_mem s a)) ` set xs then 1 else 0)"

text \<open>All effects of a submission, as one relation between the states before and after.\<close>

definition submission :: "globals \<Rightarrow> perf \<Rightarrow> addr list \<Rightarrow> u64 \<Rightarrow> bool \<Rightarrow> perf \<Rightarrow> bool" where
  "submission g s xs off rd s' \<longleftrightarrow> same_shape s s' \<and> inflight s' = inflight s @ xs \<and>
     issued s' = issued s @ map (replica_cmd s off rd) xs \<and>
     (\<forall>a. t_io_id (task_mem s' a) = t_io_id (task_mem s a) \<and>
        t_rep_completed_num (task_mem s' a) = t_rep_completed_num (task_mem s a)) \<and>
     (\<forall>a \<in> set xs. t_offset_in_ios (task_mem s' a) = off \<and> t_is_read (task_mem s' a) = rd) \<and>
     (\<forall>i < length (ns_ctxs s). let c = ns_ctxs s ! i; c' = ns_ctxs s' ! i in
        current_queue_depth c' = current_queue_depth c + in_group s xs i \<and>
        io_submitted (stats c') = io_submitted (stats c) + in_group s xs i \<and>
        histogram c' = histogram c \<and>
        (is_draining c' \<longrightarrow> is_draining c \<or> g_number_ios g \<noteq> 0))"

lemma submit_group_submission:
  assumes "accepting e" and "ctxs_ok s" and "replica_group s main xs"
    and "\<not> is_draining (ns_ctxs s ! t_ns_ctx (task_mem s main))"
  obtains off rd s' where "submit_single_io_rep e g main s = Some s'" "submission g s xs off rd s'"
    "seq_step g s main off s'"
proof -
  note g = group_dest [OF assms(3)]
  obtain off rd s1 where w: "same_work s s1"
    and sub: "submit_single_io_rep e g main s = Some (fold (submitted e g off rd) xs s1)"
    and sh: "same_shape s (fold (submitted e g off rd) xs s1)"
    and sq: "seq_step g s main off s1"
    using submit_group [OF assms] by metis
  let ?s' = "fold (submitted e g off rd) xs s1"
  note t = same_work_dest [OF w] and len = same_shape_lengths(1) [OF same_work_shape [OF w]]
  have iss: "issued ?s' = issued s @ map (replica_cmd s off rd) xs"
  proof -
    have "map (replica_cmd s1 off rd) xs = map (replica_cmd s off rd) xs"
      using replica_cmd_same_work [OF w assms(2)] g(8) by simp
    then show ?thesis using fold_submitted_issued [of s1 xs] g(5) by (simp add: t)
  qed
  have at: "ns_ctxs ?s' ! i = (if in_group s xs i = 1 then submitted_ctx g (ns_ctxs s1 ! i) else ns_ctxs s1 ! i)"
    if "i < length (ns_ctxs s)" for i
    using fold_submitted_ctx [of s1 xs i e g off rd] g(5,8) that by (simp add: t len in_group_def)
  have ctx: "let c = ns_ctxs s ! i; c' = ns_ctxs ?s' ! i in
        current_queue_depth c' = current_queue_depth c + in_group s xs i \<and>
        io_submitted (stats c') = io_submitted (stats c) + in_group s xs i \<and>
        histogram c' = histogram c \<and>
        (is_draining c' \<longrightarrow> is_draining c \<or> g_number_ios g \<noteq> 0)"
    if i: "i < length (ns_ctxs s)" for i
  proof -
    have "(ns_ctxs s1 ! i)\<lparr>offset_in_ios := 0\<rparr> = (ns_ctxs s ! i)\<lparr>offset_in_ios := 0\<rparr>"
      using w i by (simp add: same_work_def)
    note c = submitted_ctx_offset [OF this]
    show ?thesis using at [OF i] by (auto simp: c submitted_ctx_def in_group_def Let_def)
  qed
  have "offset_in_ios (ns_ctxs ?s' ! j) = offset_in_ios (ns_ctxs s1 ! j)" if "j < length (ns_ctxs s)" for j
    using at [OF that] by (simp add: submitted_ctx_def)
  then have "seq_step g s main off ?s'" using sq by (simp add: seq_step_def Let_def)
  moreover have "submission g s xs off rd ?s'"
    using sh fold_submitted_inflight [of e g off rd xs s1] iss ctx
    by (simp add: submission_def t fold_submitted_work)
  ultimately show ?thesis using that sub by blast
qed


end
