(* ===== verification/Perf_Barrier.thy ===== *)
theory Perf_Barrier
  imports Perf_Group
begin

text \<open>
  The completion barrier of the replica groups: the invariant that relates the completion
  counter of each group to the commands in flight, its preservation by every completion, and
  the consequences for every run.
\<close>

section \<open>Running states\<close>

text \<open>No namespace is draining and the histograms are well formed.\<close>

definition ctx_running :: "ns_worker_ctx \<Rightarrow> bool" where
  "ctx_running c \<longleftrightarrow> hist_inv (histogram c) \<and> \<not> is_draining c"

definition running :: "perf \<Rightarrow> bool" where
  "running s \<longleftrightarrow> ctxs_ok s \<and> (\<forall>c \<in> set (ns_ctxs s). ctx_running c)"

lemma running_nth:
  "running s \<longleftrightarrow> ctxs_ok s \<and> (\<forall>i < length (ns_ctxs s). ctx_running (ns_ctxs s ! i))"
  by (simp add: running_def all_set_conv_all_nth)

lemma running_dest:
  assumes "running s" and "i < length (ns_ctxs s)"
  shows "ctxs_ok s" "\<not> is_draining (ns_ctxs s ! i)" "hist_inv (histogram (ns_ctxs s ! i))"
  using assms by (auto simp: running_nth ctx_running_def)

lemma tally_inv:
  assumes "hist_inv h"
  shows "\<exists>h'. histogram_data_tally h d = Some h' \<and> hist_inv h'"
  using tally_eq [OF assms] hist_inv_upd [OF assms] by simp

section \<open>The steps of a completion\<close>

text \<open>Accounting for the completed command touches only the counters of its context.\<close>

definition accounted :: "perf \<Rightarrow> nat \<Rightarrow> perf \<Rightarrow> bool" where
  "accounted s i s' \<longleftrightarrow> same_shape s s' \<and> task_mem s' = task_mem s \<and> inflight s' = inflight s \<and>
     issued s' = issued s \<and>
     (\<forall>j < length (ns_ctxs s). let c = ns_ctxs s ! j; c' = ns_ctxs s' ! j in
        current_queue_depth c' = current_queue_depth c - (if j = i then 1 else 0) \<and>
        io_completed (stats c') = io_completed (stats c) + (if j = i then 1 else 0) \<and>
        io_submitted (stats c') = io_submitted (stats c) \<and>
        last_qpair c' = last_qpair c \<and> is_draining c' = is_draining c \<and> offset_in_ios c' = offset_in_ios c)"

lemma account_completion_spec:
  assumes "running s" and "task_ok s main a"
  obtains s' where "account_completion e g a s = Some s'" "accounted s (t_ns_ctx (task_mem s a)) s'" "running s'"
proof -
  let ?t = "task_mem s a"
  let ?i = "t_ns_ctx ?t" and ?d = "ticks e (n_tick s) - t_submit_tsc ?t"
  let ?c = "ns_ctxs s ! ?i"
  have i: "?i < length (ns_ctxs s)" and a: "a \<noteq> 0" "live s a"
    using assms(2) by (simp_all add: task_ok_def Let_def)
  note r = running_dest [OF assms(1) i]
  obtain h where h: "(if g_latency_sw_tracking_level g > 0 then histogram_data_tally (histogram ?c) ?d
      else Some (histogram ?c)) = Some h" "hist_inv h"
    using tally_inv [OF r(3), of ?d] r(3) by (cases "g_latency_sw_tracking_level g > 0") auto
  define c' where "c' = ?c\<lparr>current_queue_depth := current_queue_depth ?c - 1, histogram := h,
        stats := (stats ?c)\<lparr>io_completed := io_completed (stats ?c) + 1,
          total_tsc := total_tsc (stats ?c) + ?d,
          min_tsc := (if min_tsc (stats ?c) > ?d then ?d else min_tsc (stats ?c)),
          max_tsc := (if max_tsc (stats ?c) < ?d then ?d else max_tsc (stats ?c))\<rparr>\<rparr>"
  let ?s' = "s\<lparr>n_tick := n_tick s + 1, ns_ctxs := (ns_ctxs s)[?i := c']\<rparr>"
  have "account_completion e g a s = Some ?s'"
    using a i h(1) by (simp add: account_completion_def read_task_def get_ticks_def read_ctx_def
      write_ctx_def c'_def Let_def)
  moreover have "map entry ((ns_ctxs s)[?i := c']) = map entry (ns_ctxs s)"
    using i by (intro nth_equalityI) (auto simp: nth_list_update c'_def)
  then have sh: "same_shape s ?s'" by (simp add: same_shape_def)
  then have "accounted s ?i ?s'" using i by (auto simp: accounted_def nth_list_update c'_def Let_def)
  moreover have "running ?s'"
    using same_shape_ctxs_ok [OF sh r(1)] assms(1) h(2) r(2) i
    by (auto simp: running_nth nth_list_update ctx_running_def c'_def)
  ultimately show ?thesis using that by blast
qed

definition set_io_id :: "u32 \<Rightarrow> addr \<Rightarrow> perf \<Rightarrow> perf" where
  "set_io_id io_id a s = s\<lparr>task_mem := (task_mem s)(a := (task_mem s a)\<lparr>t_io_id := io_id\<rparr>)\<rparr>"

definition set_completed :: "u32 \<Rightarrow> addr \<Rightarrow> perf \<Rightarrow> perf" where
  "set_completed n a s = s\<lparr>task_mem := (task_mem s)(a := (task_mem s a)\<lparr>t_rep_completed_num := n\<rparr>)\<rparr>"

lemma same_shape_updates [simp]: "same_shape s (set_io_id n a s)" "same_shape s (set_completed n a s)"
  by (simp_all add: same_shape_def set_io_id_def set_completed_def task_shape_def)

lemma updates_frame [simp]:
  "inflight (set_io_id n a s) = inflight s" "issued (set_io_id n a s) = issued s" "ns_ctxs (set_io_id n a s) = ns_ctxs s"
  "inflight (set_completed k a s) = inflight s" "issued (set_completed k a s) = issued s"
  "ns_ctxs (set_completed k a s) = ns_ctxs s"
  by (simp_all add: set_io_id_def set_completed_def)

lemma renumber_simps [simp]:
  "renumber_replicas main io_id None s = Some (Inl s)"
  "renumber_replicas main io_id (Some a) s = Option.bind (read_task a s) (\<lambda>t.
     Option.bind (read_ctx (t_ns_ctx t) s) (\<lambda>ctx.
       if is_draining ctx then map_option Inr (rep_task_release main s)
       else Option.bind (write_task a (\<lambda>t. t\<lparr>t_io_id := io_id\<rparr>) s) (\<lambda>s'.
            Option.bind (tailq_next a s') (\<lambda>p'. renumber_replicas main io_id p' s'))))"
  by (subst renumber_replicas.simps, simp)+

lemma running_same_ctxs:
  assumes "running s" and "same_shape s s'" and "ns_ctxs s' = ns_ctxs s"
  shows "running s'"
  using assms same_shape_ctxs_ok by (auto simp: running_def)

lemma renumber_running:
  assumes "running s" and "linked s (RepTasks main) (as @ bs)" and "\<forall>a \<in> set bs. task_ok s main a"
  shows "renumber_replicas main io_id (hd_opt bs) s = Some (Inl (fold (set_io_id io_id) bs s))"
  using assms
proof (induction bs arbitrary: as s)
  case Nil
  show ?case by simp
next
  case (Cons b bs)
  let ?t = "set_io_id io_id b s"
  have b: "task_ok s main b" using Cons.prems(3) by simp
  then have nz: "b \<noteq> 0" "live s b" "t_ns_ctx (task_mem s b) < length (ns_ctxs s)"
    by (simp_all add: task_ok_def Let_def)
  have sh: "same_shape s ?t" by simp
  have nxt: "tailq_next b ?t = Some (hd_opt bs)"
    using linked_next [OF Cons.prems(2)] nz(2) same_shape_heap [OF sh] by (simp add: tailq_next_def)
  have "linked ?t (RepTasks main) ((as @ [b]) @ bs)"
    using Cons.prems(2) by (simp add: same_shape_ok(2) [OF sh])
  moreover have "\<forall>a \<in> set bs. task_ok ?t main a" using Cons.prems(3) by (simp add: same_shape_ok(1) [OF sh])
  moreover have "running ?t" using running_same_ctxs [OF Cons.prems(1) sh] by simp
  ultimately have "renumber_replicas main io_id (hd_opt bs) ?t = Some (Inl (fold (set_io_id io_id) bs ?t))"
    by (intro Cons.IH)
  moreover have "write_task b (\<lambda>t. t\<lparr>t_io_id := io_id\<rparr>) s = Some ?t"
    using nz by (simp add: write_task_def set_io_id_def)
  ultimately show ?case using nz nxt running_dest(2) [OF Cons.prems(1) nz(3)]
    by (simp add: read_task_def read_ctx_def)
qed

lemma fold_set_io_id:
  "same_shape s (fold (set_io_id n) xs s)"
  "inflight (fold (set_io_id n) xs s) = inflight s" "issued (fold (set_io_id n) xs s) = issued s"
  "ns_ctxs (fold (set_io_id n) xs s) = ns_ctxs s" "namespaces (fold (set_io_id n) xs s) = namespaces s"
  "task_mem (fold (set_io_id n) xs s) a = (if a \<in> set xs then (task_mem s a)\<lparr>t_io_id := n\<rparr> else task_mem s a)"
proof -
  show "same_shape s (fold (set_io_id n) xs s)"
  proof (induction xs arbitrary: s)
    case (Cons x xs)
    show ?case using same_shape_trans [OF _ Cons.IH [of "set_io_id n x s"], of s] by simp
  qed simp
qed (induction xs arbitrary: s; auto simp: set_io_id_def)+

text \<open>The state after the completion counter of the group has gone up.\<close>

definition counted :: "perf \<Rightarrow> addr \<Rightarrow> addr \<Rightarrow> perf \<Rightarrow> bool" where
  "counted s main a s' \<longleftrightarrow> (\<exists>s1. accounted s (t_ns_ctx (task_mem s a)) s1 \<and> running s1 \<and>
     s' = set_completed (t_rep_completed_num (task_mem s main) + 1) main s1)"

lemma task_complete_unfold:
  assumes "running s" and "replica_group s main xs" and "a \<in> set xs"
  obtains s2 where "counted s main a s2"
    "task_complete e g a s =
       (if t_rep_completed_num (task_mem s main) + 1 < g_rep_num g then Some s2
        else submit_single_io_rep e g main
          (fold (set_io_id (next_io_id g (t_io_id (task_mem s main)))) xs (set_completed 0 main s2)))"
proof -
  note g = group_dest [OF assms(2)]
  have a: "task_ok s main a" using g(3) assms(3) by simp
  obtain s1 where s1: "account_completion e g a s = Some s1" "accounted s (t_ns_ctx (task_mem s a)) s1" "running s1"
    using account_completion_spec [OF assms(1) a] by blast
  have sh: "same_shape s s1" and tm: "task_mem s1 = task_mem s" using s1(2) by (simp_all add: accounted_def)
  define s2 where "s2 = set_completed (t_rep_completed_num (task_mem s main) + 1) main s1"
  let ?s3 = "set_completed 0 main s2"
  have sh3: "same_shape s ?s3"
    using same_shape_trans [OF sh same_shape_trans [OF same_shape_updates(2) same_shape_updates(2)]] by (simp add: s2_def)
  have "same_shape s1 ?s3" 
    unfolding s2_def by (rule same_shape_trans [OF same_shape_updates(2) same_shape_updates(2)])
  then have r3: "running ?s3" using running_same_ctxs [OF s1(3), of ?s3] by (simp add: s2_def)
  have lv: "live s1 = live s" "live s2 = live s" "live ?s3 = live s"
    using same_shape_heap [OF sh] by (simp_all add: s2_def set_completed_def)
  have m: "a \<noteq> 0" "live s a" "main \<noteq> 0" "live s main" "t_main_task (task_mem s a) = main"
    using a g(4) by (simp_all add: task_ok_def Let_def)
  have "tailq_first (RepTasks main) ?s3 = Some (hd_opt xs)"
    using m(4) same_shape_heap [OF sh3] linked_first [OF g(1)] by (simp add: tailq_first_def)
  moreover have "renumber_replicas main n (hd_opt xs) ?s3 = Some (Inl (fold (set_io_id n) xs ?s3))" for n
    using renumber_running [OF r3, of main "[]" xs n] g(1,3) by (simp add: same_shape_ok [OF sh3])
  moreover have "write_task main (\<lambda>m. m\<lparr>t_rep_completed_num := t_rep_completed_num m + 1\<rparr>) s1 = Some s2"
    "write_task main (\<lambda>m. m\<lparr>t_rep_completed_num := 0\<rparr>) s2 = Some ?s3"
    using m lv tm by (simp_all add: write_task_def s2_def set_completed_def)
  moreover have "read_task a s1 = Some (task_mem s a)"
    "read_task main s2 = Some ((task_mem s main)\<lparr>t_rep_completed_num := t_rep_completed_num (task_mem s main) + 1\<rparr>)"
    using m lv tm by (simp_all add: read_task_def s2_def set_completed_def)
  ultimately have "task_complete e g a s =
       (if t_rep_completed_num (task_mem s main) + 1 < g_rep_num g then Some s2
        else submit_single_io_rep e g main (fold (set_io_id (next_io_id g (t_io_id (task_mem s main)))) xs ?s3))"
    using s1(1) m(5) by (simp add: task_complete_def Let_def)
  then show ?thesis using that s1(2,3) s2_def by (auto simp: counted_def)
qed

text \<open>The result of a completed command that lets the run go on.\<close>

definition keeps_running :: "globals \<Rightarrow> spdk_nvme_status \<Rightarrow> bool" where
  "keeps_running g st \<longleftrightarrow> g_continue_on_error g \<or> \<not> (sct st = 0 \<and> sc st = 11)"

lemma io_complete_unfold:
  assumes "running s" and "task_ok s main a" and "keeps_running g st"
  obtains s0 where "io_complete e g a st s = task_complete e g a s0" "accounted s (length (ns_ctxs s)) s0" "running s0"
proof (cases "cpl_is_error st \<and> \<not> g_continue_on_error g")
  case False
  have "accounted s (length (ns_ctxs s)) s" by (simp add: accounted_def Let_def)
  moreover have "io_complete e g a st s = task_complete e g a s" using False by (auto simp: io_complete_def)
  ultimately show ?thesis using that assms(1) by blast
next
  case True
  let ?i = "t_ns_ctx (task_mem s a)"
  let ?c = "(ns_ctxs s ! ?i)\<lparr>status := 1\<rparr>"
  let ?s0 = "s\<lparr>ns_ctxs := (ns_ctxs s)[?i := ?c]\<rparr>"
  have i: "?i < length (ns_ctxs s)" and a: "a \<noteq> 0" "live s a" using assms(2) by (simp_all add: task_ok_def Let_def)
  have "sct st = 0 \<longrightarrow> sc st \<noteq> 11" using True assms(3) by (auto simp: keeps_running_def)
  then have "io_complete e g a st s = task_complete e g a ?s0"
    using True a i by (auto simp: io_complete_def read_task_def write_ctx_def)
  moreover have "map entry ((ns_ctxs s)[?i := ?c]) = map entry (ns_ctxs s)"
    using i by (intro nth_equalityI) (auto simp: nth_list_update)
  then have sh: "same_shape s ?s0" by (simp add: same_shape_def)
  moreover have "accounted s (length (ns_ctxs s)) ?s0" using i sh by (auto simp: accounted_def nth_list_update Let_def)
  moreover have "running ?s0" using same_shape_ctxs_ok [OF sh] assms(1) i
    by (auto simp: running_nth nth_list_update ctx_running_def)
  ultimately show ?thesis using that by blast
qed

section \<open>The barrier invariant\<close>

definition in_flight :: "perf \<Rightarrow> addr list \<Rightarrow> nat" where
  "in_flight s xs = length (filter (\<lambda>a. a \<in> set (inflight s)) xs)"

definition load :: "perf \<Rightarrow> nat \<Rightarrow> nat" where
  "load s i = length (filter (\<lambda>a. t_ns_ctx (task_mem s a) = i) (inflight s))"

text \<open>
  For every group: the completion counter plus the number of its commands in flight is the
  number of replicas, and some command is in flight. For every namespace context: the queue
  depth is the number of its commands in flight. The groups are pairwise disjoint, and every
  command in flight belongs to one of them.
\<close>

definition same_io_id :: "perf \<Rightarrow> addr \<Rightarrow> addr list \<Rightarrow> bool" where
  "same_io_id s main xs \<longleftrightarrow> (\<forall>a \<in> set xs. t_io_id (task_mem s a) = t_io_id (task_mem s main))"

fun group_inv :: "globals \<Rightarrow> perf \<Rightarrow> addr \<times> addr list \<Rightarrow> bool" where
  "group_inv g s (main, xs) = (replica_group s main xs \<and> length xs = unat (g_rep_num g) \<and>
     unat (t_rep_completed_num (task_mem s main)) + in_flight s xs = length xs \<and> 0 < in_flight s xs \<and>
     same_io_id s main xs)"

declare group_inv.simps [simp del]

definition depth_inv :: "perf \<Rightarrow> bool" where
  "depth_inv s \<longleftrightarrow> (\<forall>i < length (ns_ctxs s). current_queue_depth (ns_ctxs s ! i) = of_nat (load s i))"

definition barrier_inv :: "globals \<Rightarrow> (addr \<times> addr list) list \<Rightarrow> perf \<Rightarrow> bool" where
  "barrier_inv g gs s \<longleftrightarrow> running s \<and> depth_inv s \<and> (\<forall>p \<in> set gs. group_inv g s p) \<and>
     distinct (concat (map snd gs)) \<and> distinct (inflight s) \<and> set (inflight s) \<subseteq> set (concat (map snd gs))"

lemma distinct_concat_disjoint:
  assumes "distinct (concat (map snd gs))" and "(m, xs) \<in> set gs" and "(m', ys) \<in> set gs" and "(m', ys) \<noteq> (m, xs)"
  shows "set xs \<inter> set ys = {}"
  using assms by (induction gs) force+

lemma in_flight_remove:
  assumes "distinct (inflight s)" and "distinct xs" and "inflight s' = remove1 a (inflight s)" and "a \<in> set (inflight s)"
  shows "in_flight s xs = in_flight s' xs + (if a \<in> set xs then 1 else 0)"
  using assms(2)
proof (induction xs)
  case (Cons x xs)
  have "set (inflight s') = set (inflight s) - {a}" using assms(1,3) by simp
  then show ?case using Cons assms(4) by (auto simp: in_flight_def)
qed (simp add: in_flight_def)

lemma load_remove:
  assumes "inflight s' = remove1 a (inflight s)" and "a \<in> set (inflight s)"
    and "\<forall>b. t_ns_ctx (task_mem s' b) = t_ns_ctx (task_mem s b)"
  shows "load s i = load s' i + (if t_ns_ctx (task_mem s a) = i then 1 else 0)"
proof -
  obtain us vs where "inflight s = us @ a # vs" "a \<notin> set us" using assms(2) split_list_first by metis
  then show ?thesis using assms(1,3) by (simp add: load_def remove1_append)
qed

lemma accounted_trans:
  assumes "accounted s (length (ns_ctxs s)) s0" and "accounted s0 i s1"
  shows "accounted s i s1"
proof -
  have sh: "same_shape s s0" "same_shape s0 s1" using assms by (simp_all add: accounted_def)
  note len = same_shape_lengths(1) [OF sh(1)]
  show ?thesis using assms same_shape_trans [OF sh] by (simp add: accounted_def len Let_def)
qed

lemma completion_unfold:
  assumes "running s" and "replica_group s main xs" and "a \<in> set xs" and "keeps_running g st"
  obtains s2 where "counted s main a s2"
    "io_complete e g a st s =
       (if t_rep_completed_num (task_mem s main) + 1 < g_rep_num g then Some s2
        else submit_single_io_rep e g main
          (fold (set_io_id (next_io_id g (t_io_id (task_mem s main)))) xs (set_completed 0 main s2)))"
proof -
  have a: "task_ok s main a" using group_dest(3) [OF assms(2)] assms(3) by simp
  obtain s0 where s0: "io_complete e g a st s = task_complete e g a s0" "accounted s (length (ns_ctxs s)) s0" "running s0"
    using io_complete_unfold [OF assms(1) a assms(4)] by blast
  have sh: "same_shape s s0" and tm: "task_mem s0 = task_mem s" using s0(2) by (simp_all add: accounted_def)
  have "replica_group s0 main xs" using assms(2) by (simp add: same_shape_ok(3) [OF sh])
  then obtain s2 where s2: "counted s0 main a s2"
    "task_complete e g a s0 =
       (if t_rep_completed_num (task_mem s0 main) + 1 < g_rep_num g then Some s2
        else submit_single_io_rep e g main
          (fold (set_io_id (next_io_id g (t_io_id (task_mem s0 main)))) xs (set_completed 0 main s2)))"
    using task_complete_unfold [OF s0(3) _ assms(3)] by blast
  have "counted s main a s2" using s2(1) accounted_trans [OF s0(2)] by (auto simp: counted_def tm)
  then show ?thesis using that s2(2) s0(1) by (simp add: tm)
qed

text \<open>A group that a step does not touch keeps its part of the invariant.\<close>

lemma group_inv_frame:
  assumes "group_inv g s (main, xs)" and "same_shape s s'"
    and "\<forall>b \<in> set xs. t_io_id (task_mem s' b) = t_io_id (task_mem s b) \<and>
      t_rep_completed_num (task_mem s' b) = t_rep_completed_num (task_mem s b) \<and>
      (b \<in> set (inflight s') \<longleftrightarrow> b \<in> set (inflight s))"
  shows "group_inv g s' (main, xs)"
proof -
  have "replica_group s main xs" using assms(1) by (simp add: group_inv.simps)
  then have m: "main \<in> set xs" by (rule group_dest(2))
  have "filter (\<lambda>a. a \<in> set (inflight s')) xs = filter (\<lambda>a. a \<in> set (inflight s)) xs"
    using assms(3) by (intro filter_cong) auto
  then have "in_flight s' xs = in_flight s xs" by (simp add: in_flight_def)
  moreover have "same_io_id s' main xs"
    unfolding same_io_id_def
  proof
    fix b assume "b \<in> set xs"
    then have "t_io_id (task_mem s' b) = t_io_id (task_mem s b)" using assms(3) by blast
    also have "\<dots> = t_io_id (task_mem s main)"
      using assms(1) \<open>b \<in> set xs\<close> unfolding group_inv.simps same_io_id_def by blast
    also have "\<dots> = t_io_id (task_mem s' main)" using assms(3) m by metis
    finally show "t_io_id (task_mem s' b) = t_io_id (task_mem s' main)" .
  qed
  ultimately show ?thesis
    using assms(1) bspec [OF assms(3) m] by (simp add: group_inv.simps same_shape_ok(3) [OF assms(2)])
qed

lemma counted_dest:
  assumes "counted s main a s2"
  shows "same_shape s s2" "inflight s2 = inflight s" "issued s2 = issued s" "running s2"
    "task_mem s2 = (task_mem s)(main := (task_mem s main)\<lparr>t_rep_completed_num := t_rep_completed_num (task_mem s main) + 1\<rparr>)"
    "\<forall>j < length (ns_ctxs s). current_queue_depth (ns_ctxs s2 ! j) =
       current_queue_depth (ns_ctxs s ! j) - (if j = t_ns_ctx (task_mem s a) then 1 else 0)"
    "\<forall>j < length (ns_ctxs s). last_qpair (ns_ctxs s2 ! j) = last_qpair (ns_ctxs s ! j)"
    "\<forall>j < length (ns_ctxs s). offset_in_ios (ns_ctxs s2 ! j) = offset_in_ios (ns_ctxs s ! j)"
proof -
  obtain s1 where s1: "accounted s (t_ns_ctx (task_mem s a)) s1" "running s1"
     "s2 = set_completed (t_rep_completed_num (task_mem s main) + 1) main s1" using assms by (auto simp: counted_def)
  have "same_shape s s1" using s1(1) by (simp add: accounted_def)
  then show "same_shape s s2" unfolding s1(3) by (rule same_shape_trans) simp
  show "running s2" using running_same_ctxs [OF s1(2), of s2] by (simp add: s1(3))
qed (use assms in \<open>auto simp: counted_def accounted_def set_completed_def Let_def\<close>)

lemma counted_depth:
  assumes "depth_inv s" and "a \<in> set (inflight s)" and "counted (s\<lparr>inflight := remove1 a (inflight s)\<rparr>) main a s2"
  shows "depth_inv s2"
proof -
  note c = counted_dest [OF assms(3)]
  have len: "length (ns_ctxs s2) = length (ns_ctxs s)" using same_shape_lengths(1) [OF c(1)] by simp
  have "load s i = load s2 i + (if t_ns_ctx (task_mem s a) = i then 1 else 0)" for i
    using c(2) by (intro load_remove assms(2)) (simp_all add: same_shape_task(1) [OF c(1)])
  then show ?thesis using assms(1) c(6) by (auto simp: depth_inv_def len)
qed

section \<open>Every completion keeps the invariant\<close>

lemma barrier_dest:
  assumes "barrier_inv g gs s" and "(main, xs) \<in> set gs"
  shows "running s" "depth_inv s" "group_inv g s (main, xs)" "distinct (inflight s)"
    "replica_group s main xs" "distinct xs" "main \<in> set xs"
    "unat (t_rep_completed_num (task_mem s main)) + in_flight s xs = unat (g_rep_num g)"
proof -
  show "running s" "depth_inv s" "distinct (inflight s)" using assms(1) by (simp_all add: barrier_inv_def)
  show inv: "group_inv g s (main, xs)" using assms by (simp add: barrier_inv_def)
  show grp: "replica_group s main xs" using inv by (simp add: group_inv.simps)
  show "distinct xs" "main \<in> set xs" by (rule group_dest [OF grp])+
  show "unat (t_rep_completed_num (task_mem s main)) + in_flight s xs = unat (g_rep_num g)"
    using inv by (simp add: group_inv.simps)
qed

lemma running_inflight: "running (s\<lparr>inflight := xs\<rparr>) = running s"
  by (simp add: running_def ctxs_ok_def)

lemma same_shape_inflight [simp]: "same_shape s (s\<lparr>inflight := xs\<rparr>)"
  by (simp add: same_shape_def)

lemma barrier_wait:
  assumes inv: "barrier_inv g gs s" and grp: "(main, xs) \<in> set gs" and a: "a \<in> set xs" "a \<in> set (inflight s)"
    and cnt: "counted (s\<lparr>inflight := remove1 a (inflight s)\<rparr>) main a s2" and two: "1 < in_flight s xs"
  shows "barrier_inv g gs s2"
proof -
  let ?r = "s\<lparr>inflight := remove1 a (inflight s)\<rparr>"
  note b = barrier_dest [OF inv grp] and c = counted_dest [OF cnt]
  have sh: "same_shape s s2" by (rule same_shape_trans [OF same_shape_inflight c(1)])
  have fl: "set (inflight s2) = set (inflight s) - {a}" using b(4) c(2) by simp
  have "in_flight s xs = in_flight s2 xs + 1"
    using in_flight_remove [OF b(4,6) _ a(2)] a(1) c(2) by simp
  moreover have "unat (t_rep_completed_num (task_mem s main) + 1) = Suc (unat (t_rep_completed_num (task_mem s main)))"
  proof (rule unat_inc)
    show "Suc (unat (t_rep_completed_num (task_mem s main))) < 2 ^ LENGTH(32)"
      using b(8) two unat_u32_lt [of "g_rep_num g"] by simp
  qed
  moreover have "same_io_id s2 main xs" using b(3) c(5) by (auto simp: same_io_id_def group_inv.simps)
  ultimately have own: "group_inv g s2 (main, xs)"
    using b(3,8) two c(5) by (auto simp: group_inv.simps same_shape_ok(3) [OF sh])
  have "group_inv g s2 (m, ys)" if p: "(m, ys) \<in> set gs" for m ys
  proof (cases "(m, ys) = (main, xs)")
    case True
    then show ?thesis using own by (simp only: prod.inject)
  next
    case False
    have "set xs \<inter> set ys = {}"
      using inv distinct_concat_disjoint [OF _ grp p False] by (simp add: barrier_inv_def)
    then have "\<forall>d \<in> set ys. d \<noteq> main \<and> d \<noteq> a" using a(1) b(7) by blast
    then show ?thesis using barrier_dest(3) [OF inv p] c(5) fl
      by (intro group_inv_frame [OF _ sh]) auto
  qed
  then show ?thesis
    using inv c(4) fl counted_depth [OF b(2) a(2) cnt] b(4) c(2) unfolding barrier_inv_def by auto
qed

text \<open>The state from which a finished group is submitted again.\<close>

definition renewed :: "globals \<Rightarrow> perf \<Rightarrow> addr \<Rightarrow> addr list \<Rightarrow> perf \<Rightarrow> perf" where
  "renewed g s main xs s2 =
     fold (set_io_id (next_io_id g (t_io_id (task_mem s main)))) xs (set_completed 0 main s2)"

lemma renewed_dest:
  fixes g :: globals
  assumes "counted s main a s2" and "replica_group s main xs"
  defines "s4 \<equiv> renewed g s main xs s2"
  shows "same_shape s s4" "inflight s4 = inflight s" "issued s4 = issued s" "running s4"
    "ns_ctxs s4 = ns_ctxs s2"
    "b \<in> set xs \<Longrightarrow> t_io_id (task_mem s4 b) = next_io_id g (t_io_id (task_mem s main))"
    "b \<notin> set xs \<Longrightarrow> task_mem s4 b = task_mem s b"
    "t_rep_completed_num (task_mem s4 main) = 0"
proof -
  note c = counted_dest [OF assms(1)] and m = group_dest(2) [OF assms(2)]
  have sh: "same_shape s2 s4"
    unfolding s4_def renewed_def by (rule same_shape_trans [OF same_shape_updates(2) fold_set_io_id(1)])
  then show "same_shape s s4" using same_shape_trans [OF c(1)] by blast
  show ctx: "ns_ctxs s4 = ns_ctxs s2" by (simp add: s4_def renewed_def fold_set_io_id)
  then show "running s4" using running_same_ctxs [OF c(4) sh] by simp
  show "inflight s4 = inflight s" "issued s4 = issued s"
    by (simp_all add: s4_def renewed_def fold_set_io_id c)
  show "b \<in> set xs \<Longrightarrow> t_io_id (task_mem s4 b) = next_io_id g (t_io_id (task_mem s main))"
    by (simp add: s4_def renewed_def fold_set_io_id)
  show "b \<notin> set xs \<Longrightarrow> task_mem s4 b = task_mem s b"
    using m c(5) by (auto simp: s4_def renewed_def fold_set_io_id set_completed_def)
  show "t_rep_completed_num (task_mem s4 main) = 0"
    using m by (simp add: s4_def renewed_def fold_set_io_id set_completed_def)
qed

lemma submission_running:
  assumes "submission g s xs off rd s'" and "running s" and "g_number_ios g = 0"
  shows "running s'"
proof -
  have sh: "same_shape s s'" using assms(1) by (simp add: submission_def)
  then show ?thesis
    using assms same_shape_ctxs_ok [OF sh] same_shape_lengths(1) [OF sh]
    by (auto simp: running_nth submission_def ctx_running_def Let_def)
qed

lemma load_append:
  assumes "inflight s' = inflight s @ xs" and "\<forall>b. t_ns_ctx (task_mem s' b) = t_ns_ctx (task_mem s b)"
    and "distinct (map (\<lambda>a. t_ns_ctx (task_mem s a)) xs)"
  shows "(of_nat (load s' i) :: u64) = of_nat (load s i) + in_group s xs i"
proof -
  have "length (filter (\<lambda>a. t_ns_ctx (task_mem s a) = i) xs) =
    (if i \<in> (\<lambda>a. t_ns_ctx (task_mem s a)) ` set xs then 1 else 0)"
    using assms(3) by (induction xs) (auto simp: filter_empty_conv)
  then show ?thesis using assms(1,2) by (simp add: load_def in_group_def)
qed

lemma submission_depth:
  assumes "submission g s xs off rd s'" and "depth_inv s" and "replica_group s main xs"
  shows "depth_inv s'"
proof -
  have sh: "same_shape s s'" using assms(1) by (simp add: submission_def)
  have "(of_nat (load s' i) :: u64) = of_nat (load s i) + in_group s xs i" for i
    using assms(1) group_dest(5) [OF assms(3)] same_shape_task(1) [OF sh]
    by (intro load_append) (simp_all add: submission_def)
  then show ?thesis
    using assms(1,2) same_shape_lengths(1) [OF sh] by (simp add: depth_inv_def submission_def Let_def)
qed

lemma depth_inv_renewed:
  assumes "depth_inv s2" and "same_shape s2 s4" and "inflight s4 = inflight s2" and "ns_ctxs s4 = ns_ctxs s2"
  shows "depth_inv s4"
proof -
  have "load s4 i = load s2 i" for i by (simp add: load_def assms(3) same_shape_task(1) [OF assms(2)])
  then show ?thesis using assms(1,4) by (simp add: depth_inv_def)
qed

lemma in_flight_zero: "in_flight s xs = 0 \<longleftrightarrow> set xs \<inter> set (inflight s) = {}"
  by (auto simp: in_flight_def filter_empty_conv)

lemma in_flight_all: "set xs \<subseteq> set (inflight s) \<Longrightarrow> in_flight s xs = length xs"
proof -
  assume "set xs \<subseteq> set (inflight s)"
  then have "filter (\<lambda>a. a \<in> set (inflight s)) xs = xs" by (intro filter_True) auto
  then show ?thesis by (simp add: in_flight_def)
qed

lemma barrier_last:
  assumes inv: "barrier_inv g gs s" and grp: "(main, xs) \<in> set gs" and a: "a \<in> set xs" "a \<in> set (inflight s)"
    and cnt: "counted (s\<lparr>inflight := remove1 a (inflight s)\<rparr>) main a s2" and one: "in_flight s xs = 1"
    and sub: "submission g (renewed g (s\<lparr>inflight := remove1 a (inflight s)\<rparr>) main xs s2) xs off rd s'"
    and unlimited: "g_number_ios g = 0"
  shows "barrier_inv g gs s'"
proof -
  let ?r = "s\<lparr>inflight := remove1 a (inflight s)\<rparr>"
  let ?s4 = "renewed g ?r main xs s2"
  note b = barrier_dest [OF inv grp] and c = counted_dest [OF cnt]
  have rgrp: "replica_group ?r main xs" using b(5) by (simp add: same_shape_ok(3) [OF same_shape_inflight])
  note n = renewed_dest [OF cnt rgrp, where g = g]
  have sh4: "same_shape s ?s4" by (rule same_shape_trans [OF same_shape_inflight n(1)])
  have shs: "same_shape ?s4 s'" and fl: "inflight s' = remove1 a (inflight s) @ xs"
    using sub n(2) by (simp_all add: submission_def)
  have sh: "same_shape s s'" by (rule same_shape_trans [OF sh4 shs])
  have ids: "t_io_id (task_mem s' d) = t_io_id (task_mem ?s4 d)"
    "t_rep_completed_num (task_mem s' d) = t_rep_completed_num (task_mem ?s4 d)" for d
    using sub by (simp_all add: submission_def)
  have "in_flight ?r xs = 0" using in_flight_remove [OF b(4,6) _ a(2), of ?r] a(1) one by simp
  then have dis: "set xs \<inter> set (remove1 a (inflight s)) = {}" by (simp add: in_flight_zero)
  have "same_io_id s' main xs" unfolding same_io_id_def ids using n(6) b(7) by metis
  moreover have "in_flight s' xs = length xs" by (rule in_flight_all) (simp add: fl)
  moreover have "unat (t_rep_completed_num (task_mem s' main)) = 0" using n(8) by (simp add: ids)
  ultimately have own: "group_inv g s' (main, xs)"
    using b(3) one by (auto simp: group_inv.simps same_shape_ok(3) [OF sh])
  have others: "group_inv g s' (m, ys)" if p: "(m, ys) \<in> set gs" for m ys
  proof (cases "(m, ys) = (main, xs)")
    case True
    then show ?thesis using own by (simp only: prod.inject)
  next
    case False
    have "set xs \<inter> set ys = {}"
      using inv distinct_concat_disjoint [OF _ grp p False] by (simp add: barrier_inv_def)
    then have "d \<notin> set xs \<and> d \<noteq> a" if "d \<in> set ys" for d using a(1) that by blast
    then have "t_io_id (task_mem s' d) = t_io_id (task_mem s d) \<and>
        t_rep_completed_num (task_mem s' d) = t_rep_completed_num (task_mem s d) \<and>
        (d \<in> set (inflight s') \<longleftrightarrow> d \<in> set (inflight s))" if "d \<in> set ys" for d
      using that n(7) [of d] b(4) by (simp add: ids fl)
    then show ?thesis by (intro group_inv_frame [OF barrier_dest(3) [OF inv p] sh]) blast
  qed
  have "running s'" by (rule submission_running [OF sub n(4) unlimited])
  moreover have "depth_inv s'"
  proof (rule submission_depth [OF sub])
    show "replica_group ?s4 main xs" using b(5) by (simp add: same_shape_ok(3) [OF sh4])
    show "depth_inv ?s4"
    proof (rule depth_inv_renewed [OF counted_depth [OF b(2) a(2) cnt]])
      show "same_shape s2 ?s4"
        unfolding renewed_def by (rule same_shape_trans [OF same_shape_updates(2) fold_set_io_id(1)])
    qed (use n c in simp_all)
  qed
  moreover have "distinct (inflight s')" using b(4,6) dis by (auto simp: fl)
  moreover have "set (inflight s') \<subseteq> set (concat (map snd gs))"
    using inv grp b(4) by (auto simp: fl barrier_inv_def)
  moreover have "distinct (concat (map snd gs))" using inv by (simp add: barrier_inv_def)
  moreover have "\<forall>p \<in> set gs. group_inv g s' p" using others by auto
  ultimately show ?thesis unfolding barrier_inv_def by blast
qed

text \<open>Both cases together, with what the completion sends out.\<close>

definition completion_result :: "globals \<Rightarrow> perf \<Rightarrow> addr \<Rightarrow> addr list \<Rightarrow> addr \<Rightarrow> perf \<Rightarrow> bool" where
  "completion_result g s main xs a s' \<longleftrightarrow> same_shape s s' \<and>
     (if \<exists>b \<in> set xs. b \<noteq> a \<and> b \<in> set (inflight s)
      then inflight s' = remove1 a (inflight s) \<and> issued s' = issued s \<and>
        (\<forall>b. t_io_id (task_mem s' b) = t_io_id (task_mem s b)) \<and>
        (\<forall>j < length (ns_ctxs s). offset_in_ios (ns_ctxs s' ! j) = offset_in_ios (ns_ctxs s ! j))
      else inflight s' = remove1 a (inflight s) @ xs \<and>
        (\<exists>off rd. issued s' = issued s @ map (replica_cmd s off rd) xs \<and> seq_step g s main off s') \<and>
        (\<forall>b. t_io_id (task_mem s' b) =
           (if b \<in> set xs then next_io_id g (t_io_id (task_mem s main)) else t_io_id (task_mem s b))))"

lemma in_flight_more:
  assumes "distinct xs" and "a \<in> set xs" and "a \<in> set (inflight s)"
  shows "1 < in_flight s xs \<longleftrightarrow> (\<exists>b \<in> set xs. b \<noteq> a \<and> b \<in> set (inflight s))" and "0 < in_flight s xs"
proof -
  let ?A = "set (inflight s) \<inter> set xs"
  have "in_flight s xs = card ?A"
    using distinct_length_filter [OF assms(1), of "\<lambda>a. a \<in> set (inflight s)"] by (simp add: in_flight_def)
  also have "\<dots> = Suc (card (?A - {a}))" using assms by (intro card_Suc_Diff1 [symmetric]) auto
  finally have card: "in_flight s xs = Suc (card (?A - {a}))" .
  then show "0 < in_flight s xs" by simp
  have "1 < in_flight s xs \<longleftrightarrow> ?A - {a} \<noteq> {}" using card by (simp add: card_gt_0_iff)
  then show "1 < in_flight s xs \<longleftrightarrow> (\<exists>b \<in> set xs. b \<noteq> a \<and> b \<in> set (inflight s))" by blast
qed

lemma renewed_cmds:
  assumes "counted s main a s2" and "replica_group s main xs" and "ctxs_ok s"
  shows "map (replica_cmd (renewed g s main xs s2) off rd) xs = map (replica_cmd s off rd) xs"
proof (intro map_cong refl)
  fix b assume "b \<in> set xs"
  then have i: "t_ns_ctx (task_mem s b) < length (ns_ctxs s)" using group_dest(8) [OF assms(2)] by blast
  show "replica_cmd (renewed g s main xs s2) off rd b = replica_cmd s off rd b"
    using counted_dest(7) [OF assms(1)] i renewed_dest(5) [OF assms(1,2)]
    by (intro replica_cmd_cong [OF renewed_dest(1) [OF assms(1,2)] assms(3) i]) simp
qed

lemma min_size_same_shape:
  assumes "same_shape s s'"
  shows "get_min_size_in_ios s' = get_min_size_in_ios s"
proof -
  have "map size_in_ios (namespaces s') = map size_in_ios (map (\<lambda>x. x\<lparr>seed := 0\<rparr>) (namespaces s'))"
    by (simp add: comp_def)
  also have "\<dots> = map size_in_ios (map (\<lambda>x. x\<lparr>seed := 0\<rparr>) (namespaces s))" using assms by (simp only: same_shape_def)
  also have "\<dots> = map size_in_ios (namespaces s)" by (simp add: comp_def)
  finally have e: "map size_in_ios (namespaces s') = map size_in_ios (namespaces s)" .
  have "get_min_size_in_ios t = (case map size_in_ios (namespaces t) of [] \<Rightarrow> None | n # ns \<Rightarrow> Some (fold (\<lambda>x m. min m x) (n # ns) n))" for t
    by (cases "namespaces t") (simp_all add: get_min_size_in_ios_def fold_map comp_def)
  then show ?thesis using e by simp
qed

lemma sequential_same_shape:
  assumes "same_shape s s'" and "ctxs_ok s" and "i < length (ns_ctxs s)"
  shows "sequential g s' i = sequential g s i"
  using same_shape_ns_fields(3) [OF assms(1) ctxs_ok_entry [OF assms(2,3)]] same_shape_entry [OF assms(1,3)]
  by (simp add: sequential_def)

lemma seq_step_cong:
  assumes "seq_step g s4 main off s'" and "same_shape s s4" and "ctxs_ok s"
    and "t_ns_ctx (task_mem s main) < length (ns_ctxs s)"
    and "\<forall>j < length (ns_ctxs s). offset_in_ios (ns_ctxs s4 ! j) = offset_in_ios (ns_ctxs s ! j)"
  shows "seq_step g s main off s'"
  using assms(1,4,5) sequential_same_shape [OF assms(2-4), of g]
  by (simp add: seq_step_def Let_def same_shape_task(1) [OF assms(2)] same_shape_lengths(1) [OF assms(2)]
      min_size_same_shape [OF assms(2)])

lemma completion_step:
  assumes inv: "barrier_inv g gs s" and acc: "accepting e" and unlimited: "g_number_ios g = 0"
    and keep: "keeps_running g st" and grp: "(main, xs) \<in> set gs" and a: "a \<in> set xs" "a \<in> set (inflight s)"
  shows "\<exists>s'. io_complete e g a st (s\<lparr>inflight := remove1 a (inflight s)\<rparr>) = Some s' \<and>
    barrier_inv g gs s' \<and> completion_result g s main xs a s'"
proof -
  let ?r = "s\<lparr>inflight := remove1 a (inflight s)\<rparr>"
  note b = barrier_dest [OF inv grp]
  have run: "running ?r" using b(1) by (simp add: running_inflight)
  have rgrp: "replica_group ?r main xs" using b(5) by (simp add: same_shape_ok(3) [OF same_shape_inflight])
  obtain s2 where s2: "counted ?r main a s2"
    "io_complete e g a st ?r =
       (if t_rep_completed_num (task_mem s main) + 1 < g_rep_num g then Some s2
        else submit_single_io_rep e g main (renewed g ?r main xs s2))"
    by (rule completion_unfold [OF run rgrp a(1) keep, of e]) (simp add: renewed_def)
  have lt: "t_rep_completed_num (task_mem s main) < g_rep_num g"
    using b(8) in_flight_more(2) [OF b(6) a] by (simp add: word_less_nat_alt)
  have more: "t_rep_completed_num (task_mem s main) + 1 < g_rep_num g \<longleftrightarrow> 1 < in_flight s xs"
    using b(8) unat_inc_lt [OF lt] by (auto simp: word_less_nat_alt)
  note c = counted_dest [OF s2(1)]
  show ?thesis
  proof (cases "1 < in_flight s xs")
    case True
    then have "completion_result g s main xs a s2"
      using in_flight_more(1) [OF b(6) a] c(2,3,5,8) same_shape_trans [OF same_shape_inflight c(1)]
      by (simp add: completion_result_def)
    then show ?thesis using barrier_wait [OF inv grp a s2(1) True] s2(2) more True by auto
  next
    case False
    let ?s4 = "renewed g ?r main xs s2"
    note n = renewed_dest [OF s2(1) rgrp, where g = g]
    have g4: "replica_group ?s4 main xs" using rgrp by (simp add: same_shape_ok(3) [OF n(1)])
    have "\<not> is_draining (ns_ctxs ?s4 ! t_ns_ctx (task_mem ?s4 main))"
      using running_dest(2) [OF n(4)] group_dest(8) [OF g4] group_dest(2) [OF g4] by blast
    then obtain off rd s' where s': "submit_single_io_rep e g main ?s4 = Some s'" "submission g ?s4 xs off rd s'"
      "seq_step g ?s4 main off s'"
      using submit_group_submission [OF acc _ g4] n(4) by (metis running_def)
    have ok: "ctxs_ok s" using b(1) by (simp add: running_def)
    have "seq_step g s main off s'"
      using c(8) n(5) group_dest(8) [OF b(5)] b(7)
      by (intro seq_step_cong [OF s'(3) same_shape_trans [OF same_shape_inflight n(1)] ok]) simp_all
    note sq = this
    have one: "in_flight s xs = 1" using False in_flight_more(2) [OF b(6) a] by simp
    have "ctxs_ok ?r" using run by (simp add: running_def)
    note cmds = renewed_cmds [OF s2(1) rgrp this]
    have "replica_cmd ?r off rd = replica_cmd s off rd" by (simp add: replica_cmd_def fun_eq_iff Let_def)
    moreover have "same_shape s s'"
      using s'(2) same_shape_trans [OF same_shape_trans [OF same_shape_inflight n(1)], of s'] by (simp add: submission_def)
    ultimately have "completion_result g s main xs a s'"
      using s'(2) n(2,3,6,7) False in_flight_more(1) [OF b(6) a] cmds sq
      by (auto simp: completion_result_def submission_def)
    then show ?thesis using barrier_last [OF inv grp a s2(1) one s'(2) unlimited] s'(1) s2(2) more False by auto
  qed
qed

section \<open>Runs\<close>

text \<open>
  One step of a run: the driver reports the completion of some command in flight. Which one, and
  with which status, is not fixed, so a run is any interleaving of completions over the groups.
\<close>

inductive completes :: "env \<Rightarrow> globals \<Rightarrow> perf \<Rightarrow> perf \<Rightarrow> bool" for e g where
  completion: "a \<in> set (inflight s) \<Longrightarrow> keeps_running g st \<Longrightarrow>
    io_complete e g a st (s\<lparr>inflight := remove1 a (inflight s)\<rparr>) = Some s' \<Longrightarrow> completes e g s s'"

inductive_cases completesE: "completes e g s s'"

text \<open>What the namespace of a replica has been asked to do, in order.\<close>

definition replica_log :: "perf \<Rightarrow> addr \<Rightarrow> (u64 \<times> bool) list" where
  "replica_log s a = map (\<lambda>c. (c_lba c, c_read c)) (filter (\<lambda>c. c_task c = a) (issued s))"

definition blocks_of :: "perf \<Rightarrow> addr \<Rightarrow> u32" where
  "blocks_of s a = io_size_blocks (namespaces s ! entry (ns_ctxs s ! t_ns_ctx (task_mem s a)))"

text \<open>
  The replicas of a group have been asked to do the same operations in the same order: offset
  and direction, where each scales the offset by its own number of blocks per I/O.
\<close>

definition in_step :: "perf \<Rightarrow> addr list \<Rightarrow> bool" where
  "in_step s xs \<longleftrightarrow> (\<exists>ops. \<forall>a \<in> set xs.
     replica_log s a = map (\<lambda>(off, rd). (off * ucast (blocks_of s a), rd)) ops)"

lemma blocks_of_same_shape:
  assumes "same_shape s s'" and "ctxs_ok s" and "t_ns_ctx (task_mem s a) < length (ns_ctxs s)"
  shows "blocks_of s' a = blocks_of s a"
  using same_shape_ns_fields(2) [OF assms(1) ctxs_ok_entry [OF assms(2,3)]]
    same_shape_entry [OF assms(1,3)] same_shape_task(1) [OF assms(1)] by (simp add: blocks_of_def)

lemma filter_cmds:
  assumes "distinct xs"
  shows "filter (\<lambda>c. c_task c = a) (map (replica_cmd s off rd) xs) = (if a \<in> set xs then [replica_cmd s off rd a] else [])"
  using assms by (induction xs) (auto simp: replica_cmd_def Let_def)

lemma in_step_append:
  assumes "in_step s xs" and "issued s' = issued s @ map (replica_cmd s off rd) ys"
    and "distinct ys" and "xs = ys \<or> set xs \<inter> set ys = {}" and "\<forall>a \<in> set xs. blocks_of s' a = blocks_of s a"
  shows "in_step s' xs"
proof -
  obtain ops where ops: "\<forall>a \<in> set xs. replica_log s a = map (\<lambda>(off, rd). (off * ucast (blocks_of s a), rd)) ops"
    using assms(1) by (auto simp: in_step_def)
  let ?ops = "ops @ (if xs = ys then [(off, rd)] else [])"
  have "replica_log s' a = map (\<lambda>(off, rd). (off * ucast (blocks_of s' a), rd)) ?ops" if "a \<in> set xs" for a
    using ops assms(2,4,5) that filter_cmds [OF assms(3), of a s off rd]
    by (auto simp: replica_log_def replica_cmd_def blocks_of_def Let_def)
  then show ?thesis unfolding in_step_def by blast
qed

lemma completion_in_step:
  assumes res: "completion_result g s main xs a s'" and inv: "barrier_inv g gs s"
    and grp: "(main, xs) \<in> set gs" "(m, ys) \<in> set gs" and old: "in_step s ys"
  shows "in_step s' ys"
proof -
  note b = barrier_dest [OF inv grp(1)] and b' = barrier_dest [OF inv grp(2)]
  have sh: "same_shape s s'" using res by (simp add: completion_result_def)
  have ok: "ctxs_ok s" using b(1) by (simp add: running_def)
  have blocks: "\<forall>d \<in> set ys. blocks_of s' d = blocks_of s d"
    using blocks_of_same_shape [OF sh ok] group_dest(8) [OF b'(5)] by blast
  have dis: "ys = xs \<or> set ys \<inter> set xs = {}"
    using inv distinct_concat_disjoint [OF _ grp(1) grp(2)] by (auto simp: barrier_inv_def)
  consider "issued s' = issued s" | off rd where "issued s' = issued s @ map (replica_cmd s off rd) xs"
    using res by (auto simp: completion_result_def split: if_splits)
  then show ?thesis
  proof cases
    case 1
    then show ?thesis using old blocks by (simp add: in_step_def replica_log_def)
  next
    case 2
    show ?thesis by (rule in_step_append [OF old 2 b(6) dis blocks])
  qed
qed

text \<open>What a run keeps, and that it never gets stuck on a completion.\<close>

definition run_inv :: "globals \<Rightarrow> (addr \<times> addr list) list \<Rightarrow> perf \<Rightarrow> bool" where
  "run_inv g gs s \<longleftrightarrow> barrier_inv g gs s \<and> (\<forall>(main, xs) \<in> set gs. in_step s xs)"

lemma inflight_group:
  assumes "barrier_inv g gs s" and "a \<in> set (inflight s)"
  obtains main xs where "(main, xs) \<in> set gs" "a \<in> set xs"
  using assms by (fastforce simp: barrier_inv_def)

lemma completes_run_inv:
  assumes "completes e g s s'" and "accepting e" and "g_number_ios g = 0" and "run_inv g gs s"
  shows "run_inv g gs s'"
  using assms(1)
proof (rule completesE)
  fix a st assume a: "a \<in> set (inflight s)" and st: "keeps_running g st"
    and io: "io_complete e g a st (s\<lparr>inflight := remove1 a (inflight s)\<rparr>) = Some s'"
  have inv: "barrier_inv g gs s" using assms(4) by (simp add: run_inv_def)
  obtain main xs where grp: "(main, xs) \<in> set gs" "a \<in> set xs" by (rule inflight_group [OF inv a])
  have "barrier_inv g gs s'" and res: "completion_result g s main xs a s'"
    using completion_step [OF inv assms(2,3) st grp(1,2) a] io by auto
  moreover have "in_step s' ys" if "(m, ys) \<in> set gs" for m ys
    using completion_in_step [OF res inv grp(1) that] assms(4) that by (auto simp: run_inv_def)
  ultimately show ?thesis by (auto simp: run_inv_def)
qed

lemma run_run_inv:
  assumes "(completes e g)\<^sup>*\<^sup>* s s'" and "accepting e" and "g_number_ios g = 0" and "run_inv g gs s"
  shows "run_inv g gs s'"
  using assms(1,4) by (induction rule: rtranclp_induct) (auto intro: completes_run_inv [OF _ assms(2,3)])

text \<open>
  The sequential workload: every counter is below the I/O count of the smallest namespace, and so
  is the offset of every command that was sent, counted in I/Os of its namespace.
\<close>

definition seq_inv :: "globals \<Rightarrow> u64 \<Rightarrow> perf \<Rightarrow> bool" where
  "seq_inv g m s \<longleftrightarrow> get_min_size_in_ios s = Some m \<and>
     (\<forall>i < length (ns_ctxs s). sequential g s i \<and> offset_in_ios (ns_ctxs s ! i) < m) \<and>
     (\<forall>c \<in> set (issued s). \<exists>off < m. c_lba c = off * ucast (c_lba_count c))"

lemma seq_inv_frame:
  assumes "seq_inv g m s" and "same_shape s s'" and "ctxs_ok s" and "issued s' = issued s"
    and "\<forall>j < length (ns_ctxs s). offset_in_ios (ns_ctxs s' ! j) = offset_in_ios (ns_ctxs s ! j)"
  shows "seq_inv g m s'"
  using assms sequential_same_shape [OF assms(2,3)]
  by (simp add: seq_inv_def min_size_same_shape [OF assms(2)] same_shape_lengths(1) [OF assms(2)])

lemma seq_inv_submit:
  assumes "seq_inv g m s" and "same_shape s s'" and "ctxs_ok s" and "seq_step g s main off s'"
    and "issued s' = issued s @ map (replica_cmd t off rd) xs" and "t_ns_ctx (task_mem s main) < length (ns_ctxs s)"
  shows "seq_inv g m s'"
proof -
  let ?i = "t_ns_ctx (task_mem s main)"
  have st: "off = offset_in_ios (ns_ctxs s ! ?i)" "\<And>j. j < length (ns_ctxs s) \<Longrightarrow> offset_in_ios (ns_ctxs s' ! j) =
      (if j \<noteq> ?i then offset_in_ios (ns_ctxs s ! j) else if Some (off + 1) = Some m then 0 else off + 1)"
    using assms(1,4,6) by (simp_all add: seq_step_def seq_inv_def Let_def)
  have lt: "off < m" using assms(1,6) st(1) by (simp add: seq_inv_def)
  have "off + 1 \<le> m" using unat_inc_lt [OF lt] lt by (simp add: word_le_nat_alt word_less_nat_alt)
  moreover have "0 < m" using lt by (rule le_less_trans [rotated]) simp
  ultimately have "offset_in_ios (ns_ctxs s' ! j) < m" if "j < length (ns_ctxs s)" for j
    using st(2) [OF that] assms(1) that by (auto simp: seq_inv_def)
  moreover have "\<exists>o' < m. c_lba c = o' * ucast (c_lba_count c)" if "c \<in> set (map (replica_cmd t off rd) xs)" for c
    using that lt by (auto simp: replica_cmd_def Let_def)
  ultimately show ?thesis
    using assms(1,5) sequential_same_shape [OF assms(2,3)]
    by (auto simp: seq_inv_def min_size_same_shape [OF assms(2)] same_shape_lengths(1) [OF assms(2)])
qed

lemma completes_seq_inv:
  assumes "completes e g s s'" and "accepting e" and "g_number_ios g = 0" and "run_inv g gs s" and "seq_inv g m s"
  shows "seq_inv g m s'"
  using assms(1)
proof (rule completesE)
  fix a st assume a: "a \<in> set (inflight s)" and st: "keeps_running g st"
    and io: "io_complete e g a st (s\<lparr>inflight := remove1 a (inflight s)\<rparr>) = Some s'"
  have inv: "barrier_inv g gs s" using assms(4) by (simp add: run_inv_def)
  obtain main xs where grp: "(main, xs) \<in> set gs" "a \<in> set xs" by (rule inflight_group [OF inv a])
  have res: "completion_result g s main xs a s'"
    using completion_step [OF inv assms(2,3) st grp(1,2) a] io by auto
  note b = barrier_dest [OF inv grp(1)]
  have sh: "same_shape s s'" using res by (simp add: completion_result_def)
  have ok: "ctxs_ok s" using b(1) by (simp add: running_def)
  have i: "t_ns_ctx (task_mem s main) < length (ns_ctxs s)" using group_dest(8) [OF b(5)] b(7) by blast
  consider "issued s' = issued s" "\<forall>j < length (ns_ctxs s). offset_in_ios (ns_ctxs s' ! j) = offset_in_ios (ns_ctxs s ! j)"
    | off rd where "issued s' = issued s @ map (replica_cmd s off rd) xs" "seq_step g s main off s'"
    using res unfolding completion_result_def by (metis (no_types, lifting))
  then show ?thesis
  proof cases
    case 1
    then show ?thesis by (rule seq_inv_frame [OF assms(5) sh ok])
  next
    case 2
    then show ?thesis using seq_inv_submit [OF assms(5) sh ok _ _ i] by blast
  qed
qed

lemma run_seq_inv:
  assumes "(completes e g)\<^sup>*\<^sup>* s s'" and "accepting e" and "g_number_ios g = 0" and "run_inv g gs s" and "seq_inv g m s"
  shows "seq_inv g m s'"
  using assms(1)
proof (induction rule: rtranclp_induct)
  case (step t u)
  have "run_inv g gs t" by (rule run_run_inv [OF step(1) assms(2-4)])
  then show ?case by (rule completes_seq_inv [OF step(2) assms(2,3) _ step.IH])
qed (rule assms(5))


end
