(* ===== verification/Perf_Start.thy ===== *)
theory Perf_Start
  imports Perf_Barrier
begin

text \<open>
  The start of a run: \<open>submit_io_rep\<close> allocates the groups, links their replicas and submits
  them. The theory shows that it establishes the invariant of the completion barrier, and
  concludes what holds in every state of a run.
\<close>

section \<open>Fresh memory\<close>

definition fresh_heap :: "perf \<Rightarrow> bool" where
  "fresh_heap s \<longleftrightarrow> 0 < brk s \<and> (\<forall>p \<ge> brk s. \<not> live s p)"

text \<open>The second state has new allocations; everything that existed before is as it was.\<close>

definition extends :: "perf \<Rightarrow> perf \<Rightarrow> bool" where
  "extends s s' \<longleftrightarrow> brk s \<le> brk s' \<and> fresh_heap s' \<and>
     (\<forall>p < brk s. live s' p = live s p \<and> task_mem s' p = task_mem s p \<and> iov_mem s' p = iov_mem s p) \<and>
     ns_ctxs s' = ns_ctxs s \<and> namespaces s' = namespaces s \<and> inflight s' = inflight s \<and> issued s' = issued s"

lemma extends_trans: "extends s t \<Longrightarrow> extends t u \<Longrightarrow> extends s u"
  by (auto simp: extends_def)

lemma extends_refl: "fresh_heap s \<Longrightarrow> extends s s"
  by (simp add: extends_def)

lemma fresh_live: "fresh_heap s \<Longrightarrow> live s p \<Longrightarrow> p < brk s"
  by (meson fresh_heap_def leI)

lemma extends_task_ok:
  assumes "extends s s'" and "fresh_heap s" and "task_ok s main a"
  shows "task_ok s' main a" and "task_mem s' a = task_mem s a" and "a < brk s"
proof -
  have a: "live s a" "live s (t_iovs (task_mem s a))" using assms(3) by (simp_all add: task_ok_def Let_def)
  then have lt: "a < brk s" "t_iovs (task_mem s a) < brk s" using fresh_live [OF assms(2)] by auto
  then show "task_mem s' a = task_mem s a" "a < brk s" using assms(1) by (simp_all add: extends_def)
  then show "task_ok s' main a" using assms(1,3) lt by (auto simp: extends_def task_ok_def Let_def)
qed

section \<open>The queues of the groups\<close>

definition queues :: "perf \<Rightarrow> (head \<Rightarrow> addr list option) \<Rightarrow> bool" where
  "queues s Q \<longleftrightarrow> tq_rep (links s) Q \<and> (\<forall>h ys. Q h = Some ys \<longrightarrow> (\<forall>y \<in> set ys. live s y))"

lemma queues_linked: "queues s Q \<Longrightarrow> Q h = Some xs \<Longrightarrow> linked s h xs"
  by (auto simp: queues_def linked_def)

lemma queues_last: "queues s Q \<Longrightarrow> Q h = Some xs \<Longrightarrow> tqh_last (links s) h = end_slot (First h) xs"
  by (auto simp: queues_def tq_rep_def tq_list_def)

lemma queues_insert:
  assumes "queues s Q" and "Q h = Some xs" and "head_ok s h" and "live s a" and "\<forall>g ys. Q g = Some ys \<longrightarrow> a \<notin> set ys"
  obtains q where "tailq_insert_tail h a s = Some (s\<lparr>links := q\<rparr>)" "queues (s\<lparr>links := q\<rparr>) (Q(h \<mapsto> xs @ [a]))"
proof -
  let ?s' = "s\<lparr>links := TAILQ_INSERT_TAIL h a (links s)\<rparr>"
  have "slot_ok s (tqh_last (links s) h)"
    using queues_last [OF assms(1,2)] assms(1-3) by (auto simp: end_slot_def queues_def)
  then have "tailq_insert_tail h a s = Some ?s'" using assms(3,4) by (simp add: tailq_insert_tail_def)
  moreover have "tq_rep (links ?s') (Q(h \<mapsto> xs @ [a]))"
    using tq.rep_insert [OF _ assms(2,5)] assms(1) by (simp add: queues_def)
  then have "queues ?s' (Q(h \<mapsto> xs @ [a]))" using assms(1,2,4) by (auto simp: queues_def)
  ultimately show ?thesis using that by blast
qed

lemma queues_init:
  assumes "queues s Q" and "head_ok s h"
  obtains q where "tailq_init h s = Some (s\<lparr>links := q\<rparr>)" "queues (s\<lparr>links := q\<rparr>) (Q(h \<mapsto> []))"
proof -
  let ?s' = "s\<lparr>links := TAILQ_INIT h (links s)\<rparr>"
  have "queues ?s' (Q(h \<mapsto> []))" using assms(1) tq.rep_init [of "links s" Q h] by (auto simp: queues_def)
  then show ?thesis using that assms(2) by (simp add: tailq_init_def)
qed

lemma queues_remove_only:
  assumes "queues s Q" and "Q h = Some [a]" and "head_ok s h"
  obtains q where "tailq_remove h a s = Some (s\<lparr>links := q\<rparr>)" "queues (s\<lparr>links := q\<rparr>) (Q(h \<mapsto> []))"
proof -
  let ?s' = "s\<lparr>links := TAILQ_REMOVE h a (links s)\<rparr>"
  have l: "tq_list (links s) h [a]" and rep: "tq_rep (links s) Q" and lv: "live s a"
    using assms(1,2) by (auto simp: queues_def tq_rep_def)
  have prev: "tqe_prev (links s) a = First h" using l by (simp add: tq_list_def)
  have "tqe_next (links s) a = None"
    using tq.rep_succ [OF rep, of h "[]" a "[]"] assms(2) by (simp add: TAILQ_NEXT_def)
  then have "tailq_remove h a s = Some ?s'" using assms(3) prev lv by (simp add: tailq_remove_def)
  moreover have "tq_rep (links ?s') (Q(h \<mapsto> []))" using tq.rep_remove [OF rep assms(2), of a] by simp
  then have "queues ?s' (Q(h \<mapsto> []))" using assms(1) by (auto simp: queues_def)
  ultimately show ?thesis using that by blast
qed

lemma queues_extend:
  assumes "queues s Q" and "extends s s'" and "fresh_heap s" and "links s' = links s"
  shows "queues s' Q"
  using assms fresh_live [OF assms(3)] by (fastforce simp: queues_def extends_def)

lemma queues_fresh:
  assumes "queues s Q" and "fresh_heap s" and "Q h = Some ys" and "brk s \<le> a"
  shows "a \<notin> set ys"
  using assms by (auto simp: queues_def fresh_heap_def)

section \<open>Building one group\<close>

definition config_ok :: "globals \<Rightarrow> bool" where
  "config_ok g \<longleftrightarrow> g_io_unit_size g \<noteq> 0 \<and>
     g_io_size_bytes g + g_max_io_md_size g * g_max_io_size_blocks g \<noteq> 0"

definition grow :: "nat \<Rightarrow> perf \<Rightarrow> perf" where
  "grow n s = s\<lparr>live := (live s)(brk s := True), brk := brk s + max 1 n\<rparr>"

lemma alloc_grow: "alloc n s = (brk s, grow n s)"
  by (simp add: alloc_def grow_def)

lemma grow_sel [simp]:
  "live (grow n s) = (live s)(brk s := True)" "task_mem (grow n s) = task_mem s" "iov_mem (grow n s) = iov_mem s"
  "links (grow n s) = links s" "ns_ctxs (grow n s) = ns_ctxs s" "namespaces (grow n s) = namespaces s"
  "inflight (grow n s) = inflight s" "issued (grow n s) = issued s" "dma_pattern (grow n s) = dma_pattern s"
  by (simp_all add: grow_def)

lemma grow_brk: "brk s < brk (grow n s)"
  by (simp add: grow_def)

lemma grow_fresh: "fresh_heap s \<Longrightarrow> fresh_heap (grow n s)"
  by (auto simp: fresh_heap_def grow_def)

text \<open>Only the task's own fields and fresh memory change.\<close>

definition payload_set :: "perf \<Rightarrow> addr \<Rightarrow> perf \<Rightarrow> bool" where
  "payload_set s task s' \<longleftrightarrow> brk s \<le> brk s' \<and> fresh_heap s' \<and> links s' = links s \<and>
     (\<forall>p < brk s. live s' p = live s p \<and> iov_mem s' p = iov_mem s p) \<and>
     ns_ctxs s' = ns_ctxs s \<and> namespaces s' = namespaces s \<and> inflight s' = inflight s \<and> issued s' = issued s \<and>
     (\<exists>iovs n md. live s' iovs \<and> iov_mem s' iovs \<noteq> [] \<and> n \<noteq> 0 \<and>
        task_mem s' = (task_mem s)(task := (task_mem s task)\<lparr>t_iovcnt := n, t_iovs := iovs, t_md_iov := md\<rparr>))"

lemma fill_iovs_nonempty: "unit \<noteq> 0 \<Longrightarrow> len \<noteq> 0 \<Longrightarrow> fill_iovs unit len buf off \<noteq> []"
  by (subst fill_iovs.simps) simp

lemma payload_set_md:
  assumes "payload_set s task s2"
  shows "payload_set s task
    ((grow n s2)\<lparr>task_mem := (task_mem s2)(task := (task_mem s2 task)\<lparr>t_md_iov := md\<rparr>)\<rparr>)" (is "payload_set s task ?s3")
proof -
  obtain iovs k md' where t: "live s2 iovs" "iov_mem s2 iovs \<noteq> []" "k \<noteq> 0"
      "task_mem s2 = (task_mem s)(task := (task_mem s task)\<lparr>t_iovcnt := k, t_iovs := iovs, t_md_iov := md'\<rparr>)"
    and f: "fresh_heap s2" and b: "brk s \<le> brk s2"
    using assms unfolding payload_set_def by blast
  have "task_mem ?s3 = (task_mem s)(task := (task_mem s task)\<lparr>t_iovcnt := k, t_iovs := iovs, t_md_iov := md\<rparr>)"
    "live ?s3 iovs" "iov_mem ?s3 iovs \<noteq> []" "k \<noteq> 0"
    using t by simp_all
  moreover have "fresh_heap ?s3" using grow_fresh [OF f, of n] by (simp add: fresh_heap_def)
  moreover have "brk s \<le> brk ?s3" using grow_brk [of s2 n] b by simp
  moreover have "\<forall>p < brk s. live ?s3 p = live s p \<and> iov_mem ?s3 p = iov_mem s p" "links ?s3 = links s"
     "ns_ctxs ?s3 = ns_ctxs s" "namespaces ?s3 = namespaces s" "inflight ?s3 = inflight s" "issued ?s3 = issued s"
    using assms b by (simp_all add: payload_set_def)
  ultimately show ?thesis unfolding payload_set_def by blast
qed

lemma setup_payload_spec:
  assumes "config_ok g" and "fresh_heap s" and "task \<noteq> 0" and "live s task"
  obtains s' where "nvme_setup_payload g task pat s = Some s'" "payload_set s task s'"
proof -
  let ?bytes = "g_io_size_bytes g + g_max_io_md_size g * g_max_io_size_blocks g"
  let ?md = "g_max_io_md_size g * g_max_io_size_blocks g"
  let ?unit = "unat (g_io_unit_size g)" and ?len = "unat ?bytes"
  let ?n = "(?len + ?unit - 1) div ?unit"
  have nz: "?unit \<noteq> 0" "?len \<noteq> 0" using assms(1) by (simp_all add: config_ok_def unat_eq_0)
  have lt: "task < brk s" by (rule fresh_live [OF assms(2,4)])
  have "?unit \<le> ?len + ?unit - 1" using nz(2) by linarith
  then have n: "?n \<noteq> 0" using nz(1) div_greater_zero_iff [of "?len + ?unit - 1" ?unit] by linarith
  define s1 where "s1 = (grow ?len s)\<lparr>dma_pattern := (dma_pattern s)(brk s := pat)\<rparr>"
  have s1: "fresh_heap s1" "brk s < brk s1" "live s1 = (live s)(brk s := True)" "links s1 = links s"
    "task_mem s1 = task_mem s" "iov_mem s1 = iov_mem s" "ns_ctxs s1 = ns_ctxs s" "namespaces s1 = namespaces s"
    "inflight s1 = inflight s" "issued s1 = issued s"
    using grow_fresh [OF assms(2), of ?len] grow_brk [of s ?len] by (simp_all add: s1_def fresh_heap_def)
  define s2 where "s2 = (grow ?n s1)\<lparr>iov_mem := (iov_mem s)(brk s1 := fill_iovs ?unit ?len (brk s) 0),
    task_mem := (task_mem s)(task := (task_mem s task)\<lparr>t_iovcnt := ?n, t_iovs := brk s1\<rparr>)\<rparr>"
  have s2: "fresh_heap s2" "brk s1 < brk s2" "live s2 = (live s)(brk s := True, brk s1 := True)"
    using grow_fresh [OF s1(1), of ?n] grow_brk [of s1 ?n] s1(3) by (simp_all add: s2_def fresh_heap_def)
  have iovs: "nvme_perf_allocate_iovs g task (brk s) ?len s1 = Some s2"
    using nz assms(3,4) s1 by (simp add: nvme_perf_allocate_iovs_def alloc_grow write_task_def s2_def Let_def)
  have p2: "payload_set s task s2"
    unfolding payload_set_def
  proof (intro conjI)
    have "live s2 (brk s1) \<and> iov_mem s2 (brk s1) \<noteq> [] \<and> ?n \<noteq> 0 \<and> task_mem s2 = (task_mem s)(task :=
        (task_mem s task)\<lparr>t_iovcnt := ?n, t_iovs := brk s1, t_md_iov := t_md_iov (task_mem s task)\<rparr>)"
      using fill_iovs_nonempty [OF nz] n by (simp add: s2_def)
    then show "\<exists>iovs n md. live s2 iovs \<and> iov_mem s2 iovs \<noteq> [] \<and> n \<noteq> 0 \<and>
        task_mem s2 = (task_mem s)(task := (task_mem s task)\<lparr>t_iovcnt := n, t_iovs := iovs, t_md_iov := md\<rparr>)"
      by blast
  qed (use s1 s2 in \<open>auto simp: s2_def\<close>)
  show ?thesis
  proof (cases "?md = 0")
    case True
    then have "nvme_setup_payload g task pat s = Some s2"
      using iovs by (simp add: nvme_setup_payload_def alloc_grow s1_def Let_def)
    then show ?thesis using that p2 by blast
  next
    case False
    define s3 where "s3 = (grow (unat ?md) s2)\<lparr>task_mem := (task_mem s2)(task := (task_mem s2 task)\<lparr>t_md_iov :=
      \<lparr>iov_base = brk s2, iov_len = unat ?md\<rparr>\<rparr>)\<rparr>"
    have "nvme_setup_payload g task pat s = Some s3"
      using False iovs s2(3) assms(3,4) lt
      by (simp add: nvme_setup_payload_def alloc_grow s1_def write_task_def s3_def Let_def)
    moreover have "payload_set s task s3" unfolding s3_def by (rule payload_set_md [OF p2])
    ultimately show ?thesis using that by blast
  qed
qed

lemma queues_cong:
  "queues s Q \<Longrightarrow> links s' = links s \<Longrightarrow> live s' = live s \<Longrightarrow> queues s' Q"
  by (simp add: queues_def)

lemma queues_grow:
  assumes "queues s Q" and "links s' = links s" and "\<forall>p. live s p \<longrightarrow> live s' p"
  shows "queues s' Q"
  using assms by (auto simp: queues_def)

lemma payload_set_live:
  assumes "payload_set s task s'" and "fresh_heap s"
  shows "live s p \<Longrightarrow> live s' p"
  using assms fresh_live [OF assms(2)] by (auto simp: payload_set_def)

definition new_task :: "perf \<Rightarrow> perf" where
  "new_task s = (grow 1 s)\<lparr>task_mem := (task_mem s)(brk s := zero_task)\<rparr>"

lemma calloc_task_eq: "calloc_task s = (brk s, new_task s)"
  by (simp add: calloc_task_def alloc_grow new_task_def)

lemma new_task_fresh: "fresh_heap s \<Longrightarrow> fresh_heap (new_task s)"
  using grow_fresh [of s 1] by (simp add: new_task_def fresh_heap_def)

lemma new_task_sel [simp]:
  "live (new_task s) = (live s)(brk s := True)" "task_mem (new_task s) = (task_mem s)(brk s := zero_task)"
  "iov_mem (new_task s) = iov_mem s" "links (new_task s) = links s" "ns_ctxs (new_task s) = ns_ctxs s"
  "namespaces (new_task s) = namespaces s" "inflight (new_task s) = inflight s" "issued (new_task s) = issued s"
  "brk (new_task s) = brk s + 1"
  by (simp_all add: new_task_def) (simp add: grow_def)

lemma allocate_main_task_spec:
  assumes "config_ok g" and "fresh_heap s" and "queues s Q" and "c < length (ns_ctxs s)"
  obtains s' where "allocate_main_task g c qd io_id ns_id s = Some (brk s, s')" "extends s s'"
    "queues s' (Q(RepTasks (brk s) \<mapsto> [brk s]))" "task_ok s' (brk s) (brk s)"
    "t_ns_ctx (task_mem s' (brk s)) = c" "t_io_id (task_mem s' (brk s)) = io_id"
    "t_rep_completed_num (task_mem s' (brk s)) = 0"
proof -
  let ?b = "brk s" and ?pat = "of_nat (qd mod 8 + 1) :: u8"
  have b: "?b \<noteq> 0" using assms(2) by (simp add: fresh_heap_def)
  let ?s1 = "new_task s"
  obtain s2 where s2: "nvme_setup_payload g ?b ?pat ?s1 = Some s2" "payload_set ?s1 ?b s2"
    using setup_payload_spec [OF assms(1) new_task_fresh [OF assms(2)] b] by (metis fun_upd_same new_task_sel(1))
  then obtain iovs n md where iovs: "live s2 iovs" "iov_mem s2 iovs \<noteq> []" "n \<noteq> 0" and tm: "task_mem s2 =
      (task_mem s)(?b := zero_task\<lparr>t_iovcnt := n, t_iovs := iovs, t_md_iov := md\<rparr>)"
    by (auto simp: payload_set_def)
  have b2: "live s2 ?b" using payload_set_live [OF s2(2) new_task_fresh [OF assms(2)]] by simp
  let ?s3 = "s2\<lparr>task_mem := (task_mem s2)(?b := (task_mem s2 ?b)\<lparr>t_ns_ctx := c, t_io_id := io_id, t_ns_id := ns_id\<rparr>)\<rparr>"
  have q3: "queues ?s3 Q"
    using assms(3) s2(2) payload_set_live [OF s2(2) new_task_fresh [OF assms(2)]]
    by (intro queues_grow [OF assms(3)]) (auto simp: payload_set_def)
  obtain q4 where q4: "tailq_init (RepTasks ?b) ?s3 = Some (?s3\<lparr>links := q4\<rparr>)"
    "queues (?s3\<lparr>links := q4\<rparr>) (Q(RepTasks ?b \<mapsto> []))"
    using queues_init [OF q3, of "RepTasks ?b"] b2 by auto
  have nb: "\<forall>h ys. (Q(RepTasks ?b \<mapsto> [])) h = Some ys \<longrightarrow> ?b \<notin> set ys"
    using queues_fresh [OF assms(3,2)] by (auto split: if_splits)
  obtain q5 where q5: "tailq_insert_tail (RepTasks ?b) ?b (?s3\<lparr>links := q4\<rparr>) = Some (?s3\<lparr>links := q5\<rparr>)"
    "queues (?s3\<lparr>links := q5\<rparr>) (Q(RepTasks ?b \<mapsto> [?b]))"
    using queues_insert [OF q4(2), of "RepTasks ?b" "[]" ?b] b2 nb by auto
  define s6 where "s6 = ?s3\<lparr>links := q5, task_mem := (task_mem ?s3)(?b := (task_mem ?s3 ?b)\<lparr>t_main_task := ?b,
    t_rep_completed_num := 0\<rparr>)\<rparr>"
  have "allocate_main_task g c qd io_id ns_id s = Some (?b, s6)"
    using s2(1) b b2 q4(1) q5(1) by (simp add: allocate_main_task_def calloc_task_eq write_task_def s6_def)
  moreover have "extends s s6"
    using s2(2) tm unfolding extends_def s6_def payload_set_def by (auto simp: fresh_heap_def)
  moreover have "queues s6 (Q(RepTasks ?b \<mapsto> [?b]))"
    by (rule queues_cong [OF q5(2)]) (simp_all add: s6_def)
  moreover have "ns_ctxs s6 = ns_ctxs s" using s2(2) by (simp add: s6_def payload_set_def)
  then have "task_ok s6 ?b ?b" using b b2 iovs tm assms(4) by (simp add: task_ok_def s6_def Let_def)
  ultimately show ?thesis using that tm by (simp add: s6_def)
qed

lemma copy_task_spec:
  assumes "fresh_heap s" and "queues s Q" and "Q (RepTasks main) = Some xs" and "task_ok s main main"
    and "c < length (ns_ctxs s)"
  obtains s' where "copy_task main c ns_id s = Some (brk s, s')" "extends s s'"
    "queues s' (Q(RepTasks main \<mapsto> xs @ [brk s]))" "task_ok s' main (brk s)"
    "t_ns_ctx (task_mem s' (brk s)) = c" "t_io_id (task_mem s' (brk s)) = t_io_id (task_mem s main)"
proof -
  let ?b = "brk s" and ?m = "task_mem s main"
  let ?s1 = "new_task s"
  let ?iov = "take (t_iovcnt ?m) (iov_mem s (t_iovs ?m))"
  have m: "main \<noteq> 0" "live s main" "live s (t_iovs ?m)" "iov_mem s (t_iovs ?m) \<noteq> []" "t_iovcnt ?m \<noteq> 0"
    using assms(4) by (simp_all add: task_ok_def Let_def)
  have lt: "main < ?b" "t_iovs ?m < ?b" using m fresh_live [OF assms(1)] by auto
  have b: "?b \<noteq> 0" using assms(1) by (simp add: fresh_heap_def)
  define s3 where "s3 = (grow (t_iovcnt ?m) ?s1)\<lparr>iov_mem := (iov_mem s)(?b + 1 := ?iov),
    task_mem := (task_mem s)(?b := zero_task\<lparr>t_ns_ctx := c, t_ns_id := ns_id, t_iovcnt := t_iovcnt ?m,
               t_iovs := ?b + 1, t_md_iov := t_md_iov ?m, t_io_id := t_io_id ?m, t_main_task := main\<rparr>)\<rparr>"
  have live3: "live s3 = (live s)(?b := True, ?b + 1 := True)" by (simp add: s3_def)
  have f3: "fresh_heap s3" using grow_fresh [OF new_task_fresh [OF assms(1)], of "t_iovcnt ?m"]
    by (simp add: s3_def fresh_heap_def)
  have q3: "queues s3 Q" by (rule queues_grow [OF assms(2)]) (simp_all add: s3_def)
  have nb: "\<forall>h ys. Q h = Some ys \<longrightarrow> ?b \<notin> set ys" using queues_fresh [OF assms(2,1)] by auto
  have "head_ok s3 (RepTasks main)" "live s3 ?b" using m(2) lt(1) by (simp_all add: live3)
  then obtain q where q: "tailq_insert_tail (RepTasks main) ?b s3 = Some (s3\<lparr>links := q\<rparr>)"
    "queues (s3\<lparr>links := q\<rparr>) (Q(RepTasks main \<mapsto> xs @ [?b]))"
    using queues_insert [OF q3 assms(3) _ _ nb] by blast
  have "copy_task main c ns_id s = Some (?b, s3\<lparr>links := q\<rparr>)"
    using m lt b q(1) by (simp add: copy_task_def calloc_task_eq alloc_grow read_task_def write_task_def s3_def Let_def)
  moreover have "extends s (s3\<lparr>links := q\<rparr>)"
    using f3 grow_brk [of ?s1 "t_iovcnt ?m"] by (auto simp: extends_def s3_def fresh_heap_def)
  moreover have "task_ok (s3\<lparr>links := q\<rparr>) main ?b" using b m assms(5) by (simp add: task_ok_def s3_def Let_def)
  ultimately show ?thesis using that q(2) by (simp add: s3_def)
qed

text \<open>The replicas that the loop over the namespace contexts adds behind the main task.\<close>

definition replicas :: "perf \<Rightarrow> addr \<Rightarrow> addr list \<Rightarrow> nat list \<Rightarrow> bool" where
  "replicas s main ys cs \<longleftrightarrow> map (\<lambda>a. t_ns_ctx (task_mem s a)) ys = cs \<and>
     (\<forall>a \<in> set ys. task_ok s main a \<and> t_io_id (task_mem s a) = t_io_id (task_mem s main))"

lemma replicas_extend:
  assumes "replicas s main ys cs" and "extends s s'" and "fresh_heap s" and "task_ok s main main"
  shows "replicas s' main ys cs"
proof -
  have t: "task_ok s' main a" "task_mem s' a = task_mem s a" if "a \<in> set ys" for a
    using extends_task_ok [OF assms(2,3)] assms(1) that unfolding replicas_def by blast+
  have "map (\<lambda>a. t_ns_ctx (task_mem s' a)) ys = map (\<lambda>a. t_ns_ctx (task_mem s a)) ys" using t(2) by simp
  also have "\<dots> = cs" using assms(1) by (simp add: replicas_def)
  finally show ?thesis using assms(1) t extends_task_ok(2) [OF assms(2,3,4)] by (simp add: replicas_def)
qed

lemma build_copies_spec:
  assumes "fresh_heap s" and "queues s Q" and "Q (RepTasks main) = Some xs" and "task_ok s main main"
    and "\<forall>c \<in> set cs. c < length (ns_ctxs s)"
  shows "\<exists>s' ys. build_group g qd io_id cs ns_id False main s = Some (main, s') \<and> extends s s' \<and>
    queues s' (Q(RepTasks main \<mapsto> xs @ ys)) \<and> replicas s' main ys cs"
  using assms
proof (induction cs arbitrary: s Q xs ns_id)
  case Nil
  then have "Q(RepTasks main \<mapsto> xs @ []) = Q" by auto
  then have "queues s (Q(RepTasks main \<mapsto> xs @ []))" using Nil.prems(2) by simp
  moreover have "replicas s main [] []" by (simp add: replicas_def)
  ultimately show ?case using extends_refl [OF Nil.prems(1)] unfolding build_group.simps by blast
next
  case (Cons c cs)
  obtain s1 where s1: "copy_task main c ns_id s = Some (brk s, s1)" "extends s s1"
    "queues s1 (Q(RepTasks main \<mapsto> xs @ [brk s]))" "task_ok s1 main (brk s)"
    "t_ns_ctx (task_mem s1 (brk s)) = c" "t_io_id (task_mem s1 (brk s)) = t_io_id (task_mem s main)"
    using copy_task_spec [OF Cons.prems(1-4)] Cons.prems(5) by (metis list.set_intros(1))
  note m1 = extends_task_ok [OF s1(2) Cons.prems(1,4)]
  have f1: "fresh_heap s1" and len: "ns_ctxs s1 = ns_ctxs s" using s1(2) by (simp_all add: extends_def)
  have "\<exists>s' ys. build_group g qd io_id cs (ns_id + 1) False main s1 = Some (main, s') \<and> extends s1 s' \<and>
      queues s' (Q(RepTasks main \<mapsto> xs @ [brk s], RepTasks main \<mapsto> (xs @ [brk s]) @ ys)) \<and> replicas s' main ys cs"
    using Cons.prems(5) by (intro Cons.IH [OF f1 s1(3) _ m1(1)]) (simp_all add: len)
  then obtain s' ys where s': "build_group g qd io_id cs (ns_id + 1) False main s1 = Some (main, s')" "extends s1 s'"
      "queues s' (Q(RepTasks main \<mapsto> (xs @ [brk s]) @ ys))" "replicas s' main ys cs"
    by auto
  have "replicas s1 main [brk s] [c]" using s1(4-6) m1(2) by (simp add: replicas_def)
  then have "replicas s' main [brk s] [c]" by (rule replicas_extend [OF _ s'(2) f1 m1(1)])
  then have "replicas s' main (brk s # ys) (c # cs)" using s'(4) by (simp add: replicas_def)
  moreover have "queues s' (Q(RepTasks main \<mapsto> xs @ brk s # ys))" using s'(3) by simp
  moreover have "build_group g qd io_id (c # cs) ns_id False main s = Some (main, s')" using s1(1) s'(1) by simp
  ultimately show ?case using extends_trans [OF s1(2) s'(2)] by blast
qed

section \<open>One whole group\<close>

text \<open>The order in which the namespaces of a group are served.\<close>

definition group_order :: "globals \<Rightarrow> nat \<Rightarrow> nat list" where
  "group_order g n = (if g_send_main_rep_finally g then [1..<n] @ [0] else [0..<n])"

definition new_group :: "globals \<Rightarrow> nat \<Rightarrow> u32 \<Rightarrow> perf \<Rightarrow> (addr \<times> perf) option" where
  "new_group g qd io_id s = do {
     (main, s) \<leftarrow> build_group g qd io_id [0..<length (ns_ctxs s)] 0 True 0 s;
     s \<leftarrow> (if g_send_main_rep_finally g then tailq_insert_tail (RepTasks main) main s else Some s);
     Some (main, s)
   }"

lemma build_main_irrelevant: "cs \<noteq> [] \<Longrightarrow> build_group g qd io_id cs ns_id True m s = build_group g qd io_id cs ns_id True m' s"
  by (cases cs) simp_all

lemma new_group_spec:
  assumes "config_ok g" and "fresh_heap s" and "queues s Q" and "ns_ctxs s \<noteq> []"
  shows "\<exists>s' xs. new_group g qd io_id s = Some (brk s, s') \<and> extends s s' \<and>
    queues s' (Q(RepTasks (brk s) \<mapsto> xs)) \<and> brk s \<in> set xs \<and>
    replicas s' (brk s) xs (group_order g (length (ns_ctxs s))) \<and>
    t_io_id (task_mem s' (brk s)) = io_id \<and> t_rep_completed_num (task_mem s' (brk s)) = 0"
proof -
  let ?b = "brk s" and ?n = "length (ns_ctxs s)"
  let ?h = "RepTasks ?b"
  have n: "[0..<?n] = 0 # [1..<?n]" "0 < ?n" using assms(4) by (simp_all add: upt_conv_Cons)
  obtain s1 where s1: "allocate_main_task g 0 qd io_id 0 s = Some (?b, s1)" "extends s s1"
    "queues s1 (Q(?h \<mapsto> [?b]))" "task_ok s1 ?b ?b" "t_ns_ctx (task_mem s1 ?b) = 0" "t_io_id (task_mem s1 ?b) = io_id"
    "t_rep_completed_num (task_mem s1 ?b) = 0"
    using allocate_main_task_spec [OF assms(1-3)] n(2) by metis
  have f1: "fresh_heap s1" "ns_ctxs s1 = ns_ctxs s" using s1(2) by (simp_all add: extends_def)
  have cs: "\<forall>c \<in> set [1..<?n]. c < length (ns_ctxs s1)" using f1(2) by simp
  show ?thesis
  proof (cases "g_send_main_rep_finally g")
    case False
    obtain s' ys where s': "build_group g qd io_id [1..<?n] (0 + 1) False ?b s1 = Some (?b, s')" "extends s1 s'"
      "queues s' ((Q(?h \<mapsto> [?b]))(?h \<mapsto> [?b] @ ys))" "replicas s' ?b ys [1..<?n]"
      using build_copies_spec [OF f1(1) s1(3) _ s1(4) cs] by (metis fun_upd_same)
    note m = extends_task_ok [OF s1(2) assms(2)] and m' = extends_task_ok [OF s'(2) f1(1) s1(4)]
    have "new_group g qd io_id s = Some (?b, s')" using s1(1) s'(1) False n(1) by (simp add: new_group_def)
    moreover have "replicas s' ?b (?b # ys) (group_order g ?n)"
      using s'(4) m' s1(5) n(1) False by (simp add: replicas_def group_order_def)
    ultimately show ?thesis using s'(3) m'(2) s1(6,7) extends_trans [OF s1(2) s'(2)]
      by (intro exI [of _ s'] exI [of _ "?b # ys"]) simp
  next
    case True
    obtain q where q: "tailq_remove ?h ?b s1 = Some (s1\<lparr>links := q\<rparr>)" "queues (s1\<lparr>links := q\<rparr>) ((Q(?h \<mapsto> [?b]))(?h \<mapsto> []))"
      using queues_remove_only [OF s1(3), of ?h ?b] s1(4) by (auto simp: task_ok_def Let_def)
    let ?s2 = "s1\<lparr>links := q\<rparr>"
    have f2: "fresh_heap ?s2" "extends s1 ?s2" "task_ok ?s2 ?b ?b"
      using f1(1) s1(4) by (simp_all add: fresh_heap_def extends_def task_ok_def)
    have cs2: "\<forall>c \<in> set [1..<?n]. c < length (ns_ctxs ?s2)" using cs by simp
    obtain s3 ys where s3: "build_group g qd io_id [1..<?n] (0 + 1) False ?b ?s2 = Some (?b, s3)" "extends ?s2 s3"
      "queues s3 ((Q(?h \<mapsto> []))(?h \<mapsto> [] @ ys))" "replicas s3 ?b ys [1..<?n]"
      using build_copies_spec [OF f2(1) q(2) _ f2(3) cs2] by (metis fun_upd_same fun_upd_upd)
    note m3 = extends_task_ok [OF s3(2) f2(1,3)]
    have ns3: "t_ns_ctx (task_mem s3 ?b) = 0" using m3(2) s1(5) by simp
    have "?b \<notin> set ys"
    proof
      assume "?b \<in> set ys"
      then have "0 \<in> set (map (\<lambda>a. t_ns_ctx (task_mem s3 a)) ys)" using ns3 by force
      then show False using s3(4) by (simp add: replicas_def del: set_map)
    qed
    then have nb: "\<forall>h zs. (Q(?h \<mapsto> ys)) h = Some zs \<longrightarrow> ?b \<notin> set zs"
      using queues_fresh [OF assms(3,2)] by auto
    have lv: "live s3 ?b" using m3(1) by (simp add: task_ok_def Let_def)
    obtain q4 where q4: "tailq_insert_tail ?h ?b s3 = Some (s3\<lparr>links := q4\<rparr>)"
      "queues (s3\<lparr>links := q4\<rparr>) ((Q(?h \<mapsto> ys))(?h \<mapsto> ys @ [?b]))"
      using queues_insert [of s3 "Q(?h \<mapsto> ys)" ?h ys ?b] s3(3) nb lv by auto
    have "new_group g qd io_id s = Some (?b, s3\<lparr>links := q4\<rparr>)"
      using s1(1) q(1) s3(1) q4(1) True n(1) by (simp add: new_group_def)
    moreover have "extends s (s3\<lparr>links := q4\<rparr>)"
      using extends_trans [OF extends_trans [OF s1(2) f2(2)] s3(2)] by (simp add: extends_def fresh_heap_def)
    moreover have "replicas (s3\<lparr>links := q4\<rparr>) ?b (ys @ [?b]) (group_order g ?n)"
      using s3(4) m3(1) ns3 True by (simp add: replicas_def group_order_def task_ok_def)
    ultimately show ?thesis using q4(2) m3(2) s1(6,7)
      by (intro exI [of _ "s3\<lparr>links := q4\<rparr>"] exI [of _ "ys @ [?b]"]) simp
  qed
qed

section \<open>All groups\<close>

text \<open>The invariant of the start: what a run keeps, and the memory the next group is built in.\<close>

definition start_inv :: "globals \<Rightarrow> (addr \<times> addr list) list \<Rightarrow> perf \<Rightarrow> bool" where
  "start_inv g gs s \<longleftrightarrow> run_inv g gs s \<and> fresh_heap s \<and> c_task ` set (issued s) \<subseteq> set (concat (map snd gs)) \<and>
     (\<exists>Q. queues s Q \<and> (\<forall>(main, xs) \<in> set gs. Q (RepTasks main) = Some xs))"

lemma extends_run_inv:
  assumes "run_inv g gs s" and "fresh_heap s" and "extends s s'" and "\<forall>(main, xs) \<in> set gs. linked s' (RepTasks main) xs"
  shows "run_inv g gs s'"
proof -
  have inv: "barrier_inv g gs s" and step: "\<forall>(main, xs) \<in> set gs. in_step s xs"
    using assms(1) by (simp_all add: run_inv_def)
  have e: "ns_ctxs s' = ns_ctxs s" "namespaces s' = namespaces s" "inflight s' = inflight s" "issued s' = issued s"
    using assms(3) by (simp_all add: extends_def)
  have old: "task_ok s' main a" "task_mem s' a = task_mem s a" if "(main, xs) \<in> set gs" "a \<in> set xs" for main xs a
    using extends_task_ok [OF assms(3,2)] group_dest(3) [OF barrier_dest(5) [OF inv that(1)]] that(2) by blast+
  have "group_inv g s' (main, xs)" if p: "(main, xs) \<in> set gs" for main xs
  proof -
    note b = barrier_dest [OF inv p]
    have "map (\<lambda>a. t_ns_ctx (task_mem s' a)) xs = map (\<lambda>a. t_ns_ctx (task_mem s a)) xs" using old(2) [OF p] by simp
    then have "distinct (map (\<lambda>a. t_ns_ctx (task_mem s' a)) xs)" using group_dest(5) [OF b(5)] by (simp only:)
    then have "replica_group s' main xs"
      using group_dest(2) [OF b(5)] old(1) [OF p] assms(4) p by (auto simp: replica_group_def)
    moreover have "in_flight s' xs = in_flight s xs" by (simp add: in_flight_def e)
    moreover have "same_io_id s' main xs"
      unfolding same_io_id_def
    proof
      fix a assume a: "a \<in> set xs"
      have "t_io_id (task_mem s a) = t_io_id (task_mem s main)"
        using b(3) a unfolding group_inv.simps same_io_id_def by blast
      then show "t_io_id (task_mem s' a) = t_io_id (task_mem s' main)"
        using old(2) [OF p a] old(2) [OF p b(7)] by simp
    qed
    ultimately show ?thesis using b(3) old(2) [OF p b(7)] by (simp add: group_inv.simps)
  qed
  moreover have "running s'" using barrier_inv_def inv e by (simp add: running_def ctxs_ok_def)
  moreover have "load s' i = load s i" for i
  proof -
    have "task_mem s' a = task_mem s a" if "a \<in> set (inflight s)" for a
      using inflight_group [OF inv that] old(2) by metis
    then show ?thesis unfolding load_def e by (metis (mono_tags, lifting) filter_cong)
  qed
  then have "depth_inv s'" using inv e by (simp add: barrier_inv_def depth_inv_def)
  moreover have "in_step s' xs" if p: "(main, xs) \<in> set gs" for main xs
  proof -
    have "\<forall>a \<in> set xs. blocks_of s' a = blocks_of s a" using old(2) [OF p] by (simp add: blocks_of_def e)
    then show ?thesis using step p unfolding in_step_def replica_log_def e by auto
  qed
  ultimately show ?thesis using inv e by (auto simp: run_inv_def barrier_inv_def)
qed

lemma replicas_group:
  assumes "replicas s main xs (group_order g n)" and "linked s (RepTasks main) xs" and "main \<in> set xs"
  shows "replica_group s main xs" and "same_io_id s main xs" and "0 < n \<Longrightarrow> length xs = n"
proof -
  have m: "map (\<lambda>a. t_ns_ctx (task_mem s a)) xs = group_order g n" using assms(1) by (simp add: replicas_def)
  then have "distinct (map (\<lambda>a. t_ns_ctx (task_mem s a)) xs)" by (simp add: group_order_def)
  then show "replica_group s main xs" using assms by (simp add: replica_group_def replicas_def)
  show "same_io_id s main xs" using assms(1) by (simp add: replicas_def same_io_id_def)
  have "length xs = length (group_order g n)" using arg_cong [OF m, of length] by simp
  then show "0 < n \<Longrightarrow> length xs = n" by (simp add: group_order_def)
qed

lemma submit_new_group:
  assumes inv: "run_inv g gs s" and sub: "submission g s xs off rd s'" and unlimited: "g_number_ios g = 0"
    and grp: "replica_group s main xs" "same_io_id s main xs" "length xs = unat (g_rep_num g)" "0 < length xs"
    and zero: "t_rep_completed_num (task_mem s main) = 0"
    and new: "set xs \<inter> set (concat (map snd gs)) = {}"
    and log: "c_task ` set (issued s) \<subseteq> set (concat (map snd gs))"
  shows "run_inv g (gs @ [(main, xs)]) s'"
proof -
  have b: "barrier_inv g gs s" and step: "\<forall>(main, xs) \<in> set gs. in_step s xs" using inv by (simp_all add: run_inv_def)
  have sh: "same_shape s s'" and fl: "inflight s' = inflight s @ xs"
    and ids: "t_io_id (task_mem s' a) = t_io_id (task_mem s a)"
      "t_rep_completed_num (task_mem s' a) = t_rep_completed_num (task_mem s a)" for a
    using sub by (simp_all add: submission_def)
  have run: "running s" and dep: "depth_inv s" and sub': "set (inflight s) \<subseteq> set (concat (map snd gs))"
    and dis: "distinct (concat (map snd gs))" "distinct (inflight s)"
    using b by (simp_all add: barrier_inv_def)
  note g = group_dest [OF grp(1)]
  have own: "group_inv g s' (main, xs)"
    using grp zero in_flight_all [of xs s'] fl
    by (simp add: group_inv.simps same_shape_ok(3) [OF sh] ids same_io_id_def)
  have other: "group_inv g s' (m, ys)" "set ys \<inter> set xs = {}" if p: "(m, ys) \<in> set gs" for m ys
  proof -
    show dj: "set ys \<inter> set xs = {}" using new p by fastforce
    then show "group_inv g s' (m, ys)"
      using ids fl by (intro group_inv_frame [OF barrier_dest(3) [OF b p] sh]) auto
  qed
  have "running s'" "depth_inv s'"
    using submission_running [OF sub run unlimited] submission_depth [OF sub dep grp(1)] .
  moreover have "distinct (inflight s')" using dis(2) g(6) new sub' by (auto simp: fl)
  moreover have "distinct (concat (map snd (gs @ [(main, xs)])))" using dis(1) g(6) new by auto
  ultimately have "barrier_inv g (gs @ [(main, xs)]) s'"
    using own other(1) sub' fl by (auto simp: barrier_inv_def)
  moreover have "in_step s' ys" if "(m, ys) \<in> set (gs @ [(main, xs)])" for m ys
  proof (rule in_step_append)
    show "issued s' = issued s @ map (replica_cmd s off rd) xs" using sub by (simp add: submission_def)
    show "distinct xs" by (rule g(6))
    have "ys = xs \<or> (m, ys) \<in> set gs" using that by auto
    then show "ys = xs \<or> set ys \<inter> set xs = {}" using other(2) by blast
    have "replica_log s a = []" if "a \<in> set xs" for a
      using that log new by (auto simp: replica_log_def filter_empty_conv)
    then have "in_step s xs" by (auto simp: in_step_def)
    then show "in_step s ys" using \<open>ys = xs \<or> (m, ys) \<in> set gs\<close> step by auto
    have "\<forall>a \<in> set ys. t_ns_ctx (task_mem s a) < length (ns_ctxs s)"
      using \<open>ys = xs \<or> (m, ys) \<in> set gs\<close> g(8) group_dest(8) [OF barrier_dest(5) [OF b]] by blast
    then show "\<forall>a \<in> set ys. blocks_of s' a = blocks_of s a"
      using blocks_of_same_shape [OF sh] run by (simp add: running_def)
  qed
  ultimately show ?thesis by (auto simp: run_inv_def)
qed

lemma queues_disjoint:
  assumes "queues s Q" and "Q h = Some xs" and "Q h' = Some ys" and "h \<noteq> h'"
  shows "set xs \<inter> set ys = {}"
  using tq.rep_disjoint [of "links s" Q h xs h' ys] assms by (simp add: queues_def)

lemma start_step:
  assumes inv: "start_inv g gs s" and conf: "config_ok g" and acc: "accepting e" and unlimited: "g_number_ios g = 0"
    and n: "length (ns_ctxs s) = unat (g_rep_num g)" "0 < unat (g_rep_num g)"
  shows "\<exists>s1 s2 xs. new_group g qd io_id s = Some (brk s, s1) \<and> submit_single_io_rep e g (brk s) s1 = Some s2 \<and>
    start_inv g (gs @ [(brk s, xs)]) s2 \<and> t_io_id (task_mem s2 (brk s)) = io_id \<and>
    map (\<lambda>a. t_ns_ctx (task_mem s2 a)) xs = group_order g (length (ns_ctxs s)) \<and>
    length (ns_ctxs s2) = length (ns_ctxs s) \<and> inflight s2 = inflight s @ xs \<and>
    (\<forall>m. seq_inv g m s \<longrightarrow> seq_inv g m s2) \<and>
    (\<forall>(m, ys) \<in> set gs. t_io_id (task_mem s2 m) = t_io_id (task_mem s m) \<and>
       map (\<lambda>a. t_ns_ctx (task_mem s2 a)) ys = map (\<lambda>a. t_ns_ctx (task_mem s a)) ys)"
proof -
  let ?b = "brk s"
  obtain Q where Q: "queues s Q" "\<forall>(m, ys) \<in> set gs. Q (RepTasks m) = Some ys"
    and run: "run_inv g gs s" and f: "fresh_heap s" and log: "c_task ` set (issued s) \<subseteq> set (concat (map snd gs))"
    using inv by (auto simp: start_inv_def)
  have ne: "ns_ctxs s \<noteq> []" using n by auto
  obtain s1 xs where s1: "new_group g qd io_id s = Some (?b, s1)" "extends s s1"
    "queues s1 (Q(RepTasks ?b \<mapsto> xs))" "?b \<in> set xs" "replicas s1 ?b xs (group_order g (length (ns_ctxs s)))"
    "t_io_id (task_mem s1 ?b) = io_id" "t_rep_completed_num (task_mem s1 ?b) = 0"
    using new_group_spec [OF conf f Q(1) ne] by blast
  have b: "barrier_inv g gs s" using run by (simp add: run_inv_def)
  have old: "task_ok s m m" "m \<noteq> ?b" if "(m, ys) \<in> set gs" for m ys
  proof -
    show "task_ok s m m" by (rule group_dest(4) [OF barrier_dest(5) [OF b that]])
    then show "m \<noteq> ?b" using extends_task_ok(3) [OF s1(2) f] by blast
  qed
  have e: "ns_ctxs s1 = ns_ctxs s" "issued s1 = issued s" "fresh_heap s1" "inflight s1 = inflight s"
      "namespaces s1 = namespaces s" using s1(2) by (simp_all add: extends_def)
  let ?Q = "Q(RepTasks ?b \<mapsto> xs)"
  have Q1: "?Q (RepTasks m) = Some ys" if "(m, ys) \<in> set gs" for m ys using old(2) [OF that] Q(2) that by auto
  have run1: "run_inv g gs s1"
    using queues_linked [OF s1(3) Q1] by (intro extends_run_inv [OF run f s1(2)]) blast
  have lk: "linked s1 (RepTasks ?b) xs" by (rule queues_linked [OF s1(3)]) simp
  note grp = replicas_group [OF s1(5) lk s1(4)]
  have "\<not> is_draining (ns_ctxs s1 ! t_ns_ctx (task_mem s1 ?b))" and "ctxs_ok s1"
    using running_dest [of s1] run1 group_dest(2,8) [OF grp(1)] by (auto simp: run_inv_def barrier_inv_def)
  then obtain off rd s2 where s2: "submit_single_io_rep e g ?b s1 = Some s2" "submission g s1 xs off rd s2"
    "seq_step g s1 ?b off s2"
    using submit_group_submission [OF acc _ grp(1)] by metis
  have "set ys \<inter> set xs = {}" if "(m, ys) \<in> set gs" for m ys
    using queues_disjoint [OF s1(3) Q1 [OF that], of "RepTasks ?b" xs] old(2) [OF that] by auto
  then have new: "set xs \<inter> set (concat (map snd gs)) = {}" by fastforce
  have sh: "same_shape s1 s2" using s2(2) by (simp add: submission_def)
  have sq: "seq_inv g m s2" if "seq_inv g m s" for m
  proof (rule seq_inv_submit [OF _ sh \<open>ctxs_ok s1\<close> s2(3)])
    show "seq_inv g m s1" using that by (simp add: seq_inv_def sequential_def get_min_size_in_ios_def e)
    show "issued s2 = issued s1 @ map (replica_cmd s1 off rd) xs" using s2(2) by (simp add: submission_def)
    show "t_ns_ctx (task_mem s1 ?b) < length (ns_ctxs s1)" using group_dest(2,8) [OF grp(1)] by blast
  qed
  have "run_inv g (gs @ [(?b, xs)]) s2"
    using submit_new_group [OF run1 s2(2) unlimited grp(1,2) _ _ s1(7) new] grp(3) n log e(2) by simp
  moreover have "queues s2 ?Q" using queues_cong [OF s1(3)] same_shape_heap [OF sh] by simp
  moreover have "fresh_heap s2" using e(3) same_shape_heap [OF sh] by (simp add: fresh_heap_def)
  moreover have "c_task ` set (issued s2) \<subseteq> set (concat (map snd (gs @ [(?b, xs)])))"
    using log s2(2) e(2) by (auto simp: submission_def replica_cmd_def Let_def)
  ultimately have fin: "start_inv g (gs @ [(?b, xs)]) s2"
    unfolding start_inv_def using Q1 by (intro conjI exI [of _ ?Q]) auto
  have "t_io_id (task_mem s2 m) = t_io_id (task_mem s m) \<and>
       map (\<lambda>a. t_ns_ctx (task_mem s2 a)) ys = map (\<lambda>a. t_ns_ctx (task_mem s a)) ys" if p: "(m, ys) \<in> set gs" for m ys
  proof -
    have "task_mem s1 a = task_mem s a" if "a \<in> set ys" for a
      using extends_task_ok(2) [OF s1(2) f] group_dest(3) [OF barrier_dest(5) [OF b p]] that by blast
    then show ?thesis using s2(2) barrier_dest(7) [OF b p] same_shape_task(1) [OF sh] by (simp add: submission_def)
  qed
  moreover have "map (\<lambda>a. t_ns_ctx (task_mem s2 a)) xs = group_order g (length (ns_ctxs s))"
    using s1(5) same_shape_task(1) [OF sh] by (simp add: replicas_def)
  moreover have "length (ns_ctxs s2) = length (ns_ctxs s)" using same_shape_lengths(1) [OF sh] e(1) by simp
  moreover have "t_io_id (task_mem s2 ?b) = io_id" using s2(2) s1(6) by (simp add: submission_def)
  moreover have "inflight s2 = inflight s @ xs" using s2(2) e(4) by (simp add: submission_def)
  ultimately show ?thesis using s1(1) s2(1) fin sq by blast
qed

lemma submit_io_rep_new_group:
  assumes "ns_ctxs s \<noteq> []" and "new_group g qd io_id s = Some (b, s1)"
  shows "submit_io_rep e g (Suc qd) io_id main s =
    Option.bind (submit_single_io_rep e g b s1) (submit_io_rep e g qd (io_id + 1) b)"
proof -
  have "build_group g qd io_id [0..<length (ns_ctxs s)] 0 True main s =
    build_group g qd io_id [0..<length (ns_ctxs s)] 0 True 0 s"
    using assms(1) by (intro build_main_irrelevant) simp
  then show ?thesis using assms(2) by (auto simp: new_group_def)
qed

text \<open>The groups that the start builds, with their I/O numbers and the order of their namespaces.\<close>

definition groups_built :: "globals \<Rightarrow> nat \<Rightarrow> u32 list \<Rightarrow> (addr \<times> addr list) list \<Rightarrow> perf \<Rightarrow> bool" where
  "groups_built g n ids gs s \<longleftrightarrow> map (\<lambda>(main, xs). t_io_id (task_mem s main)) gs = ids \<and>
     (\<forall>(main, xs) \<in> set gs. map (\<lambda>a. t_ns_ctx (task_mem s a)) xs = group_order g n)"

lemma groups_built_frame:
  assumes "groups_built g n ids gs s"
    and "\<forall>(m, ys) \<in> set gs. t_io_id (task_mem s' m) = t_io_id (task_mem s m) \<and>
       map (\<lambda>a. t_ns_ctx (task_mem s' a)) ys = map (\<lambda>a. t_ns_ctx (task_mem s a)) ys"
  shows "groups_built g n ids gs s'"
proof -
  have "map (\<lambda>(main, xs). t_io_id (task_mem s' main)) gs = map (\<lambda>(main, xs). t_io_id (task_mem s main)) gs"
    using assms(2) by (intro map_cong refl) auto
  also have "\<dots> = ids" using assms(1) by (simp add: groups_built_def)
  finally have 1: "map (\<lambda>(main, xs). t_io_id (task_mem s' main)) gs = ids" .
  have 2: "map (\<lambda>a. t_ns_ctx (task_mem s' a)) ys = group_order g n" if "(m, ys) \<in> set gs" for m ys
  proof -
    have "map (\<lambda>a. t_ns_ctx (task_mem s' a)) ys = map (\<lambda>a. t_ns_ctx (task_mem s a)) ys"
      using assms(2) that by blast
    also have "\<dots> = group_order g n" using assms(1) that by (auto simp: groups_built_def)
    finally show ?thesis .
  qed
  show ?thesis unfolding groups_built_def using 1 2 by blast
qed

lemma submit_io_rep_spec:
  assumes "start_inv g gs s" and "config_ok g" and "accepting e" and "g_number_ios g = 0"
    and "length (ns_ctxs s) = unat (g_rep_num g)" and "0 < unat (g_rep_num g)"
    and "groups_built g (unat (g_rep_num g)) ids gs s" and "inflight s = concat (map snd gs)"
  shows "\<exists>s' gs'. submit_io_rep e g qd io_id main s = Some s' \<and> start_inv g gs' s' \<and>
    inflight s' = concat (map snd gs') \<and> (\<forall>m. seq_inv g m s \<longrightarrow> seq_inv g m s') \<and>
    groups_built g (unat (g_rep_num g)) (ids @ map (\<lambda>k. io_id + of_nat k) [0..<qd]) gs' s'"
  using assms
proof (induction qd arbitrary: io_id main s gs ids)
  case 0
  show ?case using 0(1,7,8) by (intro exI [of _ s] exI [of _ gs]) simp
next
  case (Suc qd)
  obtain s1 s2 xs where s2: "new_group g qd io_id s = Some (brk s, s1)" "submit_single_io_rep e g (brk s) s1 = Some s2"
    "start_inv g (gs @ [(brk s, xs)]) s2" "t_io_id (task_mem s2 (brk s)) = io_id"
    "map (\<lambda>a. t_ns_ctx (task_mem s2 a)) xs = group_order g (length (ns_ctxs s))"
    "length (ns_ctxs s2) = length (ns_ctxs s)" "inflight s2 = inflight s @ xs" "\<forall>m. seq_inv g m s \<longrightarrow> seq_inv g m s2"
    "\<forall>(m, ys) \<in> set gs. t_io_id (task_mem s2 m) = t_io_id (task_mem s m) \<and>
       map (\<lambda>a. t_ns_ctx (task_mem s2 a)) ys = map (\<lambda>a. t_ns_ctx (task_mem s a)) ys"
    using start_step [OF Suc.prems(1-6), of qd io_id] by blast
  let ?n = "unat (g_rep_num g)"
  have "groups_built g ?n ids gs s2" by (rule groups_built_frame [OF Suc.prems(7) s2(9)])
  then have gb: "groups_built g ?n (ids @ [io_id]) (gs @ [(brk s, xs)]) s2"
    using s2(4,5) Suc.prems(5) by (simp add: groups_built_def)
  have "ns_ctxs s \<noteq> []" using Suc.prems(5,6) by auto
  note unf = submit_io_rep_new_group [OF this s2(1)]
  have fl: "inflight s2 = concat (map snd (gs @ [(brk s, xs)]))" using s2(7) Suc.prems(8) by simp
  obtain s' gs' where s': "submit_io_rep e g qd (io_id + 1) (brk s) s2 = Some s'" "start_inv g gs' s'"
    "inflight s' = concat (map snd gs')" "\<forall>m. seq_inv g m s2 \<longrightarrow> seq_inv g m s'"
    "groups_built g ?n ((ids @ [io_id]) @ map (\<lambda>k. io_id + 1 + of_nat k) [0..<qd]) gs' s'"
    using Suc.IH [OF s2(3) Suc.prems(2-4) trans [OF s2(6) Suc.prems(5)] Suc.prems(6) gb fl] by blast
  have "map (\<lambda>k. io_id + of_nat k) [0..<Suc qd] = io_id # map (\<lambda>k. io_id + 1 + of_nat k) [0..<qd]"
    unfolding map_upt_Suc by (simp add: ac_simps)
  then have "groups_built g ?n (ids @ map (\<lambda>k. io_id + of_nat k) [0..<Suc qd]) gs' s'" using s'(5) by simp
  moreover have "submit_io_rep e g (Suc qd) io_id main s = Some s'" 
    using unf s2(2) s'(1) by (simp del: submit_io_rep.simps)
  ultimately show ?case using s'(2-4) s2(8) by blast
qed

section \<open>Whole runs\<close>

text \<open>
  A worker before its first submission: running namespace contexts with no outstanding I/O, a heap
  and queues that hold no task of a group.
\<close>

definition start_state :: "perf \<Rightarrow> bool" where
  "start_state s \<longleftrightarrow> running s \<and> fresh_heap s \<and> inflight s = [] \<and> issued s = [] \<and>
     (\<forall>c \<in> set (ns_ctxs s). current_queue_depth c = 0)"

definition run_config :: "env \<Rightarrow> globals \<Rightarrow> perf \<Rightarrow> bool" where
  "run_config e g s \<longleftrightarrow> config_ok g \<and> accepting e \<and> g_number_ios g = 0 \<and>
     length (ns_ctxs s) = unat (g_rep_num g) \<and> 0 < unat (g_rep_num g)"

lemma start_state_inv:
  assumes "start_state s"
  shows "start_inv g [] s"
proof -
  have "queues s Map.empty" by (simp add: queues_def tq_rep_def)
  moreover have "depth_inv s" using assms by (simp add: start_state_def depth_inv_def load_def)
  ultimately show ?thesis
    using assms by (auto simp: start_inv_def run_inv_def barrier_inv_def start_state_def)
qed

lemma start_run:
  assumes "start_state s" and "run_config e g s"
  obtains s' gs where "submit_io_rep e g qd 1 0 s = Some s'" "run_inv g gs s'"
    "groups_built g (unat (g_rep_num g)) (map (\<lambda>k. 1 + of_nat k) [0..<qd]) gs s'"
    "inflight s' = concat (map snd gs)" "\<And>m. seq_inv g m s \<Longrightarrow> seq_inv g m s'"
proof -
  have c: "config_ok g" "accepting e" "g_number_ios g = 0" "length (ns_ctxs s) = unat (g_rep_num g)"
    "0 < unat (g_rep_num g)" using assms(2) by (simp_all add: run_config_def)
  have "groups_built g (unat (g_rep_num g)) [] [] s" by (simp add: groups_built_def)
  moreover have "inflight s = concat (map snd [])" using assms(1) by (simp add: start_state_def)
  ultimately have "\<exists>s' gs'. submit_io_rep e g qd 1 0 s = Some s' \<and> start_inv g gs' s' \<and>
    inflight s' = concat (map snd gs') \<and> (\<forall>m. seq_inv g m s \<longrightarrow> seq_inv g m s') \<and>
    groups_built g (unat (g_rep_num g)) ([] @ map (\<lambda>k. 1 + of_nat k) [0..<qd]) gs' s'"
    by (rule submit_io_rep_spec [OF start_state_inv [OF assms(1)] c])
  then
  obtain s' gs where r: "submit_io_rep e g qd 1 0 s = Some s'" "start_inv g gs s'"
    "inflight s' = concat (map snd gs)" "\<forall>m. seq_inv g m s \<longrightarrow> seq_inv g m s'"
    "groups_built g (unat (g_rep_num g)) ([] @ map (\<lambda>k. 1 + of_nat k) [0..<qd]) gs s'"
    by (elim exE conjE)
  show ?thesis
  proof (rule that [OF r(1)])
    show "run_inv g gs s'" using r(2) by (simp add: start_inv_def)
    show "groups_built g (unat (g_rep_num g)) (map (\<lambda>k. 1 + of_nat k) [0..<qd]) gs s'" using r(5) by simp
    show "inflight s' = concat (map snd gs)" by (rule r(3))
    show "seq_inv g m s \<Longrightarrow> seq_inv g m s'" for m using r(4) by blast
  qed
qed



section \<open>A concrete run\<close>

text \<open>Two namespaces of different sizes, two groups in flight, a driver that accepts everything.\<close>

definition demo_entry :: "u64 \<Rightarrow> ns_entry" where
  "demo_entry n = \<lparr>io_size_blocks = 8, num_io_requests = 4, size_in_ios = n, block_size = 512, md_size = 0,
     md_interleave = False, io_flags_pract = False, seed = 0, zipf = False\<rparr>"

definition demo_ctx :: "nat \<Rightarrow> ns_worker_ctx" where
  "demo_ctx i = \<lparr>entry = i, stats = \<lparr>io_submitted = 0, io_completed = 0, total_tsc = 0, min_tsc = -1, max_tsc = 0\<rparr>,
     current_queue_depth = 0, offset_in_ios = 0, is_draining = False, num_active_qpairs = 1, last_qpair = 0,
     histogram = empty_hist 7, status = 0\<rparr>"

definition demo_state :: perf where
  "demo_state = \<lparr>live = (\<lambda>_. False), brk = 1, task_mem = (\<lambda>_. zero_task), iov_mem = (\<lambda>_. []), dma_pattern = (\<lambda>_. 0),
     links = \<lparr>tqh_first = (\<lambda>_. None), tqh_last = First, tqe_next = (\<lambda>_. None), tqe_prev = (\<lambda>_. First SwapList)\<rparr>,
     namespaces = [demo_entry 100, demo_entry 60], ns_ctxs = [demo_ctx 0, demo_ctx 1],
     n_driver = 0, n_tick = 0, n_zipf = 0, inflight = [], issued = []\<rparr>"

definition demo_globals :: globals where
  "demo_globals = \<lparr>g_rep_num = 2, g_queue_depth = 2, g_send_main_rep_finally = False, g_continue_on_error = False,
     g_is_random = False, g_rw_percentage = 0, g_number_ios = 0, g_io_size_bytes = 4096, g_io_unit_size = 4096,
     g_max_io_md_size = 0, g_max_io_size_blocks = 8, g_latency_sw_tracking_level = 0\<rparr>"

definition demo_env :: env where
  "demo_env = \<lparr>driver_rc = (\<lambda>_. 0), ticks = (\<lambda>n. of_nat n), rand_r = (\<lambda>s. (0, s)), zipf_generate = (\<lambda>_. 0),
     dif_ctx_init_rc = (\<lambda>_. 0), dif_generate_rc = (\<lambda>_. 0), uninit_u64 = (\<lambda>_. 0)\<rparr>"

lemmas demo_defs = demo_entry_def demo_ctx_def demo_state_def demo_globals_def demo_env_def

lemma demo_start: "start_state demo_state"
  using hist_inv_empty [of 7]
  by (simp add: start_state_def running_def ctx_running_def ctxs_ok_def fresh_heap_def demo_defs)

lemma demo_config: "run_config demo_env demo_globals demo_state"
  by (simp add: run_config_def config_ok_def accepting_def demo_defs)


text \<open>The demonstration run after its start, and one completion further.\<close>

lemma demo_run:
  obtains s0 gs main xs a t where "submit_io_rep demo_env demo_globals 2 1 0 demo_state = Some s0"
    "barrier_inv demo_globals gs s0" "(main, xs) \<in> set gs" "a \<in> set xs" "a \<in> set (inflight s0)"
    "completes demo_env demo_globals s0 t"
proof -
  obtain s0 gs where s0: "submit_io_rep demo_env demo_globals 2 1 0 demo_state = Some s0"
    "run_inv demo_globals gs s0"
    "groups_built demo_globals (unat (g_rep_num demo_globals)) (map (\<lambda>k. 1 + of_nat k) [0..<2]) gs s0"
    by (rule start_run [OF demo_start demo_config])
  have b: "barrier_inv demo_globals gs s0" using s0(2) by (simp add: run_inv_def)
  have "length gs = 2" using arg_cong [of _ _ length, OF conjunct1 [OF s0(3) [unfolded groups_built_def]]] by simp
  then obtain main xs where p: "(main, xs) \<in> set gs" by (cases gs) auto
  then have "0 < in_flight s0 xs" using barrier_dest(3) [OF b p] by (simp add: group_inv.simps)
  then obtain a where a: "a \<in> set xs" "a \<in> set (inflight s0)"
    by (metis (no_types, lifting) filter_False in_flight_def length_greater_0_conv)
  let ?st = "\<lparr>sct = 0, sc = 0\<rparr>"
  have st: "keeps_running demo_globals ?st" by (simp add: keeps_running_def)
  have acc: "accepting demo_env" "g_number_ios demo_globals = 0" using demo_config by (simp_all add: run_config_def)
  obtain t where "io_complete demo_env demo_globals a ?st (s0\<lparr>inflight := remove1 a (inflight s0)\<rparr>) = Some t"
    using completion_step [OF b acc st p a] by blast
  then have "completes demo_env demo_globals s0 t" by (rule completion [OF a(2) st])
  then show ?thesis by (rule that [OF s0(1) b p a])
qed




end
