(* ===== verification/Perf_Edge.thy ===== *)
theory Perf_Edge
  imports Perf_Start
begin

text \<open>
  The load generator at its boundaries: the scatter-gather walk over a task's payload, the sizes
  that registration admits, the sequential offset, the I/O numbers, the assignment of namespaces
  to workers, and two places where the replicated code leaves what it promises: releasing a group
  and queueing a refused replica.
\<close>

section \<open>The payload and its scatter-gather walk\<close>

lemma fill_iovs_simps:
  "fill_iovs unit 0 buf off = []"
  "unit \<noteq> 0 \<Longrightarrow> len \<noteq> 0 \<Longrightarrow> fill_iovs unit len buf off =
     \<lparr>iov_base = buf + off, iov_len = min len unit\<rparr> # fill_iovs unit (len - min len unit) buf (off + min len unit)"
  by (subst fill_iovs.simps, simp)+

definition iov_bytes :: "iovec \<Rightarrow> addr list" where
  "iov_bytes v = [iov_base v..<iov_base v + iov_len v]"

lemma iov_bytes_make [simp]: "iov_bytes \<lparr>iov_base = b, iov_len = n\<rparr> = [b..<b + n]"
  by (simp add: iov_bytes_def)

lemma fill_iovs_bytes:
  "unit \<noteq> 0 \<Longrightarrow> concat (map iov_bytes (fill_iovs unit len buf off)) = [buf + off..<buf + off + len]"
proof (induction unit len buf off rule: fill_iovs.induct)
  case (1 unit len buf off)
  show ?case
  proof (cases "len = 0")
    case True
    then show ?thesis by (simp add: fill_iovs_simps)
  next
    case False
    let ?m = "min len unit"
    have "[buf + off..<buf + off + ?m] @ [buf + off + ?m..<buf + off + len] = [buf + off..<buf + off + len]"
      by (metis add.assoc le_add_diff_inverse min.cobounded1 upt_add_eq_append le_add1)
    moreover have "concat (map iov_bytes (fill_iovs unit (len - ?m) buf (off + ?m))) =
        [buf + (off + ?m)..<buf + (off + ?m) + (len - ?m)]"
      using 1 False by simp
    ultimately show ?thesis using False 1(2) by (simp add: fill_iovs_simps(2) add.assoc)
  qed
qed

lemma fill_iovs_lens: "v \<in> set (fill_iovs unit len buf off) \<Longrightarrow> 0 < iov_len v \<and> iov_len v \<le> unit"
proof (induction unit len buf off rule: fill_iovs.induct)
  case (1 unit len buf off)
  then show ?case by (subst (asm) fill_iovs.simps) (auto split: if_splits)
qed

text \<open>The number of vectors the code allocates is the number its loop fills.\<close>

lemma fill_iovs_length: "unit \<noteq> 0 \<Longrightarrow> length (fill_iovs unit len buf off) = (len + unit - 1) div unit"
proof (induction unit len buf off rule: fill_iovs.induct)
  case (1 unit len buf off)
  show ?case
  proof (cases "len \<le> unit")
    case True
    then show ?thesis using 1(2)
      by (cases "len = 0") (auto simp: fill_iovs_simps min_def div_eq_0_iff le_div_geq)
  next
    case False
    then have "length (fill_iovs unit (len - unit) buf (off + unit)) = (len - unit + unit - 1) div unit"
      using 1 by (simp add: min_def)
    moreover have "(len + unit - 1) div unit = Suc ((len - unit + unit - 1) div unit)"
      using False 1(2) le_div_geq [of unit "len + unit - 1"] by simp
    ultimately show ?thesis using False 1(2) by (simp add: fill_iovs_simps(2) min_def)
  qed
qed

lemma seek_iov_spec:
  assumes "\<forall>v \<in> set vs. 0 < iov_len v" and "off < length (concat (map iov_bytes vs))"
  shows "\<exists>j o'. seek_iov vs pos off = (pos + j, o') \<and> j < length vs \<and> o' < iov_len (vs ! j) \<and>
    drop off (concat (map iov_bytes vs)) = drop o' (iov_bytes (vs ! j)) @ concat (map iov_bytes (drop (Suc j) vs))"
  using assms
proof (induction vs arbitrary: pos off)
  case Nil
  then show ?case by simp
next
  case (Cons v vs)
  have len: "length (iov_bytes v) = iov_len v" by (simp add: iov_bytes_def)
  show ?case
  proof (cases "off < iov_len v")
    case True
    then show ?thesis using len by (intro exI [of _ 0] exI [of _ off]) simp
  next
    case False
    have lt: "off - iov_len v < length (concat (map iov_bytes vs))" using False Cons.prems(2) len by simp
    have pos: "\<forall>v \<in> set vs. 0 < iov_len v" using Cons.prems(1) by simp
    from Cons.IH [OF pos lt, of "pos + 1"] obtain j o' where "seek_iov vs (pos + 1) (off - iov_len v) = (pos + 1 + j, o')" "j < length vs"
      "o' < iov_len (vs ! j)" "drop (off - iov_len v) (concat (map iov_bytes vs)) =
         drop o' (iov_bytes (vs ! j)) @ concat (map iov_bytes (drop (Suc j) vs))"
      by blast
    then show ?thesis using False len by (intro exI [of _ "Suc j"] exI [of _ o']) simp
  qed
qed

text \<open>The driver's walk: take as many elements as asked for.\<close>

fun take_sges :: "nat \<Rightarrow> addr \<Rightarrow> perf \<Rightarrow> ((addr \<times> nat) list \<times> perf) option" where
  "take_sges 0 task s = Some ([], s)"
| "take_sges (Suc n) task s = do {
     (x, s) \<leftarrow> nvme_perf_next_sge task s;
     (xs, s) \<leftarrow> take_sges n task s;
     Some (x # xs, s)
   }"

lemma take_sges_from:
  assumes "task \<noteq> 0" and "live s task" and "t_iovpos (task_mem s task) + n = t_iovcnt (task_mem s task)"
    and "t_iov_offset (task_mem s task) = 0"
    and "length (iov_mem s (t_iovs (task_mem s task))) = t_iovcnt (task_mem s task)"
  shows "\<exists>s'. take_sges n task s = Some (map (\<lambda>v. (iov_base v, iov_len v))
    (drop (t_iovpos (task_mem s task)) (iov_mem s (t_iovs (task_mem s task)))), s')"
  using assms
proof (induction n arbitrary: s)
  case 0
  then show ?case by simp
next
  case (Suc n)
  let ?t = "task_mem s task"
  let ?vs = "iov_mem s (t_iovs ?t)"
  let ?s = "s\<lparr>task_mem := (task_mem s)(task := ?t\<lparr>t_iovpos := t_iovpos ?t + 1, t_iov_offset := 0\<rparr>)\<rparr>"
  have lt: "t_iovpos ?t < length ?vs" using Suc.prems(3,5) by simp
  have "nvme_perf_next_sge task s = Some ((iov_base (?vs ! t_iovpos ?t), iov_len (?vs ! t_iovpos ?t)), ?s)"
    using Suc.prems lt by (simp add: nvme_perf_next_sge_def read_task_def write_task_def Let_def)
  moreover obtain s' where "take_sges n task ?s = Some (map (\<lambda>v. (iov_base v, iov_len v)) (drop (Suc (t_iovpos ?t)) ?vs), s')"
    using Suc.IH [of ?s] Suc.prems by auto
  ultimately show ?case using lt by (simp add: Cons_nth_drop_Suc [symmetric])
qed

lemma sgl_walk:
  assumes "unit \<noteq> 0" and "off < len" and "task \<noteq> 0" and "live s task"
    and "iov_mem s (t_iovs (task_mem s task)) = fill_iovs unit len buf 0"
    and "t_iovcnt (task_mem s task) = (len + unit - 1) div unit"
  shows "\<exists>s1 es s2. nvme_perf_reset_sgl task off s = Some s1 \<and>
    take_sges (t_iovcnt (task_mem s task) - t_iovpos (task_mem s1 task)) task s1 = Some (es, s2) \<and>
    concat (map (\<lambda>(a, n). [a..<a + n]) es) = [buf + off..<buf + len]"
proof -
  let ?t = "task_mem s task" and ?vs = "fill_iovs unit len buf 0"
  have len: "length ?vs = t_iovcnt ?t" using fill_iovs_length [OF assms(1)] assms(6) by simp
  have bytes: "concat (map iov_bytes ?vs) = [buf..<buf + len]" using fill_iovs_bytes [OF assms(1), of len buf 0] by simp
  have "off < length (concat (map iov_bytes ?vs))" using assms(2) unfolding bytes by simp
  then obtain j o' where j: "seek_iov ?vs 0 off = (j, o')" "j < length ?vs" "o' < iov_len (?vs ! j)"
    "drop off (concat (map iov_bytes ?vs)) = drop o' (iov_bytes (?vs ! j)) @ concat (map iov_bytes (drop (Suc j) ?vs))"
    using seek_iov_spec [of ?vs off 0] fill_iovs_lens by force
  let ?s1 = "s\<lparr>task_mem := (task_mem s)(task := ?t\<lparr>t_iovpos := j, t_iov_offset := o'\<rparr>)\<rparr>"
  let ?s2 = "s\<lparr>task_mem := (task_mem s)(task := ?t\<lparr>t_iovpos := j + 1, t_iov_offset := 0\<rparr>)\<rparr>"
  have "nvme_perf_reset_sgl task off s = Some ?s1"
    using assms(3-5) j(1) len by (simp add: nvme_perf_reset_sgl_def read_task_def write_task_def)
  moreover have "nvme_perf_next_sge task ?s1 = Some ((iov_base (?vs ! j) + o', iov_len (?vs ! j) - o'), ?s2)"
    using assms(3-5) j(2,3) len by (simp add: nvme_perf_next_sge_def read_task_def write_task_def Let_def)
  moreover obtain s3 where "take_sges (t_iovcnt ?t - Suc j) task ?s2 =
      Some (map (\<lambda>v. (iov_base v, iov_len v)) (drop (Suc j) ?vs), s3)"
    using take_sges_from [of task ?s2 "t_iovcnt ?t - Suc j"] assms(3-5) j(2) len by auto
  moreover have "t_iovcnt ?t - j = Suc (t_iovcnt ?t - Suc j)" using j(2) len by simp
  ultimately have "nvme_perf_reset_sgl task off s = Some ?s1 \<and>
    take_sges (t_iovcnt ?t - t_iovpos (task_mem ?s1 task)) task ?s1 =
      Some ((iov_base (?vs ! j) + o', iov_len (?vs ! j) - o') # map (\<lambda>v. (iov_base v, iov_len v)) (drop (Suc j) ?vs), s3)"
    by simp
  moreover have "drop off [buf..<buf + len] = [iov_base (?vs ! j) + o'..<iov_base (?vs ! j) + iov_len (?vs ! j)] @
      concat (map iov_bytes (drop (Suc j) ?vs))"
    using j(4) unfolding bytes by (simp add: iov_bytes_def)
  then have "concat (map (\<lambda>(a, n). [a..<a + n]) ((iov_base (?vs ! j) + o', iov_len (?vs ! j) - o') #
      map (\<lambda>v. (iov_base v, iov_len v)) (drop (Suc j) ?vs))) = [buf + off..<buf + len]"
    using j(3) by (simp add: o_def iov_bytes_def [abs_def])
  ultimately show ?thesis by blast
qed

text \<open>
  C15. The scatter-gather walk. After nvme_perf_allocate_iovs has cut a payload of len bytes at buf
  into vectors, positioning the cursor at any offset inside the payload and taking the remaining
  elements one by one yields exactly the bytes from that offset to the end, in order.
\<close>

theorem sgl_walk_covers_payload:
  assumes "g_io_unit_size g \<noteq> 0" and "off < len" and "task \<noteq> 0" and "live s task"
  shows "\<exists>s0 s1 es s2. nvme_perf_allocate_iovs g task buf len s = Some s0 \<and>
    nvme_perf_reset_sgl task off s0 = Some s1 \<and>
    take_sges (t_iovcnt (task_mem s1 task) - t_iovpos (task_mem s1 task)) task s1 = Some (es, s2) \<and>
    concat (map (\<lambda>(a, n). [a..<a + n]) es) = [buf + off..<buf + len]"
proof -
  let ?u = "unat (g_io_unit_size g)"
  let ?n = "(len + ?u - 1) div ?u"
  have u: "?u \<noteq> 0" using assms(1) by (simp add: unat_eq_0)
  define s0 where "s0 = (grow ?n s)\<lparr>iov_mem := (iov_mem s)(brk s := fill_iovs ?u len buf 0),
    task_mem := (task_mem s)(task := (task_mem s task)\<lparr>t_iovcnt := ?n, t_iovs := brk s\<rparr>)\<rparr>"
  have a: "nvme_perf_allocate_iovs g task buf len s = Some s0"
    using u assms(3,4) by (simp add: nvme_perf_allocate_iovs_def alloc_grow write_task_def s0_def Let_def)
  have "live s0 task" "iov_mem s0 (t_iovs (task_mem s0 task)) = fill_iovs ?u len buf 0"
    "t_iovcnt (task_mem s0 task) = ?n" using assms(4) by (simp_all add: s0_def)
  from sgl_walk [OF u assms(2,3) this] obtain s1 es s2 where w: "nvme_perf_reset_sgl task off s0 = Some s1"
    "take_sges (t_iovcnt (task_mem s0 task) - t_iovpos (task_mem s1 task)) task s1 = Some (es, s2)"
    "concat (map (\<lambda>(a, n). [a..<a + n]) es) = [buf + off..<buf + len]"
    by blast
  have "t_iovcnt (task_mem s1 task) = t_iovcnt (task_mem s0 task)"
    using w(1) by (auto simp: nvme_perf_reset_sgl_def read_task_def write_task_def split: if_splits prod.splits)
  then show ?thesis using a w by (intro exI [of _ s0] exI [of _ s1] exI [of _ es] exI [of _ s2]) simp
qed

theorem sgl_walk_covers_payload_witness:
  "\<exists>s0 s1 es s2. nvme_perf_allocate_iovs demo_globals 1 10 10000 (demo_state\<lparr>live := (\<lambda>p. p = 1)\<rparr>) = Some s0 \<and>
    nvme_perf_reset_sgl 1 5000 s0 = Some s1 \<and>
    take_sges (t_iovcnt (task_mem s1 1) - t_iovpos (task_mem s1 1)) 1 s1 = Some (es, s2) \<and>
    concat (map (\<lambda>(a, n). [a..<a + n]) es) = [10 + 5000..<10 + 10000]"
  by (rule sgl_walk_covers_payload) (simp_all add: demo_globals_def)

section \<open>Sizes\<close>

text \<open>
  C16. What registration admits. When register_ns appends a namespace, its I/O count and its blocks
  per I/O are positive, the block count of the I/O size is exact or rounded down, and every I/O
  offset below the I/O count addresses blocks inside the namespace, with no overflow of the 64-bit
  block address.
\<close>

theorem registered_offsets_in_range:
  assumes "register_ns g rnd theta pract nq ns r = Some r'" and "length (r_namespaces r') = Suc (length (r_namespaces r))"
    and "g_io_size_bytes g \<noteq> 0" and "off < size_in_ios (last (r_namespaces r'))"
  shows "let x = last (r_namespaces r') in
    0 < unat (io_size_blocks x) \<and> unat (off * ucast (io_size_blocks x)) = unat off * unat (io_size_blocks x) \<and>
    (unat off + 1) * unat (io_size_blocks x) * unat (ns_sector_size ns) \<le> unat (ns_size ns)"
proof -
  let ?io = "g_io_size_bytes g" and ?sec = "ns_sector_size ns"
  let ?x = "last (r_namespaces r')"
  have len: "length (r_namespaces r') \<noteq> length (r_namespaces r)" using assms(2) by simp
  have x: "io_size_blocks ?x = ?io div ?sec" "size_in_ios ?x = ns_size ns div ucast ?io"
    and sec: "?sec \<noteq> 0" "\<not> ?sec > ?io"
    using assms(1) len by (auto simp: register_ns_def Let_def split: if_splits)
  have io: "unat (ucast ?io :: u64) = unat ?io" by simp
  have b: "unat (io_size_blocks ?x) = unat ?io div unat ?sec" using x(1) by (simp add: unat_div)
  have n: "unat (size_in_ios ?x) = unat (ns_size ns) div unat ?io" using x(2) io by (simp add: unat_div)
  have secnz: "0 < unat ?sec" "unat ?sec \<le> unat ?io" using sec by (simp_all add: word_less_nat_alt unat_gt_0)
  have pos: "0 < unat (io_size_blocks ?x)" using secnz by (simp add: b div_greater_zero_iff)
  have off: "unat off + 1 \<le> unat (ns_size ns) div unat ?io" using assms(4) n by (simp add: word_less_nat_alt)
  have "unat (io_size_blocks ?x) * unat ?sec \<le> unat ?io" by (simp add: b)
  from mult_le_mono2 [OF this, of "unat off + 1"]
  have "(unat off + 1) * unat (io_size_blocks ?x) * unat ?sec \<le> (unat off + 1) * unat ?io"
    by (simp only: mult.assoc)
  also have "\<dots> \<le> (unat (ns_size ns) div unat ?io) * unat ?io" using off by (rule mult_le_mono1)
  also have "\<dots> \<le> unat (ns_size ns)" by simp
  finally have bound: "(unat off + 1) * unat (io_size_blocks ?x) * unat ?sec \<le> unat (ns_size ns)" .
  have "unat off * unat (io_size_blocks ?x) * 1 \<le> (unat off + 1) * unat (io_size_blocks ?x) * unat ?sec"
    using secnz(1) by (intro mult_le_mono) auto
  then have "unat off * unat (io_size_blocks ?x) < 2 ^ 64" using bound unat_u64_lt [of "ns_size ns"] by simp
  then have "unat (off * ucast (io_size_blocks ?x)) = unat off * unat (io_size_blocks ?x)"
    by (simp add: unat_word_ariths)
  then show ?thesis using pos bound by (simp add: Let_def)
qed

theorem registered_offsets_in_range_witness:
  "let ns = \<lparr>ns_active = True, ns_size = 1000000, ns_sector_size = 512, ns_ext_sector_size = 512,
     ns_max_io_xfer_size = 131072, ns_md_size = 0, ns_extended_lba = False, ns_pi_supported = False\<rparr>;
     r = \<lparr>r_namespaces = [], r_max_io_md_size = 0, r_max_io_size_blocks = 0, r_warn = False\<rparr>
   in \<exists>r'. register_ns demo_globals 0 False False 1 ns r = Some r' \<and>
     243 < size_in_ios (last (r_namespaces r')) \<and>
     (unat (243 :: u64) + 1) * unat (io_size_blocks (last (r_namespaces r'))) * 512 \<le> 1000000"
proof -
  let ?ns = "\<lparr>ns_active = True, ns_size = 1000000, ns_sector_size = 512, ns_ext_sector_size = 512,
     ns_max_io_xfer_size = 131072, ns_md_size = 0, ns_extended_lba = False, ns_pi_supported = False\<rparr>"
  let ?r = "\<lparr>r_namespaces = [], r_max_io_md_size = 0, r_max_io_size_blocks = 0, r_warn = False\<rparr>"
  obtain r' where r': "register_ns demo_globals 0 False False 1 ?ns ?r = Some r'"
    "length (r_namespaces r') = Suc (length (r_namespaces ?r))" "243 < size_in_ios (last (r_namespaces r'))"
    by (simp add: register_ns_def demo_globals_def Let_def)
  have "g_io_size_bytes demo_globals \<noteq> 0" by (simp add: demo_globals_def)
  from registered_offsets_in_range [OF r'(1,2) this r'(3)] show ?thesis using r' by (simp add: Let_def)
qed

section \<open>The sequential offset\<close>


section \<open>I/O numbers\<close>

lemma next_io_id_nat:
  assumes "unat i + unat (g_queue_depth g) < 2 ^ 32" and "i \<noteq> 0"
  shows "unat (next_io_id g i) = unat i + unat (g_queue_depth g)"
proof -
  have e: "unat (i + g_queue_depth g) = unat i + unat (g_queue_depth g)" using assms(1) by (simp add: unat_word_ariths)
  moreover have "unat i \<noteq> 0" using assms(2) by (simp add: unat_eq_0)
  ultimately have "i + g_queue_depth g \<noteq> 0" by (metis add_is_0 unat_0)
  then show ?thesis using e by (simp add: next_io_id_def Let_def)
qed

lemma concat_disjoint:
  assumes "distinct (concat xss)" and "i < length xss" and "j < length xss" and "a \<in> set (xss ! i)" and "a \<in> set (xss ! j)"
  shows "i = j"
  using assms
proof (induction xss arbitrary: i j)
  case (Cons xs xss)
  have "xss ! k \<in> set xss" if "k < length xss" for k using that by simp
  then have "a \<in> set (concat xss)" if "a \<in> set (xss ! k)" "k < length xss" for k using that by auto
  then show ?case using Cons by (cases i; cases j) auto
qed simp

text \<open>
  The number of the group at position \<open>i\<close> is \<open>i + 1\<close> plus a multiple of the queue depth, one for
  each time the group was submitted again, at most \<open>k\<close> times so far.
\<close>

definition ids_inv :: "globals \<Rightarrow> (addr \<times> addr list) list \<Rightarrow> nat \<Rightarrow> perf \<Rightarrow> bool" where
  "ids_inv g gs k s \<longleftrightarrow> (\<forall>i < length gs. \<exists>n \<le> k.
     unat (t_io_id (task_mem s (fst (gs ! i)))) = Suc i + n * unat (g_queue_depth g))"

lemma completes_ids_inv:
  assumes "completes e g s s'" and "accepting e" and "g_number_ios g = 0" and "run_inv g gs s"
    and "ids_inv g gs k s" and "length gs + Suc k * unat (g_queue_depth g) < 2 ^ 32"
  shows "ids_inv g gs (Suc k) s'"
  using assms(1)
proof (rule completesE)
  fix a st assume a: "a \<in> set (inflight s)" and st: "keeps_running g st"
    and io: "io_complete e g a st (s\<lparr>inflight := remove1 a (inflight s)\<rparr>) = Some s'"
  have inv: "barrier_inv g gs s" using assms(4) by (simp add: run_inv_def)
  obtain main xs where grp: "(main, xs) \<in> set gs" "a \<in> set xs" by (rule inflight_group [OF inv a])
  have res: "completion_result g s main xs a s'"
    using completion_step [OF inv assms(2,3) st grp(1,2) a] io by auto
  obtain i where i: "i < length gs" "gs ! i = (main, xs)" using grp(1) by (metis in_set_conv_nth)
  let ?q = "unat (g_queue_depth g)"
  have "\<exists>n \<le> Suc k. unat (t_io_id (task_mem s' (fst (gs ! j)))) = Suc j + n * ?q" if j: "j < length gs" for j
  proof -
    obtain m ys where p: "gs ! j = (m, ys)" by fastforce
    have m: "m \<in> set ys" using barrier_dest(7) [OF inv, of m ys] j p by (metis nth_mem)
    obtain n where n: "n \<le> k" "unat (t_io_id (task_mem s m)) = Suc j + n * ?q"
      using assms(5) j p by (auto simp: ids_inv_def)
    consider "t_io_id (task_mem s' m) = t_io_id (task_mem s m)"
      | "m \<in> set xs" "t_io_id (task_mem s' m) = next_io_id g (t_io_id (task_mem s main))"
      using res unfolding completion_result_def by (metis (no_types, lifting))
    then show ?thesis
    proof cases
      case 1
      then show ?thesis using n p by (intro exI [of _ n]) simp
    next
      case 2
      have "i = j"
        using concat_disjoint [of "map snd gs" i j m] inv i j p m 2(1) by (simp add: barrier_inv_def)
      then have mm: "m = main" using i(2) p by simp
      have "n * ?q \<le> k * ?q" using n(1) by (rule mult_le_mono1)
      moreover have "Suc k * ?q = ?q + k * ?q" by simp
      ultimately have "unat (t_io_id (task_mem s m)) + ?q < 2 ^ 32" using n(2) j assms(6) by linarith
      moreover have "t_io_id (task_mem s m) \<noteq> 0" using n(2) by (metis add_is_0 nat.distinct(1) unat_0)
      ultimately have "unat (t_io_id (task_mem s' m)) = Suc j + Suc n * ?q"
        using 2(2) mm next_io_id_nat n(2) by simp
      then show ?thesis using n(1) p by (intro exI [of _ "Suc n"]) simp
    qed
  qed
  then show ?thesis by (simp add: ids_inv_def)
qed

lemma run_ids_inv:
  assumes "(completes e g ^^ n) s t" and "accepting e" and "g_number_ios g = 0" and "run_inv g gs s"
    and "ids_inv g gs 0 s" and "length gs + n * unat (g_queue_depth g) < 2 ^ 32"
  shows "ids_inv g gs n t \<and> run_inv g gs t"
  using assms(1,6)
proof (induction n arbitrary: t)
  case 0
  then show ?case using assms(4,5) by simp
next
  case (Suc n)
  from Suc.prems(1) obtain u where u: "(completes e g ^^ n) s u" "completes e g u t" by auto
  have "ids_inv g gs n u" "run_inv g gs u" using Suc.IH [OF u(1)] Suc.prems(2) by simp_all
  then show ?case
    using completes_ids_inv [OF u(2) assms(2,3) _ _ Suc.prems(2)] completes_run_inv [OF u(2) assms(2,3)] by blast
qed

lemma numbers_differ:
  assumes "Suc i \<le> q" and "Suc j \<le> q" and "Suc i + n * q = Suc j + m * q"
  shows "i = j"
proof -
  have "(i + n * q) mod q = (j + m * q) mod q" using assms(3) by simp
  then show ?thesis using assms(1,2) by simp
qed

lemma group_number:
  assumes "barrier_inv g gs t" and "i < length gs" and "a \<in> set (snd (gs ! i))"
  shows "t_io_id (task_mem t a) = t_io_id (task_mem t (fst (gs ! i)))"
proof -
  obtain main xs where p: "gs ! i = (main, xs)" by fastforce
  then have "(main, xs) \<in> set gs" using assms(2) by (metis nth_mem)
  then have "same_io_id t main xs" using barrier_dest(3) [OF assms(1)] by (simp add: group_inv.simps)
  then show ?thesis using assms(3) p by (simp add: same_io_id_def)
qed

lemma start_ids:
  assumes "start_state s" and "run_config e g s" and "submit_io_rep e g (unat (g_queue_depth g)) 1 0 s = Some s0"
  obtains gs where "run_inv g gs s0" "length gs = unat (g_queue_depth g)" "ids_inv g gs 0 s0"
proof -
  let ?q = "unat (g_queue_depth g)"
  obtain gs where gs: "run_inv g gs s0"
    and gb: "groups_built g (unat (g_rep_num g)) (map (\<lambda>k. 1 + of_nat k) [0..<?q]) gs s0"
    using start_run [OF assms(1,2), of ?q] assms(3) by (metis option.inject)
  have ids: "map (\<lambda>(main, xs). t_io_id (task_mem s0 main)) gs = map (\<lambda>k. 1 + of_nat k) [0..<?q]"
    using gb by (simp add: groups_built_def)
  have len: "length gs = ?q" using arg_cong [OF ids, of length] by simp
  have "ids_inv g gs 0 s0"
    unfolding ids_inv_def
  proof (intro allI impI exI [of _ 0] conjI)
    fix i assume i: "i < length gs"
    have "t_io_id (task_mem s0 (fst (gs ! i))) = 1 + of_nat i"
      using arg_cong [OF ids, of "\<lambda>l. l ! i"] i len by (simp add: case_prod_beta)
    moreover have "Suc i < 2 ^ 32" using i len unat_u32_lt [of "g_queue_depth g"] by simp
    ultimately show "unat (t_io_id (task_mem s0 (fst (gs ! i)))) = Suc i + 0 * ?q"
      using of_nat_u32 [of "Suc i"] by simp
  qed simp
  then show ?thesis by (rule that [OF gs len])
qed

lemma ids_inv_differ:
  assumes "barrier_inv g gs t" and "ids_inv g gs n t" and "length gs = unat (g_queue_depth g)"
    and i: "i < length gs" "a \<in> set (snd (gs ! i))" and j: "j < length gs" "b \<in> set (snd (gs ! j))"
  shows "t_io_id (task_mem t a) \<noteq> 0 \<and> (t_io_id (task_mem t a) = t_io_id (task_mem t b) \<longleftrightarrow> i = j)"
proof -
  let ?q = "unat (g_queue_depth g)"
  obtain k l where k: "unat (t_io_id (task_mem t a)) = Suc i + k * ?q" and l: "unat (t_io_id (task_mem t b)) = Suc j + l * ?q"
    using assms(2) group_number [OF assms(1) i] group_number [OF assms(1) j] i(1) j(1) unfolding ids_inv_def by metis
  have "t_io_id (task_mem t a) \<noteq> 0" using k by (metis add_is_0 nat.distinct(1) unat_0)
  moreover have "i = j" if "t_io_id (task_mem t a) = t_io_id (task_mem t b)"
    using numbers_differ [of i ?q j k l] k l i(1) j(1) assms(3) that by simp
  ultimately show ?thesis using group_number [OF assms(1) i] group_number [OF assms(1) j] by auto
qed



text \<open>
  After the wrap the numbers of different groups meet: with queue depth 2 the group with even
  numbers arrives at 0 and is moved to the odd number 1.
\<close>

lemma io_id_wrap: "g_queue_depth g = 2 \<Longrightarrow> next_io_id g (- 2) = 1"
  by (simp add: next_io_id_def Let_def)

text \<open>One group of the demonstration run, built and not yet submitted.\<close>

definition demo_queues :: "head \<Rightarrow> addr list option" where
  "demo_queues = (\<lambda>h. case h of QueuedTasks i \<Rightarrow> Some [] | _ \<Rightarrow> None)"

lemma demo_group:
  obtains s xs where "queues s (demo_queues(RepTasks 1 \<mapsto> xs))" "replica_group s 1 xs" "length xs = 2"
    "ns_ctxs s = ns_ctxs demo_state" "namespaces s = namespaces demo_state" "ctxs_ok s"
    "t_ns_ctx (task_mem s 1) = 0 \<or> t_ns_ctx (task_mem s 1) = 1"
proof -
  have q: "queues demo_state demo_queues"
    by (auto simp: queues_def tq_rep_def tq_list_def demo_queues_def demo_state_def slot_load.simps split: head.splits)
  have c: "config_ok demo_globals" "fresh_heap demo_state" "ns_ctxs demo_state \<noteq> []" "brk demo_state = 1"
    using demo_start demo_config by (auto simp: start_state_def run_config_def demo_state_def)
  from new_group_spec [OF c(1,2) q c(3), of 0 1] obtain s xs where s: "extends demo_state s"
    "queues s (demo_queues(RepTasks 1 \<mapsto> xs))" "1 \<in> set xs"
    "replicas s 1 xs (group_order demo_globals (length (ns_ctxs demo_state)))"
    unfolding c(4) by blast
  have e: "ns_ctxs s = ns_ctxs demo_state" "namespaces s = namespaces demo_state" using s(1) by (simp_all add: extends_def)
  have "linked s (RepTasks 1) xs" by (rule queues_linked [OF s(2)]) simp
  note grp = replicas_group [OF s(4) this s(3)]
  have len: "length xs = 2" using grp(3) by (simp add: demo_state_def)
  have "t_ns_ctx (task_mem s 1) < 2" using group_dest(2,8) [OF grp(1)] e by (auto simp: demo_state_def)
  then have "t_ns_ctx (task_mem s 1) = 0 \<or> t_ns_ctx (task_mem s 1) = 1" by auto
  moreover have "ctxs_ok s" using demo_start by (simp add: start_state_def running_def ctxs_ok_def e)
  ultimately show ?thesis using that s(2) grp(1) len e by blast
qed


text \<open>
  A random offset is drawn below the size of the main namespace only: with a smaller replica it
  may lie beyond the replica's end.
\<close>

lemma random_offset_beyond_replica:
  "pick_offset (demo_env\<lparr>rand_r := (\<lambda>s. (80, s))\<rparr>) (demo_globals\<lparr>g_is_random := True\<rparr>) 0 60 demo_state =
     Some (80, demo_state) \<and> size_in_ios (namespaces demo_state ! 1) < 80"
  by (simp add: pick_offset_def read_ctx_def read_entry_def write_entry_def demo_defs)

section \<open>Namespaces and workers\<close>

lemma allocate_ns_worker_eq:
  assumes "wrk < length ws"
  shows "\<exists>h. allocate_ns_worker m ent wrk ws = Some (if fst m then (0, ws[wrk := ws ! wrk @ [(ent, h)]]) else (- 1, ws))"
  using assms by (auto simp: allocate_ns_worker_def histogram_data_alloc_def alloc_sized_eq)

text \<open>The loop over pairs of a worker and a namespace: it stops at the first failed allocation.\<close>

lemma assoc_every_spec:
  assumes "\<forall>p \<in> set ps. fst p < length ws"
  shows "\<exists>rc ws'. assoc_every mem n ps ws = Some (rc, ws') \<and> (rc = 0 \<longleftrightarrow> (\<forall>k < length ps. fst (mem (n + k)))) \<and>
    (rc \<noteq> 0 \<longrightarrow> rc = - 1) \<and> (rc = 0 \<longrightarrow> length ws' = length ws \<and>
      (\<forall>w < length ws. map fst (ws' ! w) = map fst (ws ! w) @ map snd (filter (\<lambda>p. fst p = w) ps)))"
  using assms
proof (induction ps arbitrary: n ws)
  case Nil
  then show ?case by simp
next
  case (Cons p ps)
  obtain wrk ent where p: "p = (wrk, ent)" by fastforce
  have wrk: "wrk < length ws" using Cons.prems p by simp
  obtain h where h: "allocate_ns_worker (mem n) ent wrk ws =
      Some (if fst (mem n) then (0, ws[wrk := ws ! wrk @ [(ent, h)]]) else (- 1, ws))"
    using allocate_ns_worker_eq [OF wrk] by blast
  show ?case
  proof (cases "fst (mem n)")
    case False
    then show ?thesis using h p by auto
  next
    case True
    let ?ws = "ws[wrk := ws ! wrk @ [(ent, h)]]"
    have "\<forall>q \<in> set ps. fst q < length ?ws" using Cons.prems by simp
    from Cons.IH [OF this, of "n + 1"] obtain rc ws' where r: "assoc_every mem (n + 1) ps ?ws = Some (rc, ws')"
      "rc = 0 \<longleftrightarrow> (\<forall>k < length ps. fst (mem (n + 1 + k)))" "rc \<noteq> 0 \<longrightarrow> rc = - 1"
      "rc = 0 \<longrightarrow> length ws' = length ?ws \<and> (\<forall>w < length ?ws. map fst (ws' ! w) = map fst (?ws ! w) @ map snd (filter (\<lambda>p. fst p = w) ps))"
      by blast
    have "(\<forall>k < length (p # ps). fst (mem (n + k))) \<longleftrightarrow> rc = 0"
      using r(2) True by (simp add: All_less_Suc2)
    moreover have "assoc_every mem n (p # ps) ws = Some (rc, ws')" using h True r(1) p by simp
    moreover have "map fst (ws' ! w) = map fst (ws ! w) @ map snd (filter (\<lambda>p. fst p = w) (p # ps))"
      if "rc = 0" "w < length ws" for w
      using r(4) that wrk p by (simp add: nth_list_update)
    ultimately show ?thesis using r(3,4) by (intro exI [of _ rc] exI [of _ ws']) simp
  qed
qed

lemma assoc_loop_every:
  assumes "0 < n_ns" and "0 < n_wrk"
  shows "assoc_loop mem n k (j mod n_ns) (j mod n_wrk) n_ns n_wrk ws =
    assoc_every mem n (map (\<lambda>i. (i mod n_wrk, i mod n_ns)) [j..<j + k]) ws"
proof (induction k arbitrary: n j ws)
  case (Suc k)
  have next_mod: "(if i mod n + 1 = n then 0 else i mod n + 1) = Suc i mod n" if "0 < n" for i n :: nat
    using that by (auto simp: mod_Suc)
  have "[j..<j + Suc k] = j # [Suc j..<Suc j + k]" by (simp add: upt_conv_Cons del: upt_Suc)
  moreover have "assoc_loop mem (n + 1) k (if j mod n_ns + 1 = n_ns then 0 else j mod n_ns + 1)
      (if j mod n_wrk + 1 = n_wrk then 0 else j mod n_wrk + 1) n_ns n_wrk ws' =
    assoc_every mem (n + 1) (map (\<lambda>i. (i mod n_wrk, i mod n_ns)) [Suc j..<Suc j + k]) ws'" for ws'
    unfolding next_mod [OF assms(1)] next_mod [OF assms(2)] by (rule Suc.IH)
  ultimately show ?case by (simp only: assoc_loop.simps list.map assoc_every.simps)
qed simp

lemma every_pairs:
  "map snd (filter (\<lambda>p. fst p = w) (concat (map (\<lambda>w. map (Pair w) [0..<n]) ws))) = concat (map (\<lambda>w'. if w' = w then [0..<n] else []) ws)"
  by (induction ws) (auto simp: filter_map comp_def)

lemma concat_single: "w < m \<Longrightarrow> concat (map (\<lambda>w'. if w' = w then xs else []) [0..<m]) = xs"
proof (induction m)
  case (Suc m)
  have "concat (map (\<lambda>w'. if w' = w then xs else []) [0..<w]) = []" by (simp add: concat_eq_Nil_conv)
  then show ?case using Suc by (cases "w = m") simp_all
qed simp

text \<open>
  C18. Assignment of namespaces to workers. It returns -1 exactly when a context cannot be
  allocated. Otherwise the namespaces and the workers are by default paired round robin: worker w
  gets, in order, the namespaces i mod n for the i below the larger of both numbers with i
  congruent to w. With --use-every-core each worker gets every namespace. So the assumption of
  submit_io_rep, that a worker manages all replicas, holds for one worker and under
  --use-every-core.
\<close>

theorem associate_round_robin:
  assumes "0 < n_ns" and "w < n_wrk"
  shows "\<exists>rc ws. associate_workers_with_ns mem every n_ns n_wrk = Some (rc, ws) \<and>
    (rc = 0 \<longleftrightarrow> (\<forall>k < (if every then n_ns * n_wrk else max n_ns n_wrk). fst (mem k))) \<and> (rc \<noteq> 0 \<longrightarrow> rc = - 1) \<and>
    (rc = 0 \<longrightarrow> map fst (ws ! w) =
       (if every then [0..<n_ns]
        else map (\<lambda>i. i mod n_ns) (filter (\<lambda>i. i mod n_wrk = w) [0..<max n_ns n_wrk])) \<and>
       ((every \<or> n_wrk = 1) \<longrightarrow> map fst (ws ! w) = [0..<n_ns]))"
proof -
  let ?ws = "replicate n_wrk [] :: worker_ctxs list"
  define ps where "ps = (if every then concat (map (\<lambda>w. map (Pair w) [0..<n_ns]) [0..<n_wrk])
    else map (\<lambda>i. (i mod n_wrk, i mod n_ns)) [0..<max n_ns n_wrk])"
  have eq: "associate_workers_with_ns mem every n_ns n_wrk = assoc_every mem 0 ps ?ws"
    using assms assoc_loop_every [of n_ns n_wrk mem 0 "max n_ns n_wrk" 0 ?ws]
    by (simp add: associate_workers_with_ns_def ps_def Let_def)
  have len: "length ps = (if every then n_ns * n_wrk else max n_ns n_wrk)"
    by (simp add: ps_def length_concat comp_def sum_list_triv)
  have ok: "\<forall>p \<in> set ps. fst p < length ?ws" using assms by (auto simp: ps_def)
  have own: "map snd (filter (\<lambda>p. fst p = w) ps) =
      (if every then [0..<n_ns] else map (\<lambda>i. i mod n_ns) (filter (\<lambda>i. i mod n_wrk = w) [0..<max n_ns n_wrk]))"
    using assms(2) by (simp add: ps_def every_pairs concat_single filter_map comp_def)
  have "map (\<lambda>i. i mod n_ns) [0..<n_ns] = [0..<n_ns]" by (rule map_idI) simp
  moreover have "max n_ns 1 = n_ns" using assms(1) by simp
  moreover have "filter (\<lambda>i. i mod 1 = 0) [0..<n_ns] = [0..<n_ns]" by simp
  ultimately have all: "map snd (filter (\<lambda>p. fst p = w) ps) = [0..<n_ns]" if "every \<or> n_wrk = 1"
    using own that assms(2) by (cases every) auto
  obtain rc ws where r: "assoc_every mem 0 ps ?ws = Some (rc, ws)" "rc = 0 \<longleftrightarrow> (\<forall>k < length ps. fst (mem (0 + k)))"
    "rc \<noteq> 0 \<longrightarrow> rc = - 1" "rc = 0 \<longrightarrow> length ws = length ?ws \<and>
      (\<forall>w < length ?ws. map fst (ws ! w) = map fst (?ws ! w) @ map snd (filter (\<lambda>p. fst p = w) ps))"
    using assoc_every_spec [OF ok, of mem 0] by blast
  have "map fst (ws ! w) = map snd (filter (\<lambda>p. fst p = w) ps)" if "rc = 0" using r(4) that assms(2) by simp
  then show ?thesis using eq r(1-3) own all len by (intro exI [of _ rc] exI [of _ ws]) auto
qed

theorem associate_round_robin_witness:
  "\<exists>ws. associate_workers_with_ns (\<lambda>_. (True, True, True)) False 3 2 = Some (0, ws) \<and> map fst (ws ! 1) = [1]"
proof -
  have l: "map (\<lambda>i. i mod 3) (filter (\<lambda>i. i mod 2 = 1) [0..<max 3 2]) = [1 :: nat]" by (simp add: upt_conv_Cons)
  have "(0 :: nat) < 3" "(1 :: nat) < 2" by simp_all
  from associate_round_robin [OF this, of "\<lambda>_. (True, True, True)" False, unfolded l]
  show ?thesis by auto
qed

section \<open>Releasing a group\<close>

lemma release_replica_frees:
  assumes "release_replica main a s = Some s'" and "a \<noteq> main"
  shows "\<not> live s' a"
  using assms by (auto simp: release_replica_def free_def read_task_def split: if_splits)

lemma release_from_other: "a \<noteq> main \<Longrightarrow> tailq_foreach (release_replica main) (Some a) s = None"
  by (cases "release_replica main a s") (auto simp: tailq_next_def dest: release_replica_frees)

lemma free_links: "free p s = Some s' \<Longrightarrow> links s' = links s"
  by (auto simp: free_def split: if_splits)

lemma release_replica_links: "release_replica main a s = Some s' \<Longrightarrow> links s' = links s"
  by (auto simp: release_replica_def dest!: free_links split: if_splits)

lemma release_from_main:
  assumes "TAILQ_NEXT (links s) x = Some y" and "y \<noteq> main"
  shows "tailq_foreach (release_replica main) (Some x) s = None"
proof (cases "release_replica main x s")
  case None
  then show ?thesis by simp
next
  case (Some s4)
  have "tailq_foreach (release_replica main) (Some y) s4 = None" by (rule release_from_other [OF assms(2)])
  moreover have "TAILQ_NEXT (links s4) x = Some y" using release_replica_links [OF Some] assms(1) by simp
  ultimately show ?thesis using Some unfolding tailq_foreach_simps(2) [of _ x] by (simp add: tailq_next_def del: tailq_foreach_simps)
qed

lemma rep_task_release_loop:
  assumes "rep_task_release main s = Some s'"
  obtains s2 s3 where "links s2 = links s" "tailq_foreach (release_replica main) (TAILQ_FIRST (links s2) (RepTasks main)) s2 = Some s3"
proof -
  obtain m :: perf_task and iov :: iovec and s1 s2 p s3 where "free (iov_base iov) s = Some s1" "free (iov_base (t_md_iov m)) s1 = Some s2"
    "tailq_first (RepTasks main) s2 = Some p" "tailq_foreach (release_replica main) p s2 = Some s3"
    using assms unfolding rep_task_release_def bind_eq_Some by blast
  then show ?thesis using that [of s2 s3] free_links by (auto simp: tailq_first_def split: if_splits)
qed

text \<open>
  C12. Releasing a group leaves defined behaviour. For every well-formed group with at least two
  replicas, rep_task_release reads the link field of a replica that it has just freed (or freed
  memory before that): the run does not continue in a defined state. This is the path of the last
  completion of a group once one of its namespaces is draining.
\<close>

theorem release_reads_freed_task:
  assumes "replica_group s main xs" and "2 \<le> length xs"
  shows "rep_task_release main s = None"
proof (cases "rep_task_release main s")
  case (Some s')
  obtain s2 s3 where l: "links s2 = links s"
    and loop: "tailq_foreach (release_replica main) (TAILQ_FIRST (links s2) (RepTasks main)) s2 = Some s3"
    by (rule rep_task_release_loop [OF Some])
  note g = group_dest [OF assms(1)]
  obtain x y zs where xs: "xs = x # y # zs" using assms(2) by (cases xs rule: remdups_adj.cases) auto
  have first: "TAILQ_FIRST (links s2) (RepTasks main) = Some x" using linked_first [OF g(1)] by (simp add: l xs)
  have nxt: "TAILQ_NEXT (links s2) x = Some y"
    using linked_next [of s "RepTasks main" "[]" x "y # zs"] g(1) by (simp add: l xs)
  have "tailq_foreach (release_replica main) (Some x) s2 = None"
  proof (cases "x = main")
    case True
    then show ?thesis using release_from_main [OF nxt] g(6) xs by simp
  qed (rule release_from_other)
  then show ?thesis using loop first by simp
qed simp

theorem release_reads_freed_task_witness:
  "\<exists>s main xs. replica_group s main xs \<and> length xs = 2 \<and> rep_task_release main s = None"
proof -
  obtain s gs main xs where b: "barrier_inv demo_globals gs s" "(main, xs) \<in> set gs" by (rule demo_run)
  note d = barrier_dest [OF b]
  have "length xs = 2" using d(3) by (simp add: group_inv.simps demo_globals_def)
  then show ?thesis using release_reads_freed_task [OF d(5)] d(5) by auto
qed

section \<open>Queueing a refused replica\<close>

lemma insert_cuts_next:
  assumes "tqh_last q h \<noteq> NextOf a"
  shows "TAILQ_NEXT (TAILQ_INSERT_TAIL h a q) a = None"
  using assms by (cases "tqh_last q h") (auto simp: TAILQ_NEXT_def TAILQ_INSERT_TAIL_def Let_def)

lemma submit_replica_refused:
  assumes "ctxs_ok s" and "task_ok s main a" and "g_continue_on_error g" and "driver_rc e (n_driver s) \<noteq> 0"
    and "dif_ctx_init_rc e (n_driver s) = 0" and "dif_generate_rc e (n_driver s) = 0"
    and "slot_ok s (tqh_last (links s) (QueuedTasks (t_ns_ctx (task_mem s a))))"
  shows "\<exists>s'. submit_replica e g off rd a s = Some s' \<and> inflight s' = inflight s \<and> issued s' = issued s \<and> live s' = live s \<and>
    links s' = TAILQ_INSERT_TAIL (QueuedTasks (t_ns_ctx (task_mem s a))) a (links s)"
proof -
  let ?t = "task_mem s a"
  have a: "a \<noteq> 0" "live s a" "t_ns_ctx ?t < length (ns_ctxs s)" "live s (t_iovs ?t)" "iov_mem s (t_iovs ?t) \<noteq> []"
    using assms(2) by (simp_all add: task_ok_def Let_def)
  have ent: "entry (ns_ctxs s ! t_ns_ctx ?t) < length (namespaces s)"
    using ctxs_ok_entry [OF assms(1) a(3)] .
  have slot: "slot_ok (s\<lparr>n_tick := n, task_mem := m, ns_ctxs := (ns_ctxs s)[i := c], n_driver := k\<rparr>)
      (tqh_last (links s) (QueuedTasks (t_ns_ctx ?t)))" for n m i c k
    using assms(7) by (cases "tqh_last (links s) (QueuedTasks (t_ns_ctx ?t))") (auto split: head.splits elim!: head_ok.elims)
  show ?thesis using a ent assms(3-6) slot
    by (simp add: submit_replica_def get_ticks_def write_task_def read_task_def submit_and_account_def
      nvme_submit_io_def read_ctx_def read_entry_def write_ctx_def read_iov0_def driver_submit_def
      submit_failed_def tailq_insert_tail_def drain_if_done_def Let_def)
qed

lemma same_work_queue_slot:
  assumes "same_work s s'" and "slot_ok s x"
  shows "slot_ok s' x"
proof -
  have "live s' = live s" "length (ns_ctxs s') = length (ns_ctxs s)"
    using same_shape_heap(2) [OF same_work_shape [OF assms(1)]] same_shape_lengths(1) [OF same_work_shape [OF assms(1)]] .
  then show ?thesis using assms(2) by (cases x rule: slot.exhaust) (auto elim!: head_ok.elims)
qed

text \<open>
  C13. Queueing a refused replica cuts the group. The queue of retries uses the same link field as
  the list of replicas. When the driver refuses the first replica of a group and errors are to be
  survived (g_continue_on_error), that replica is appended to the retry queue of its namespace,
  its link to the next replica is overwritten, and no replica of the group is sent at all in this
  round, however many of the further commands the driver would have accepted.
\<close>

theorem refused_replica_cuts_group:
  assumes "queues s Q" and "Q (RepTasks main) = Some (a # xs)" and "Q (QueuedTasks (t_ns_ctx (task_mem s a))) = Some ys"
    and "replica_group s main (a # xs)" and "ctxs_ok s" and "\<not> is_draining (ns_ctxs s ! t_ns_ctx (task_mem s main))"
    and "g_continue_on_error g" and "driver_rc e (n_driver s) \<noteq> 0"
    and "dif_ctx_init_rc e (n_driver s) = 0" and "dif_generate_rc e (n_driver s) = 0"
  shows "\<exists>s'. submit_single_io_rep e g main s = Some s' \<and> inflight s' = inflight s \<and> issued s' = issued s \<and>
    TAILQ_NEXT (links s') a = None"
proof -
  let ?i = "t_ns_ctx (task_mem s main)" and ?h = "QueuedTasks (t_ns_ctx (task_mem s a))"
  note g = group_dest [OF assms(4)]
  have i: "?i < length (ns_ctxs s)" by (rule task_ok_ctx [OF g(4)])
  have m: "main \<noteq> 0" "live s main" using g(4) by (simp_all add: task_ok_def Let_def)
  obtain n where n: "get_min_size_in_ios s = Some n" using min_size_spec [OF assms(5)] by blast
  obtain off s0 where s0: "pick_offset e g ?i n s = Some (off, s0)" "same_work s s0"
    using pick_offset_spec [OF assms(5) i] by blast
  note sh0 = same_work_shape [OF s0(2)]
  obtain rd s1 where s1: "pick_is_read e g ?i s0 = Some (rd, s1)" "same_work s0 s1"
    using pick_is_read_spec [OF same_shape_ctxs_ok [OF sh0 assms(5)]] i same_shape_lengths(1) [OF sh0] by metis
  have w: "same_work s s1" by (rule same_work_trans [OF s0(2) s1(2)])
  note sh = same_work_shape [OF w] and d = same_work_dest [OF w]
  note heap = same_shape_heap [OF sh]
  have last: "tqh_last (links s) ?h = end_slot (First ?h) ys" by (rule queues_last [OF assms(1,3)])
  have "a \<notin> set ys" using queues_disjoint [OF assms(1-3)] by auto
  then have na: "tqh_last (links s1) ?h \<noteq> NextOf a" using last heap by (auto simp: end_slot_def)
  have "slot_ok s (tqh_last (links s) ?h)"
    using last assms(1,3) g(8) by (auto simp: end_slot_def queues_def)
  then have slot: "slot_ok s1 (tqh_last (links s1) (QueuedTasks (t_ns_ctx (task_mem s1 a))))"
    using same_work_queue_slot [OF w] heap d by simp
  have ok: "task_ok s1 main a" using g(3) by (simp add: same_shape_ok(1) [OF sh])
  obtain s2 where s2: "submit_replica e g off rd a s1 = Some s2" "inflight s2 = inflight s" "issued s2 = issued s"
    "live s2 = live s" "links s2 = TAILQ_INSERT_TAIL ?h a (links s1)"
    using submit_replica_refused [OF same_shape_ctxs_ok [OF sh assms(5)] ok assms(7) _ _ _ slot, of e off rd]
      assms(8-10) d heap by auto
  have "tailq_next a s2 = Some None"
    using insert_cuts_next [OF na] s2(4,5) g(7) by (simp add: tailq_next_def)
  then have loop: "tailq_foreach (submit_replica e g off rd) (Some a) s1 = Some s2" using s2(1) by simp
  have "tailq_first (RepTasks main) s1 = Some (Some a)"
    using m heap linked_first [OF g(1)] by (simp add: tailq_first_def)
  then have "submit_single_io_rep e g main s = Some s2"
    using i m n s0(1) s1(1) assms(6) loop by (simp add: submit_single_io_rep_def read_task_def read_ctx_def del: tailq_foreach_simps)
  then show ?thesis using s2 insert_cuts_next [OF na] by auto
qed

theorem refused_replica_cuts_group_witness:
  "\<exists>s main xs s'. replica_group s main xs \<and> length xs = 2 \<and>
     submit_single_io_rep (demo_env\<lparr>driver_rc := (\<lambda>n. if n = n_driver s then - ENOMEM else 0)\<rparr>)
       (demo_globals\<lparr>g_continue_on_error := True\<rparr>) main s = Some s' \<and>
     inflight s' = inflight s \<and> TAILQ_NEXT (links s') (hd xs) = None"
proof -
  obtain s xs where q: "queues s (demo_queues(RepTasks 1 \<mapsto> xs))" and grp: "replica_group s 1 xs" "length xs = 2"
    and e: "ns_ctxs s = ns_ctxs demo_state" and ok: "ctxs_ok s"
    and i: "t_ns_ctx (task_mem s 1) = 0 \<or> t_ns_ctx (task_mem s 1) = 1" by (rule demo_group)
  obtain a ys where xs: "xs = a # ys" using grp(2) by (cases xs) auto
  have g: "replica_group s 1 (a # ys)" using grp(1) xs by simp
  have dr: "\<not> is_draining (ns_ctxs s ! t_ns_ctx (task_mem s 1))" using i by (auto simp: e demo_defs)
  have qs: "(demo_queues(RepTasks 1 \<mapsto> xs)) (RepTasks 1) = Some (a # ys)"
    "(demo_queues(RepTasks 1 \<mapsto> xs)) (QueuedTasks (t_ns_ctx (task_mem s a))) = Some []"
    by (simp_all add: xs demo_queues_def)
  let ?e = "demo_env\<lparr>driver_rc := (\<lambda>n. if n = n_driver s then - ENOMEM else 0)\<rparr>"
  let ?g = "demo_globals\<lparr>g_continue_on_error := True\<rparr>"
  have "g_continue_on_error ?g" "driver_rc ?e (n_driver s) \<noteq> 0" "dif_ctx_init_rc ?e (n_driver s) = 0"
    "dif_generate_rc ?e (n_driver s) = 0" by (simp_all add: demo_env_def)
  from refused_replica_cuts_group [OF q qs g ok dr this]
  obtain s' where s': "submit_single_io_rep ?e ?g 1 s = Some s'" "inflight s' = inflight s" "TAILQ_NEXT (links s') a = None"
    by blast
  moreover have "hd xs = a" using xs by simp
  ultimately show ?thesis using grp by blast
qed

end
