(* ===== verification/Iov.thy ===== *)
theory Iov
  imports Nof_Prelude
begin

text \<open>
  Scatter/gather copies (\<open>lib/util/iov.c\<close>): the N-way iterator over vectors, the copy between
  two vectors built on it, and the transfer cursor that copies between a vector and a flat
  buffer. Memory is a function from addresses to bytes; the address list of a vector is what
  its segments cover, in order. Lengths and offsets are natural numbers: a vector describes
  memory that exists, so a sum of lengths fits \<open>size_t\<close>.
\<close>

section \<open>Vectors\<close>

type_synonym memory = "nat \<Rightarrow> u8"

record segment =
  seg_base :: nat
  seg_len :: nat

definition seg_addrs :: "segment \<Rightarrow> nat list" where
  "seg_addrs v = [seg_base v..<seg_base v + seg_len v]"

definition addrs :: "segment list \<Rightarrow> nat list" where
  "addrs vs = concat (map seg_addrs vs)"

definition gather :: "memory \<Rightarrow> segment list \<Rightarrow> u8 list" where
  "gather mem vs = map mem (addrs vs)"

definition vec_size :: "segment list \<Rightarrow> nat" where
  "vec_size vs = sum_list (map seg_len vs)"

definition memcpy :: "memory \<Rightarrow> nat \<Rightarrow> nat \<Rightarrow> nat \<Rightarrow> memory" where
  "memcpy mem dst src len = (\<lambda>a. if dst \<le> a \<and> a < dst + len then mem (src + (a - dst)) else mem a)"

definition memset :: "memory \<Rightarrow> nat \<Rightarrow> u8 \<Rightarrow> nat \<Rightarrow> memory" where
  "memset mem dst c len = (\<lambda>a. if dst \<le> a \<and> a < dst + len then c else mem a)"

definition store_bytes :: "memory \<Rightarrow> nat \<Rightarrow> u8 list \<Rightarrow> memory" where
  "store_bytes mem dst bs = (\<lambda>a. if dst \<le> a \<and> a < dst + length bs then bs ! (a - dst) else mem a)"

definition load_bytes :: "memory \<Rightarrow> nat \<Rightarrow> nat \<Rightarrow> u8 list" where
  "load_bytes mem src len = map mem [src..<src + len]"

fun spdk_iov_memset :: "memory \<Rightarrow> segment list \<Rightarrow> u8 \<Rightarrow> memory" where
  "spdk_iov_memset mem [] c = mem"
| "spdk_iov_memset mem (v # vs) c = spdk_iov_memset (memset mem (seg_base v) c (seg_len v)) vs c"

section \<open>The N-way iterator\<close>

record spdk_single_ioviter =
  it_iov :: "segment list"
  it_idx :: nat
  it_len :: nat
  it_base :: nat

abbreviation UINT32_MAX :: nat where "UINT32_MAX \<equiv> 4294967295"

definition start_iter :: "segment list \<Rightarrow> spdk_single_ioviter option" where
  "start_iter vs = (case vs of [] \<Rightarrow> None
     | v # _ \<Rightarrow> Some \<lparr>it_iov = vs, it_idx = 0, it_len = seg_len v, it_base = seg_base v\<rparr>)"

definition iter_done :: "spdk_single_ioviter \<Rightarrow> bool" where
  "iter_done it \<longleftrightarrow> it_idx it = length (it_iov it) \<or> it_len it = 0"

definition iter_advance :: "nat \<Rightarrow> spdk_single_ioviter \<Rightarrow> spdk_single_ioviter" where
  "iter_advance len it =
     (if it_len it = len
      then (let it = it\<lparr>it_idx := it_idx it + 1\<rparr>
            in if it_idx it \<noteq> length (it_iov it)
               then it\<lparr>it_len := seg_len (it_iov it ! it_idx it), it_base := seg_base (it_iov it ! it_idx it)\<rparr>
               else it)
      else it\<lparr>it_base := it_base it + len, it_len := it_len it - len\<rparr>)"

text \<open>The next common segment: its length, the advanced iterators and the start addresses.\<close>

definition spdk_ioviter_nextv :: "spdk_single_ioviter list \<Rightarrow> (nat \<times> spdk_single_ioviter list \<times> nat list) option" where
  "spdk_ioviter_nextv its =
     (if list_ex (\<lambda>it. it_idx it > length (it_iov it)) its then None
      else if list_ex iter_done its then Some (0, its, [])
      else (let len = fold (\<lambda>it len. min len (it_len it)) its UINT32_MAX
            in Some (len, map (iter_advance len) its, map it_base its)))"

definition spdk_ioviter_firstv :: "segment list list \<Rightarrow> (nat \<times> spdk_single_ioviter list \<times> nat list) option" where
  "spdk_ioviter_firstv iovs =
     (if [] \<in> set iovs then None else spdk_ioviter_nextv (map (the \<circ> start_iter) iovs))"

definition iter_left :: "spdk_single_ioviter \<Rightarrow> nat" where
  "iter_left it = (if it_idx it < length (it_iov it) then it_len it + vec_size (drop (it_idx it + 1) (it_iov it)) else 0)"

lemma iter_left_advance:
  assumes "it_idx it < length (it_iov it)" and "0 < len" and "len \<le> it_len it"
  shows "iter_left (iter_advance len it) + len = iter_left it"
proof (cases "it_len it = len")
  case True
  show ?thesis
  proof (cases "it_idx it + 1 < length (it_iov it)")
    case more: True
    then have "drop (it_idx it + 1) (it_iov it) = it_iov it ! (it_idx it + 1) # drop (it_idx it + 2) (it_iov it)"
      by (simp add: Cons_nth_drop_Suc)
    then show ?thesis using True more assms
      by (simp add: iter_left_def iter_advance_def vec_size_def Let_def)
  next
    case False
    then show ?thesis using True assms
      by (simp add: iter_left_def iter_advance_def vec_size_def Let_def)
  qed
next
  case False
  then show ?thesis using assms by (simp add: iter_left_def iter_advance_def)
qed

lemma fold_min_le:
  "fold (\<lambda>it len. min len (f it)) its n \<le> n \<and> (\<forall>it \<in> set its. fold (\<lambda>it len. min len (f it)) its n \<le> (f it :: nat))"
proof (induction its arbitrary: n)
  case Nil
  then show ?case by simp
next
  case (Cons a its)
  show ?case using Cons [of "min n (f a)"] by auto
qed

lemma fold_min_pos:
  "0 < n \<Longrightarrow> \<forall>it \<in> set its. 0 < (f it :: nat) \<Longrightarrow> 0 < fold (\<lambda>it len. min len (f it)) its n"
  by (induction its arbitrary: n) auto

section \<open>Copying between two vectors\<close>

lemma nextv_decreases:
  assumes "spdk_ioviter_nextv [s, d] = Some (len, its, out)" and "len \<noteq> 0"
  obtains s' d' where "its = [s', d']" "out = [it_base s, it_base d]" "s' = iter_advance len s"
    "d' = iter_advance len d" "iter_left s' < iter_left s" "iter_left d' < iter_left d"
    "len \<le> it_len s" "len \<le> it_len d" "it_idx s < length (it_iov s)" "it_idx d < length (it_iov d)"
proof -
  have bounds: "\<not> list_ex (\<lambda>it. it_idx it > length (it_iov it)) [s, d]"
    using assms(1) by (auto simp only: spdk_ioviter_nextv_def split: if_splits)
  have live: "\<not> list_ex iter_done [s, d]"
  proof
    assume "list_ex iter_done [s, d]"
    then have "spdk_ioviter_nextv [s, d] = Some (0, [s, d], [])" using bounds
      by (simp only: spdk_ioviter_nextv_def if_False if_True)
    then show False using assms by simp
  qed
  have ok: "\<not> it_idx s > length (it_iov s)" "\<not> it_idx d > length (it_iov d)"
    "\<not> iter_done s" "\<not> iter_done d" using bounds live by simp_all
  have "Some (len, its, out) = (let l = fold (\<lambda>it len. min len (it_len it)) [s, d] UINT32_MAX
      in Some (l, map (iter_advance l) [s, d], map it_base [s, d]))"
    using assms(1) bounds live by (simp only: spdk_ioviter_nextv_def if_False)
  then have len: "len = min (min UINT32_MAX (it_len s)) (it_len d)"
    and its: "its = [iter_advance len s, iter_advance len d]" "out = [it_base s, it_base d]"
    by (simp_all add: Let_def)
  have lt: "it_idx s < length (it_iov s)" "it_idx d < length (it_iov d)"
    using ok by (auto simp: iter_done_def)
  have le: "len \<le> it_len s" "len \<le> it_len d" using len by auto
  have "0 < len" using assms(2) by simp
  then have "iter_left (iter_advance len s) < iter_left s" "iter_left (iter_advance len d) < iter_left d"
    using iter_left_advance [of s len] iter_left_advance [of d len] lt le by linarith+
  then show thesis using that its lt le by blast
qed

text \<open>
  The loop of \<open>spdk_iovcpy\<close> and, with \<open>move\<close>, of \<open>spdk_iovmove\<close>: \<open>memcpy\<close> on overlapping regions
  is undefined, \<open>memmove\<close> is not.
\<close>

definition overlaps :: "nat \<Rightarrow> nat \<Rightarrow> nat \<Rightarrow> bool" where
  "overlaps dst src len \<longleftrightarrow> dst < src + len \<and> src < dst + len"

function iovcpy_loop :: "bool \<Rightarrow> spdk_single_ioviter \<Rightarrow> spdk_single_ioviter \<Rightarrow> nat \<Rightarrow> memory \<Rightarrow> (nat \<times> memory) option" where
  "iovcpy_loop move s d total_sz mem = (case spdk_ioviter_nextv [s, d] of
     None \<Rightarrow> None
   | Some (len, its, out) \<Rightarrow>
       if len = 0 then Some (total_sz, mem)
       else if \<not> move \<and> overlaps (out ! 1) (out ! 0) len then None
       else iovcpy_loop move (its ! 0) (its ! 1) (total_sz + len) (memcpy mem (out ! 1) (out ! 0) len))"
  by pat_completeness auto
termination
proof (relation "measure (\<lambda>(move, s, d, total_sz, mem). iter_left s)")
  fix move :: bool and s d :: spdk_single_ioviter and total_sz :: nat and mem :: memory and x len q its out
  assume "spdk_ioviter_nextv [s, d] = Some x" "(len, q) = x" "(its, out) = q" "len \<noteq> 0"
  then have "spdk_ioviter_nextv [s, d] = Some (len, its, out)" by auto
  then obtain s' d' where "its = [s', d']" "iter_left s' < iter_left s"
    using \<open>len \<noteq> 0\<close> by (rule nextv_decreases)
  then show "((move, its ! 0, its ! 1, total_sz + len, memcpy mem (out ! 1) (out ! 0) len), move, s, d, total_sz, mem)
        \<in> measure (\<lambda>(move, s, d, total_sz, mem). iter_left s)" by simp
qed simp

definition spdk_iovcpy :: "segment list \<Rightarrow> segment list \<Rightarrow> memory \<Rightarrow> (nat \<times> memory) option" where
  "spdk_iovcpy siov diov mem = do {
     s \<leftarrow> start_iter siov;
     d \<leftarrow> start_iter diov;
     iovcpy_loop False s d 0 mem
   }"

definition spdk_iovmove :: "segment list \<Rightarrow> segment list \<Rightarrow> memory \<Rightarrow> (nat \<times> memory) option" where
  "spdk_iovmove siov diov mem = do {
     s \<leftarrow> start_iter siov;
     d \<leftarrow> start_iter diov;
     iovcpy_loop True s d 0 mem
   }"

section \<open>The transfer cursor\<close>

record spdk_iov_xfer =
  ix_iovs :: "segment list"
  cur_iov_idx :: nat
  cur_iov_offset :: nat

definition spdk_iov_xfer_init :: "segment list \<Rightarrow> spdk_iov_xfer" where
  "spdk_iov_xfer_init iovs = \<lparr>ix_iovs = iovs, cur_iov_idx = 0, cur_iov_offset = 0\<rparr>"

text \<open>
  The copy loop. \<open>left\<close> is \<open>buf_len - copied_len\<close>; the result is the cursor, the memory, the
  buffer and the number of bytes copied.
\<close>

function iov_xfer_loop :: "bool \<Rightarrow> spdk_iov_xfer \<Rightarrow> memory \<Rightarrow> u8 list \<Rightarrow> nat \<Rightarrow> nat \<Rightarrow> spdk_iov_xfer \<times> memory \<times> u8 list \<times> nat" where
  "iov_xfer_loop to_buf ix mem buf copied left =
     (if cur_iov_idx ix < length (ix_iovs ix) then
        let iov = ix_iovs ix ! cur_iov_idx ix;
            iov_remain_len = seg_len iov - cur_iov_offset ix
        in if iov_remain_len = 0
           then iov_xfer_loop to_buf (ix\<lparr>cur_iov_idx := cur_iov_idx ix + 1, cur_iov_offset := 0\<rparr>) mem buf copied left
           else let len = min iov_remain_len left;
                    at = seg_base iov + cur_iov_offset ix;
                    buf' = (if to_buf then take copied buf @ load_bytes mem at len @ drop (copied + len) buf else buf);
                    mem' = (if to_buf then mem else store_bytes mem at (take len (drop copied buf)));
                    ix' = ix\<lparr>cur_iov_offset := cur_iov_offset ix + len\<rparr>
                in if left - len = 0 then (ix', mem', buf', copied + len)
                   else iov_xfer_loop to_buf ix' mem' buf' (copied + len) (left - len)
      else (ix, mem, buf, copied))"
  by pat_completeness auto
termination
  by (relation "measure (\<lambda>(to_buf, ix, mem, buf, copied, left). (length (ix_iovs ix) - cur_iov_idx ix) + left)") auto

definition iov_xfer :: "bool \<Rightarrow> spdk_iov_xfer \<Rightarrow> memory \<Rightarrow> u8 list \<Rightarrow> spdk_iov_xfer \<times> memory \<times> u8 list \<times> nat" where
  "iov_xfer to_buf ix mem buf =
     (if buf = [] then (ix, mem, buf, 0) else iov_xfer_loop to_buf ix mem buf 0 (length buf))"

definition spdk_iov_xfer_from_buf :: "spdk_iov_xfer \<Rightarrow> memory \<Rightarrow> u8 list \<Rightarrow> spdk_iov_xfer \<times> memory \<times> nat" where
  "spdk_iov_xfer_from_buf ix mem buf = (let (ix, mem, _, n) = iov_xfer False ix mem buf in (ix, mem, n))"

definition spdk_iov_xfer_to_buf :: "spdk_iov_xfer \<Rightarrow> memory \<Rightarrow> u8 list \<Rightarrow> spdk_iov_xfer \<times> u8 list \<times> nat" where
  "spdk_iov_xfer_to_buf ix mem buf = (let (ix, _, buf, n) = iov_xfer True ix mem buf in (ix, buf, n))"

definition spdk_copy_iovs_to_buf :: "memory \<Rightarrow> u8 list \<Rightarrow> segment list \<Rightarrow> u8 list" where
  "spdk_copy_iovs_to_buf mem buf iovs = fst (snd (spdk_iov_xfer_to_buf (spdk_iov_xfer_init iovs) mem buf))"

definition spdk_copy_buf_to_iovs :: "memory \<Rightarrow> segment list \<Rightarrow> u8 list \<Rightarrow> memory" where
  "spdk_copy_buf_to_iovs mem iovs buf = fst (snd (spdk_iov_xfer_from_buf (spdk_iov_xfer_init iovs) mem buf))"


declare iovcpy_loop.simps [simp del] iov_xfer_loop.simps [simp del]

section \<open>What the iterator walks\<close>

lemma addrs_simps [simp]: "addrs [] = []" "addrs (v # vs) = seg_addrs v @ addrs vs"
  "addrs (vs @ ws) = addrs vs @ addrs ws"
  by (simp_all add: addrs_def)

lemma length_addrs [simp]: "length (addrs vs) = vec_size vs"
  by (induction vs) (simp_all add: seg_addrs_def vec_size_def)

definition it_addrs :: "spdk_single_ioviter \<Rightarrow> nat list" where
  "it_addrs it = (if it_idx it < length (it_iov it)
     then [it_base it..<it_base it + it_len it] @ addrs (drop (it_idx it + 1) (it_iov it)) else [])"

definition iter_ok :: "spdk_single_ioviter \<Rightarrow> bool" where
  "iter_ok it \<longleftrightarrow> it_idx it \<le> length (it_iov it) \<and> (\<forall>v \<in> set (it_iov it). 0 < seg_len v) \<and>
     (it_idx it < length (it_iov it) \<longrightarrow> 0 < it_len it)"

lemma it_addrs_advance:
  assumes "it_idx it < length (it_iov it)" and "len \<le> it_len it"
  shows "it_addrs it = [it_base it..<it_base it + len] @ it_addrs (iter_advance len it)"
proof (cases "it_len it = len")
  case True
  show ?thesis
  proof (cases "it_idx it + 1 < length (it_iov it)")
    case more: True
    then have "drop (it_idx it + 1) (it_iov it) = it_iov it ! (it_idx it + 1) # drop (it_idx it + 2) (it_iov it)"
      by (simp add: Cons_nth_drop_Suc)
    then show ?thesis using True more assms
      by (simp add: it_addrs_def iter_advance_def Let_def seg_addrs_def)
  next
    case False
    then show ?thesis using True assms by (simp add: it_addrs_def iter_advance_def Let_def)
  qed
next
  case False
  have "[it_base it..<it_base it + it_len it] = [it_base it..<it_base it + len] @ [it_base it + len..<it_base it + it_len it]"
    using assms(2) upt_add_eq_append [of "it_base it" "it_base it + len" "it_len it - len"] by simp
  then show ?thesis using False assms by (simp add: it_addrs_def iter_advance_def)
qed

lemma iter_ok_advance:
  assumes "iter_ok it" and "it_idx it < length (it_iov it)" and "len \<le> it_len it"
  shows "iter_ok (iter_advance len it)"
  using assms by (auto simp: iter_ok_def iter_advance_def Let_def)

lemma iter_done_addrs: "iter_ok it \<Longrightarrow> iter_done it \<Longrightarrow> it_addrs it = []"
  by (auto simp: iter_ok_def iter_done_def it_addrs_def)

lemma iter_left_addrs: "iter_left it = length (it_addrs it)"
  by (simp add: iter_left_def it_addrs_def)

lemma start_iter_ok:
  assumes "vs \<noteq> []" and "\<forall>v \<in> set vs. 0 < seg_len v"
  obtains it where "start_iter vs = Some it" "iter_ok it" "it_addrs it = addrs vs"
proof (cases vs)
  case Nil
  then show ?thesis using assms by simp
next
  case (Cons v ws)
  then show ?thesis using assms that
    by (simp add: start_iter_def iter_ok_def it_addrs_def seg_addrs_def)
qed

lemma nextv_pair:
  assumes "iter_ok s" and "iter_ok d"
  shows "(it_addrs s = [] \<or> it_addrs d = []) \<and> spdk_ioviter_nextv [s, d] = Some (0, [s, d], [])
     \<or> (\<exists>len > 0. len \<le> it_len s \<and> len \<le> it_len d \<and> it_idx s < length (it_iov s) \<and> it_idx d < length (it_iov d) \<and>
          spdk_ioviter_nextv [s, d] = Some (len, [iter_advance len s, iter_advance len d], [it_base s, it_base d]))"
proof (cases "iter_done s \<or> iter_done d")
  case True
  then show ?thesis using assms iter_done_addrs by (auto simp: spdk_ioviter_nextv_def iter_ok_def)
next
  case False
  define len where "len = min (min UINT32_MAX (it_len s)) (it_len d)"
  have "0 < len" "len \<le> it_len s" "len \<le> it_len d"
    using False by (auto simp: len_def iter_done_def)
  moreover have "it_idx s < length (it_iov s)" "it_idx d < length (it_iov d)"
    using False assms by (auto simp: iter_done_def iter_ok_def)
  moreover from this have "spdk_ioviter_nextv [s, d] = Some (len, [iter_advance len s, iter_advance len d], [it_base s, it_base d])"
    using False by (simp add: spdk_ioviter_nextv_def Let_def len_def)
  ultimately show ?thesis by blast
qed

text \<open>
  The bytes of the source addresses end up at the destination addresses, as many as both sides
  have, and nothing else changes.
\<close>

definition copied_to :: "nat list \<Rightarrow> nat list \<Rightarrow> memory \<Rightarrow> memory \<Rightarrow> bool" where
  "copied_to ss ds mem mem' \<longleftrightarrow>
     (let k = min (length ss) (length ds)
      in map mem' (take k ds) = map mem (take k ss) \<and> (\<forall>a. a \<notin> set (take k ds) \<longrightarrow> mem' a = mem a))"

lemma copied_to_step:
  assumes "copied_to ss ds (memcpy mem d s len) mem'"
    and "distinct ([d..<d + len] @ ds)"
    and "set ([s..<s + len] @ ss) \<inter> set ([d..<d + len] @ ds) = {}"
  shows "copied_to ([s..<s + len] @ ss) ([d..<d + len] @ ds) mem mem'"
proof -
  let ?k = "min (length ss) (length ds)" and ?m = "memcpy mem d s len"
  from assms(1) have tail: "map mem' (take ?k ds) = map ?m (take ?k ss)"
    and same: "\<And>a. a \<notin> set (take ?k ds) \<Longrightarrow> mem' a = ?m a"
    by (auto simp: copied_to_def Let_def)
  have "map ?m (take ?k ss) = map mem (take ?k ss)"
    using assms(3) by (auto simp: memcpy_def dest: in_set_takeD)
  moreover have "mem' (d + i) = mem (s + i)" if "i < len" for i
  proof -
    have "d + i \<in> {d..<d + len}" using that by simp
    then have "d + i \<notin> set (take ?k ds)" using assms(2) by (metis disjoint_iff distinct_append in_set_takeD set_upt)
    then show ?thesis using same that by (simp add: memcpy_def)
  qed
  then have "map mem' [d..<d + len] = map mem [s..<s + len]"
    by (intro nth_equalityI) simp_all
  moreover have "mem' a = mem a" if "a \<notin> set ([d..<d + len] @ take ?k ds)" for a
    using same [of a] that by (auto simp: memcpy_def)
  moreover have "min (len + length ss) (len + length ds) - len = ?k" by simp
  ultimately show ?thesis using tail by (simp add: copied_to_def Let_def)
qed

lemma iovcpy_loop_copies:
  assumes "iter_ok s" and "iter_ok d" and "distinct (it_addrs d)" and "set (it_addrs s) \<inter> set (it_addrs d) = {}"
  shows "\<exists>mem'. iovcpy_loop move s d total_sz mem = Some (total_sz + min (length (it_addrs s)) (length (it_addrs d)), mem') \<and>
           copied_to (it_addrs s) (it_addrs d) mem mem'"
  using assms
proof (induction "iter_left s" arbitrary: s d total_sz mem rule: less_induct)
  case less
  from nextv_pair [OF less.prems(1,2)] consider
      (stop) "it_addrs s = [] \<or> it_addrs d = []" "spdk_ioviter_nextv [s, d] = Some (0, [s, d], [])"
    | (copy) len where "0 < len" "len \<le> it_len s" "len \<le> it_len d"
        "it_idx s < length (it_iov s)" "it_idx d < length (it_iov d)"
        "spdk_ioviter_nextv [s, d] = Some (len, [iter_advance len s, iter_advance len d], [it_base s, it_base d])"
    by blast
  then show ?case
  proof cases
    case stop
    then show ?thesis by (auto simp: iovcpy_loop.simps [of move s d] copied_to_def)
  next
    case copy
    let ?s = "iter_advance len s" and ?d = "iter_advance len d"
    let ?m = "memcpy mem (it_base d) (it_base s) len"
    have eqs: "it_addrs s = [it_base s..<it_base s + len] @ it_addrs ?s"
      and eqd: "it_addrs d = [it_base d..<it_base d + len] @ it_addrs ?d"
      using it_addrs_advance copy by blast+
    have "it_base d \<in> set (it_addrs d)" "it_base s \<in> set (it_addrs s)"
      "it_base s < it_base d + len \<Longrightarrow> it_base d \<le> it_base s \<Longrightarrow> it_base s \<in> set (it_addrs d)"
      "it_base d < it_base s + len \<Longrightarrow> it_base s \<le> it_base d \<Longrightarrow> it_base d \<in> set (it_addrs s)"
      unfolding eqs eqd using copy(1) by simp_all
    then have apart: "\<not> overlaps (it_base d) (it_base s) len"
      using less.prems(4) unfolding overlaps_def by (meson disjoint_iff linorder_le_cases)
    have "iter_left ?s < iter_left s" using iter_left_advance [of s len] copy by linarith
    moreover have "iter_ok ?s" "iter_ok ?d" using iter_ok_advance less.prems copy by blast+
    moreover have "distinct (it_addrs ?d)" using less.prems(3) eqd by (metis distinct_append)
    moreover have "set (it_addrs ?s) \<inter> set (it_addrs ?d) = {}"
      using less.prems(4) unfolding eqs eqd by auto
    ultimately obtain mem' where
      run: "iovcpy_loop move ?s ?d (total_sz + len) ?m = Some (total_sz + len + min (length (it_addrs ?s)) (length (it_addrs ?d)), mem')"
      and cp: "copied_to (it_addrs ?s) (it_addrs ?d) ?m mem'" using less.hyps by blast
    have "copied_to (it_addrs s) (it_addrs d) mem mem'"
      unfolding eqs eqd
      by (rule copied_to_step [OF cp]) (use less.prems(3,4) in \<open>simp_all only: eqs [symmetric] eqd [symmetric]\<close>)
    moreover have "iovcpy_loop move s d total_sz mem = iovcpy_loop move ?s ?d (total_sz + len) ?m"
      using copy apart by (simp add: iovcpy_loop.simps [of move s d])
    ultimately show ?thesis using run by (simp add: eqs eqd min_add_distrib_right [symmetric] add.assoc)
  qed
qed


section \<open>What the cursor walks\<close>

definition ix_addrs :: "spdk_iov_xfer \<Rightarrow> nat list" where
  "ix_addrs ix = drop (cur_iov_offset ix) (addrs (drop (cur_iov_idx ix) (ix_iovs ix)))"

definition ix_ok :: "spdk_iov_xfer \<Rightarrow> bool" where
  "ix_ok ix \<longleftrightarrow> cur_iov_idx ix \<le> length (ix_iovs ix) \<and>
     (if cur_iov_idx ix < length (ix_iovs ix) then cur_iov_offset ix \<le> seg_len (ix_iovs ix ! cur_iov_idx ix)
      else cur_iov_offset ix = 0)"

lemma ix_at_segment:
  assumes "cur_iov_idx ix < length (ix_iovs ix)" and "ix_ok ix"
  shows "ix_addrs ix = [seg_base (ix_iovs ix ! cur_iov_idx ix) + cur_iov_offset ix..<
             seg_base (ix_iovs ix ! cur_iov_idx ix) + seg_len (ix_iovs ix ! cur_iov_idx ix)]
           @ addrs (drop (cur_iov_idx ix + 1) (ix_iovs ix))"
  using assms by (simp add: ix_addrs_def ix_ok_def seg_addrs_def Cons_nth_drop_Suc [symmetric])

lemma ix_addrs_move:
  assumes "cur_iov_idx ix < length (ix_iovs ix)" and "ix_ok ix"
    and "len \<le> seg_len (ix_iovs ix ! cur_iov_idx ix) - cur_iov_offset ix"
  defines "at \<equiv> seg_base (ix_iovs ix ! cur_iov_idx ix) + cur_iov_offset ix"
    and "ix' \<equiv> ix\<lparr>cur_iov_offset := cur_iov_offset ix + len\<rparr>"
  shows "ix_ok ix'" and "ix_addrs ix = [at..<at + len] @ ix_addrs ix'"
proof -
  let ?v = "ix_iovs ix ! cur_iov_idx ix"
  show ok: "ix_ok ix'" using assms by (auto simp: ix_ok_def)
  have "at + len \<le> seg_base ?v + seg_len ?v" using assms(1-3) by (auto simp: at_def ix_ok_def)
  then have "[at..<seg_base ?v + seg_len ?v] = [at..<at + len] @ [at + len..<seg_base ?v + seg_len ?v]"
    by (metis le_add1 le_Suc_ex upt_add_eq_append)
  then show "ix_addrs ix = [at..<at + len] @ ix_addrs ix'"
    using ix_at_segment [of ix] ix_at_segment [of ix'] assms(1,2) ok
    by (simp add: at_def ix'_def add.assoc)
qed

lemma ix_addrs_skip:
  assumes "cur_iov_idx ix < length (ix_iovs ix)" and "ix_ok ix"
    and "seg_len (ix_iovs ix ! cur_iov_idx ix) - cur_iov_offset ix = 0"
  defines "ix' \<equiv> ix\<lparr>cur_iov_idx := cur_iov_idx ix + 1, cur_iov_offset := 0\<rparr>"
  shows "ix_ok ix'" and "ix_addrs ix' = ix_addrs ix"
  using assms ix_at_segment [of ix] by (auto simp: ix_ok_def ix_addrs_def)

lemma xfer_done: "\<not> cur_iov_idx ix < length (ix_iovs ix) \<Longrightarrow> ix_addrs ix = []"
  by (simp add: ix_addrs_def)

text \<open>The effect of one loop, for the two directions at once.\<close>

definition xfer_result :: "bool \<Rightarrow> spdk_iov_xfer \<Rightarrow> memory \<Rightarrow> u8 list \<Rightarrow> nat \<Rightarrow> nat \<Rightarrow> spdk_iov_xfer \<times> memory \<times> u8 list \<times> nat \<Rightarrow> bool" where
  "xfer_result to_buf ix mem buf copied k r \<longleftrightarrow> (case r of (ix', mem', buf', n) \<Rightarrow>
     n = copied + k \<and> ix_iovs ix' = ix_iovs ix \<and> ix_ok ix' \<and> ix_addrs ix' = drop k (ix_addrs ix) \<and>
     (if to_buf
      then mem' = mem \<and> buf' = take copied buf @ map mem (take k (ix_addrs ix)) @ drop (copied + k) buf
      else buf' = buf \<and> map mem' (take k (ix_addrs ix)) = take k (drop copied buf) \<and>
           (\<forall>a. a \<notin> set (take k (ix_addrs ix)) \<longrightarrow> mem' a = mem a)))"


lemma xfer_step_to_buf:
  assumes "ix_addrs ix = [at..<at + len] @ ix_addrs ix1" and "ix_iovs ix1 = ix_iovs ix"
    and "copied + len + k \<le> length buf"
    and "xfer_result True ix1 mem (take copied buf @ load_bytes mem at len @ drop (copied + len) buf) (copied + len) k r"
  shows "xfer_result True ix mem buf copied (len + k) r"
  using assms by (cases r) (auto simp: xfer_result_def load_bytes_def ac_simps)

lemma store_bytes_frame: "a \<notin> {at..<at + length bs} \<Longrightarrow> store_bytes mem at bs a = mem a"
  by (auto simp: store_bytes_def)

lemma xfer_step_from_buf:
  assumes move: "ix_addrs ix = [at..<at + len] @ ix_addrs ix1" and iovs: "ix_iovs ix1 = ix_iovs ix"
    and fits: "copied + len + k \<le> length buf" and "distinct (ix_addrs ix)"
    and res: "xfer_result False ix1 (store_bytes mem at (take len (drop copied buf))) buf (copied + len) k r"
  shows "xfer_result False ix mem buf copied (len + k) r"
proof -
  obtain ix' mem' buf' n where r: "r = (ix', mem', buf', n)" by (metis prod_cases4)
  let ?b = "take len (drop copied buf)" and ?rest = "take k (ix_addrs ix1)"
  have len: "length ?b = len" using fits by simp
  from res r have same: "\<And>a. a \<notin> set ?rest \<Longrightarrow> mem' a = store_bytes mem at ?b a"
    and tail: "map mem' ?rest = take k (drop (copied + len) buf)"
    by (auto simp: xfer_result_def)
  have "mem' (at + i) = ?b ! i" if "i < len" for i
  proof -
    have "at + i \<in> set [at..<at + len]" using that by simp
    then have "at + i \<notin> set ?rest"
      using assms(4) unfolding move by (metis disjoint_iff distinct_append in_set_takeD)
    then show ?thesis using same that len by (simp add: store_bytes_def)
  qed
  then have "map mem' [at..<at + len] = ?b" using len by (intro nth_equalityI) simp_all
  then have "map mem' (take (len + k) (ix_addrs ix)) = take (len + k) (drop copied buf)"
    using tail move take_add [of len k "drop copied buf"] by (simp add: add.commute [of len])
  moreover have "mem' a = mem a" if "a \<notin> set (take (len + k) (ix_addrs ix))" for a
    using same [of a] store_bytes_frame [of a at ?b mem] that move len by simp
  ultimately show ?thesis using res r move iovs by (simp add: xfer_result_def add.assoc)
qed

lemma xfer_result_cong:
  "ix_addrs ix1 = ix_addrs ix \<Longrightarrow> ix_iovs ix1 = ix_iovs ix \<Longrightarrow>
   xfer_result to_buf ix1 mem buf copied k r = xfer_result to_buf ix mem buf copied k r"
  by (simp only: xfer_result_def)

text \<open>One copying iteration: the bytes moved, then whatever the rest of the loop does.\<close>

lemma xfer_step:
  fixes ix :: spdk_iov_xfer
  defines "v \<equiv> ix_iovs ix ! cur_iov_idx ix"
  defines "at \<equiv> seg_base v + cur_iov_offset ix"
  assumes "cur_iov_idx ix < length (ix_iovs ix)" and "ix_ok ix" and "distinct (ix_addrs ix)"
    and "len \<le> seg_len v - cur_iov_offset ix" and "copied + len + k \<le> length buf"
    and "xfer_result to_buf (ix\<lparr>cur_iov_offset := cur_iov_offset ix + len\<rparr>)
           (if to_buf then mem else store_bytes mem at (take len (drop copied buf)))
           (if to_buf then take copied buf @ load_bytes mem at len @ drop (copied + len) buf else buf)
           (copied + len) k r"
  shows "xfer_result to_buf ix mem buf copied (len + k) r"
  using ix_addrs_move(2) [OF assms(3,4), of len] assms xfer_step_to_buf xfer_step_from_buf
  by (cases to_buf) simp_all

lemma iov_xfer_loop_result:
  assumes "ix_ok ix" and "distinct (ix_addrs ix)" and "0 < left" and "copied + left = length buf"
  shows "xfer_result to_buf ix mem buf copied (min left (length (ix_addrs ix))) (iov_xfer_loop to_buf ix mem buf copied left)"
  using assms
proof (induction to_buf ix mem buf copied left rule: iov_xfer_loop.induct)
  case (1 to_buf ix mem buf copied left)
  define v where "v = ix_iovs ix ! cur_iov_idx ix"
  define rem where "rem = seg_len v - cur_iov_offset ix"
  note prems = "1.prems" and loop = iov_xfer_loop.simps [of to_buf ix mem buf copied left]
  consider (stop) "\<not> cur_iov_idx ix < length (ix_iovs ix)"
    | (skip) "cur_iov_idx ix < length (ix_iovs ix)" "rem = 0"
    | (copy) "cur_iov_idx ix < length (ix_iovs ix)" "rem \<noteq> 0" by blast
  then show ?case
  proof cases
    case stop
    then show ?thesis using prems(1) xfer_done [OF stop] by (simp add: loop xfer_result_def)
  next
    case skip
    let ?ix = "ix\<lparr>cur_iov_idx := cur_iov_idx ix + 1, cur_iov_offset := 0\<rparr>"
    have "seg_len (ix_iovs ix ! cur_iov_idx ix) - cur_iov_offset ix = 0" using skip(2) by (simp add: rem_def v_def)
    note moved = ix_addrs_skip [OF skip(1) prems(1) this]
    have "xfer_result to_buf ?ix mem buf copied (min left (length (ix_addrs ?ix))) (iov_xfer_loop to_buf ?ix mem buf copied left)"
      using "1.IH"(1) [OF skip(1) v_def rem_def skip(2)] moved prems by simp
    moreover have "iov_xfer_loop to_buf ix mem buf copied left = iov_xfer_loop to_buf ?ix mem buf copied left"
      using skip by (subst loop) (simp add: Let_def rem_def v_def)
    ultimately show ?thesis using xfer_result_cong [of ?ix ix] moved(2) by simp
  next
    case copy
    define len where "len = min rem left"
    define at where "at = seg_base v + cur_iov_offset ix"
    define ix1 where "ix1 = ix\<lparr>cur_iov_offset := cur_iov_offset ix + len\<rparr>"
    define mem1 where "mem1 = (if to_buf then mem else store_bytes mem at (take len (drop copied buf)))"
    define buf1 where "buf1 = (if to_buf then take copied buf @ load_bytes mem at len @ drop (copied + len) buf else buf)"
    let ?r = "iov_xfer_loop to_buf ix mem buf copied left"
    have le: "len \<le> seg_len (ix_iovs ix ! cur_iov_idx ix) - cur_iov_offset ix" by (simp add: len_def rem_def v_def)
    note moved = ix_addrs_move [OF copy(1) prems(1) le, folded v_def, folded at_def ix1_def]
    let ?k = "min (left - len) (length (ix_addrs ix1))"
    have unroll: "?r = (if left - len = 0 then (ix1, mem1, buf1, copied + len)
        else iov_xfer_loop to_buf ix1 mem1 buf1 (copied + len) (left - len))"
      using copy by (subst loop) (simp add: Let_def len_def rem_def v_def at_def ix1_def mem1_def buf1_def)
    have "length buf1 = length buf" using prems(4) by (auto simp: buf1_def load_bytes_def len_def)
    then have res: "xfer_result to_buf ix1 mem1 buf1 (copied + len) ?k ?r"
      using "1.IH"(2) [OF copy(1) v_def rem_def copy(2) len_def at_def buf1_def mem1_def ix1_def] moved prems unroll
      by (cases "left - len = 0") (auto simp: xfer_result_def buf1_def len_def)
    have fits: "copied + len + ?k \<le> length buf" using prems(4) by (simp add: len_def)
    have "xfer_result to_buf ix mem buf copied (len + ?k) ?r"
      by (rule xfer_step [OF copy(1) prems(1,2) le fits])
        (use res in \<open>simp only: ix1_def mem1_def buf1_def at_def v_def\<close>)
    moreover have "len + ?k = min left (length (ix_addrs ix))" using moved(2) by (simp add: len_def)
    ultimately show ?thesis by simp
  qed
qed


section \<open>A cursor as a sink of bytes\<close>

text \<open>
  What the users of the cursor rely on when they write a reply piece by piece: each write appends
  what fits and the room shrinks accordingly.
\<close>

locale byte_sink =
  fixes put :: "'s \<Rightarrow> u8 list \<Rightarrow> 's"
    and contents :: "'s \<Rightarrow> u8 list"
    and room :: "'s \<Rightarrow> nat"
    and good :: "'s \<Rightarrow> bool"
  assumes put_good: "good s \<Longrightarrow> good (put s bs)"
    and put_contents: "good s \<Longrightarrow> contents (put s bs) = contents s @ take (room s) bs"
    and put_room: "good s \<Longrightarrow> room (put s bs) = room s - length bs"
begin

lemma put_all_good: "good s \<Longrightarrow> good (foldl put s bss)"
  by (induction bss arbitrary: s) (simp_all add: put_good)

lemma put_all:
  "good s \<Longrightarrow> contents (foldl put s bss) = contents s @ take (room s) (concat bss)"
proof (induction bss arbitrary: s)
  case Nil
  then show ?case by simp
next
  case (Cons bs bss)
  then show ?case by (simp add: put_good put_contents put_room)
qed

lemma put_all_room: "good s \<Longrightarrow> room (foldl put s bss) = room s - length (concat bss)"
  by (induction bss arbitrary: s) (simp_all add: put_good put_room)

end

definition xfer_put :: "spdk_iov_xfer \<times> memory \<Rightarrow> u8 list \<Rightarrow> spdk_iov_xfer \<times> memory" where
  "xfer_put s bs = (let (ix, mem, _) = spdk_iov_xfer_from_buf (fst s) (snd s) bs in (ix, mem))"

definition xfer_room :: "spdk_iov_xfer \<times> memory \<Rightarrow> nat" where
  "xfer_room s = length (ix_addrs (fst s))"

definition xfer_contents :: "spdk_iov_xfer \<times> memory \<Rightarrow> u8 list" where
  "xfer_contents s = map (snd s) (take (vec_size (ix_iovs (fst s)) - xfer_room s) (addrs (ix_iovs (fst s))))"

definition xfer_good :: "spdk_iov_xfer \<times> memory \<Rightarrow> bool" where
  "xfer_good s \<longleftrightarrow> ix_ok (fst s) \<and> distinct (addrs (ix_iovs (fst s)))"

lemma ix_addrs_suffix: "\<exists>p. ix_addrs ix = drop p (addrs (ix_iovs ix))"
proof -
  have "addrs (drop i vs) = drop (vec_size (take i vs)) (addrs vs)" for i vs
  proof -
    have "addrs vs = addrs (take i vs) @ addrs (drop i vs)" by (metis addrs_simps(3) append_take_drop_id)
    then show ?thesis by simp
  qed
  then show ?thesis by (metis drop_drop ix_addrs_def)
qed

lemma ix_addrs_tail: "ix_addrs ix = drop (vec_size (ix_iovs ix) - length (ix_addrs ix)) (addrs (ix_iovs ix))"
  using ix_addrs_suffix [of ix] by (metis diff_diff_cancel drop_all length_addrs length_drop linorder_le_cases diff_is_0_eq diff_zero)

lemma ix_addrs_le: "length (ix_addrs ix) \<le> vec_size (ix_iovs ix)"
  using ix_addrs_suffix [of ix] by auto

lemma ix_addrs_distinct: "distinct (addrs (ix_iovs ix)) \<Longrightarrow> distinct (ix_addrs ix)"
  using ix_addrs_suffix [of ix] by auto

lemma xfer_from_buf_result:
  assumes "xfer_good (ix, mem)"
  obtains ix' mem' where "spdk_iov_xfer_from_buf ix mem bs = (ix', mem', min (length bs) (length (ix_addrs ix)))"
    "xfer_result False ix mem bs 0 (min (length bs) (length (ix_addrs ix))) (ix', mem', bs, min (length bs) (length (ix_addrs ix)))"
proof (cases "bs = []")
  case True
  then show ?thesis using that assms
    by (simp add: spdk_iov_xfer_from_buf_def iov_xfer_def xfer_result_def xfer_good_def)
next
  case False
  let ?k = "min (length bs) (length (ix_addrs ix))"
  obtain ix' mem' buf' n where r: "iov_xfer_loop False ix mem bs 0 (length bs) = (ix', mem', buf', n)" by (metis prod_cases4)
  have "xfer_result False ix mem bs 0 ?k (iov_xfer_loop False ix mem bs 0 (length bs))"
    using assms False by (intro iov_xfer_loop_result) (simp_all add: xfer_good_def ix_addrs_distinct)
  then have "xfer_result False ix mem bs 0 ?k (ix', mem', bs, ?k)" "n = ?k" by (simp_all add: r xfer_result_def)
  moreover have "spdk_iov_xfer_from_buf ix mem bs = (ix', mem', n)"
    using r False by (simp add: spdk_iov_xfer_from_buf_def iov_xfer_def)
  ultimately show ?thesis using that by simp
qed


lemma xfer_put_spec:
  assumes good: "xfer_good s"
  shows "xfer_good (xfer_put s bs)" and "ix_iovs (fst (xfer_put s bs)) = ix_iovs (fst s)"
    and "xfer_room (xfer_put s bs) = xfer_room s - length bs"
    and "xfer_contents (xfer_put s bs) = xfer_contents s @ take (xfer_room s) bs"
    and "a \<notin> set (addrs (ix_iovs (fst s))) \<Longrightarrow> snd (xfer_put s bs) a = snd s a"
proof -
  obtain ix mem where s: "s = (ix, mem)" by (cases s)
  let ?A = "addrs (ix_iovs ix)" and ?k = "min (length bs) (length (ix_addrs ix))"
  define p where "p = vec_size (ix_iovs ix) - length (ix_addrs ix)"
  have tail: "ix_addrs ix = drop p ?A" unfolding p_def by (rule ix_addrs_tail)
  obtain ix' mem' where run: "spdk_iov_xfer_from_buf ix mem bs = (ix', mem', ?k)"
    and res: "xfer_result False ix mem bs 0 ?k (ix', mem', bs, ?k)"
    using xfer_from_buf_result good s by blast
  have put: "xfer_put (ix, mem) bs = (ix', mem')" using run by (simp add: xfer_put_def)
  have iovs: "ix_iovs ix' = ix_iovs ix" and ok: "ix_ok ix'" and left: "ix_addrs ix' = drop ?k (ix_addrs ix)"
    and written: "map mem' (take ?k (drop p ?A)) = take ?k bs"
    and same: "\<And>a. a \<notin> set (take ?k (drop p ?A)) \<Longrightarrow> mem' a = mem a"
    using res by (simp_all add: xfer_result_def tail)
  show "xfer_good (xfer_put s bs)" using good ok iovs by (simp add: put s xfer_good_def)
  show "ix_iovs (fst (xfer_put s bs)) = ix_iovs (fst s)" using iovs by (simp add: put s)
  show "xfer_room (xfer_put s bs) = xfer_room s - length bs" using left by (simp add: put s xfer_room_def)
  have dist: "set (take p ?A) \<inter> set (drop p ?A) = {}"
    using good s by (simp add: xfer_good_def set_take_disj_set_drop_if_distinct)
  have "mem' b = mem b" if "b \<in> set (take p ?A)" for b
    using same [of b] that dist by (metis disjoint_iff in_set_takeD)
  then have "map mem' (take (p + ?k) ?A) = map mem (take p ?A) @ take ?k bs"
    using written by (simp add: take_add)
  moreover have "vec_size (ix_iovs ix) - length (ix_addrs ix') = p + ?k"
    using ix_addrs_le [of ix] by (simp add: p_def left)
  moreover have "take ?k bs = take (length (ix_addrs ix)) bs" by (simp add: min_def)
  ultimately show "xfer_contents (xfer_put s bs) = xfer_contents s @ take (xfer_room s) bs"
    using iovs by (simp add: put s xfer_contents_def xfer_room_def p_def)
  show "snd (xfer_put s bs) a = snd s a" if "a \<notin> set (addrs (ix_iovs (fst s)))"
    using same [of a] that by (auto simp: put s dest!: in_set_takeD in_set_dropD)
qed

interpretation iov_sink: byte_sink xfer_put xfer_contents xfer_room xfer_good
  by unfold_locales (simp_all add: xfer_put_spec)

lemma xfer_init [simp]:
  "xfer_contents (spdk_iov_xfer_init vs, mem) = []" "xfer_room (spdk_iov_xfer_init vs, mem) = vec_size vs"
  "xfer_good (spdk_iov_xfer_init vs, mem) = distinct (addrs vs)"
  by (simp_all add: xfer_contents_def xfer_room_def xfer_good_def spdk_iov_xfer_init_def ix_addrs_def ix_ok_def)

lemma xfer_put_all_iovs: "xfer_good s \<Longrightarrow> ix_iovs (fst (foldl xfer_put s bss)) = ix_iovs (fst s)"
  by (induction bss arbitrary: s) (simp_all add: xfer_put_spec)

lemma xfer_put_all_frame:
  "xfer_good s \<Longrightarrow> a \<notin> set (addrs (ix_iovs (fst s))) \<Longrightarrow> snd (foldl xfer_put s bss) a = snd s a"
  by (induction bss arbitrary: s) (simp_all add: xfer_put_spec)

text \<open>What a series of writes through a fresh cursor leaves in the vector.\<close>

lemma xfer_written:
  assumes "distinct (addrs vs)" and "length (concat bss) \<le> vec_size vs"
  shows "take (length (concat bss)) (gather (snd (foldl xfer_put (spdk_iov_xfer_init vs, mem) bss)) vs) = concat bss"
proof -
  let ?s = "foldl xfer_put (spdk_iov_xfer_init vs, mem) bss"
  have good: "xfer_good (spdk_iov_xfer_init vs, mem)" using assms by simp
  have "ix_iovs (fst ?s) = vs" using xfer_put_all_iovs [OF good] by (simp add: spdk_iov_xfer_init_def)
  moreover have "xfer_room ?s = vec_size vs - length (concat bss)" using iov_sink.put_all_room [OF good] by simp
  moreover have "xfer_contents ?s = concat bss" using iov_sink.put_all [OF good] assms(2) by simp
  ultimately show ?thesis using assms(2) by (simp add: xfer_contents_def gather_def take_map)
qed

section \<open>Properties\<close>

lemma iov_copies:
  assumes "siov \<noteq> []" and "diov \<noteq> []" and "\<forall>v \<in> set siov \<union> set diov. 0 < seg_len v"
    and "distinct (addrs diov)" and "set (addrs siov) \<inter> set (addrs diov) = {}"
  defines "n \<equiv> min (vec_size siov) (vec_size diov)"
  shows "\<exists>s d mem'. start_iter siov = Some s \<and> start_iter diov = Some d \<and> iovcpy_loop move s d 0 mem = Some (n, mem') \<and>
           gather mem' diov = take n (gather mem siov) @ drop n (gather mem diov) \<and>
           (\<forall>a. a \<notin> set (addrs diov) \<longrightarrow> mem' a = mem a)"
proof -
  obtain s where s: "start_iter siov = Some s" "iter_ok s" "it_addrs s = addrs siov"
    using start_iter_ok [of siov] assms(1,3) by blast
  obtain d where d: "start_iter diov = Some d" "iter_ok d" "it_addrs d = addrs diov"
    using start_iter_ok [of diov] assms(2,3) by blast
  obtain mem' where run: "iovcpy_loop move s d 0 mem = Some (n, mem')" and cp: "copied_to (addrs siov) (addrs diov) mem mem'"
    using iovcpy_loop_copies [OF s(2) d(2), of move 0 mem] assms(4,5) s(3) d(3) by (auto simp: n_def)
  from cp have head: "map mem' (take n (addrs diov)) = map mem (take n (addrs siov))"
    and same: "\<And>a. a \<notin> set (take n (addrs diov)) \<Longrightarrow> mem' a = mem a"
    by (simp_all add: copied_to_def n_def Let_def)
  have "map mem' (drop n (addrs diov)) = map mem (drop n (addrs diov))"
    using same set_take_disj_set_drop_if_distinct [OF assms(4), of n n] by (auto simp: disjoint_iff)
  with head have "gather mem' diov = take n (gather mem siov) @ drop n (gather mem diov)"
    unfolding gather_def by (metis append_take_drop_id drop_map map_append take_map)
  moreover have "mem' a = mem a" if "a \<notin> set (addrs diov)" for a using same that by (meson in_set_takeD)
  ultimately show ?thesis using run s(1) d(1) by blast
qed



text \<open>
  C36. A flat buffer copied into a vector with room for it and read back through a fresh cursor is
  the same buffer, however the vector is cut; empty segments are skipped.
\<close>

theorem copy_round_trip:
  assumes "distinct (addrs iovs)" and "length buf \<le> vec_size iovs" and "length buf2 = length buf"
  shows "spdk_copy_iovs_to_buf (spdk_copy_buf_to_iovs mem iovs buf) buf2 iovs = buf"
proof (cases "buf = []")
  case True
  then show ?thesis using assms by (simp add: spdk_copy_iovs_to_buf_def spdk_iov_xfer_to_buf_def iov_xfer_def)
next
  case False
  let ?ix = "spdk_iov_xfer_init iovs" and ?mem = "spdk_copy_buf_to_iovs mem iovs buf"
  have start: "ix_addrs ?ix = addrs iovs" "ix_ok ?ix" by (simp_all add: spdk_iov_xfer_init_def ix_addrs_def ix_ok_def)
  obtain ix' mem' where w: "spdk_iov_xfer_from_buf ?ix mem buf = (ix', mem', length buf)"
    and res: "xfer_result False ?ix mem buf 0 (length buf) (ix', mem', buf, length buf)"
    using xfer_from_buf_result [of ?ix mem buf] assms start by auto
  have "map ?mem (take (length buf) (addrs iovs)) = buf"
    using w res start by (simp add: spdk_copy_buf_to_iovs_def xfer_result_def)
  moreover have "xfer_result True ?ix ?mem buf2 0 (length buf) (iov_xfer_loop True ?ix ?mem buf2 0 (length buf2))"
    using iov_xfer_loop_result [of ?ix "length buf2" 0 buf2 True ?mem] start assms False by auto
  ultimately show ?thesis using False assms(3) start
    by (auto simp: spdk_copy_iovs_to_buf_def spdk_iov_xfer_to_buf_def iov_xfer_def xfer_result_def split: prod.splits)
qed

theorem copy_round_trip_witness:
  "spdk_copy_iovs_to_buf (spdk_copy_buf_to_iovs (\<lambda>_. 0) [\<lparr>seg_base = 8, seg_len = 2\<rparr>, \<lparr>seg_base = 0, seg_len = 0\<rparr>, \<lparr>seg_base = 2, seg_len = 3\<rparr>] [5, 6, 7, 8])
     [0, 0, 0, 0] [\<lparr>seg_base = 8, seg_len = 2\<rparr>, \<lparr>seg_base = 0, seg_len = 0\<rparr>, \<lparr>seg_base = 2, seg_len = 3\<rparr>] = [5, 6, 7, 8]"
  by (rule copy_round_trip) (simp_all add: seg_addrs_def vec_size_def upt_rec)

text \<open>The move does the same; it is also defined when the two vectors share memory.\<close>

lemma iovmove_copies:
  assumes "siov \<noteq> []" and "diov \<noteq> []" and "\<forall>v \<in> set siov \<union> set diov. 0 < seg_len v"
    and "distinct (addrs diov)" and "set (addrs siov) \<inter> set (addrs diov) = {}"
  defines "n \<equiv> min (vec_size siov) (vec_size diov)"
  shows "\<exists>mem'. spdk_iovmove siov diov mem = Some (n, mem') \<and>
           gather mem' diov = take n (gather mem siov) @ drop n (gather mem diov)"
  using iov_copies [OF assms(1-5), of True mem] by (auto simp: spdk_iovmove_def n_def)

text \<open>An empty segment ends the two-vector copy, although bytes are left on both sides.\<close>

lemma iovcpy_stops_at_empty_segment:
  assumes "diov \<noteq> []" and "seg_len v = 0"
  shows "spdk_iovcpy (v # siov) diov mem = Some (0, mem)"
  using assms
  by (cases diov) (simp_all add: spdk_iovcpy_def start_iter_def iovcpy_loop.simps spdk_ioviter_nextv_def iter_done_def)

end
