(* ===== verification/Nvmf_Aer.thy ===== *)
theory Nvmf_Aer
  imports Iov "HOL-Library.Multiset"
begin

text \<open>
  Asynchronous events of an NVMe-oF controller (\<open>lib/nvmf/ctrlr.c\<close>): the requests a host parks
  with the controller, the events raised when none is parked, the masks that hold an event back
  until its log page has been read, the reservation notice log and the changed namespace list.
  Completions are recorded in the order they are made. An allocation that fails is the parameter
  \<open>oom\<close>. \<open>None\<close> is an access to the last element of an empty list.
\<close>

section \<open>State\<close>

type_synonym uuid = nat

datatype resv_notice = REGISTRATION_PREEMPTED | RESERVATION_RELEASED | RESERVATION_PREEMPTED

record reservation_log =
  log_count :: u64
  log_avail :: u8
  log_type :: resv_notice
  log_nsid :: u32

datatype aer_result = Event u32 | Limit_Exceeded | Aborted

record spdk_nvmf_ctrlr =
  cntlid :: nat
  ctrlr_hostid :: uuid
  async_event_configuration :: u32
  aer_req :: "nat list"
  async_events :: "u32 list"
  notice_aen_mask :: u64
  changed_ns_list :: "u32 list"
  changed_ns_list_count :: nat
  log_page_count :: u64
  num_avail_log_pages :: u8
  log_head :: "reservation_log list"
  completions :: "(nat \<times> aer_result) list"

abbreviation MAX_ASYNC_EVENTS :: nat where "MAX_ASYNC_EVENTS \<equiv> 4"
abbreviation NS_LIST_SIZE :: nat where "NS_LIST_SIZE \<equiv> 1024"

abbreviation NS_ATTR_CHANGE_MASK_BIT :: nat where "NS_ATTR_CHANGE_MASK_BIT \<equiv> 0"
abbreviation ANA_CHANGE_MASK_BIT :: nat where "ANA_CHANGE_MASK_BIT \<equiv> 1"
abbreviation DISCOVERY_LOG_CHANGE_MASK_BIT :: nat where "DISCOVERY_LOG_CHANGE_MASK_BIT \<equiv> 2"
abbreviation RESERVATION_LOG_AVAIL_MASK_BIT :: nat where "RESERVATION_LOG_AVAIL_MASK_BIT \<equiv> 3"
abbreviation ERROR_MASK_BIT :: nat where "ERROR_MASK_BIT \<equiv> 4"

section \<open>Requests and events\<close>

definition complete_aer :: "nat \<Rightarrow> aer_result \<Rightarrow> spdk_nvmf_ctrlr \<Rightarrow> spdk_nvmf_ctrlr" where
  "complete_aer r x c = c\<lparr>completions := completions c @ [(r, x)]\<rparr>"

definition nvmf_ctrlr_async_event_request :: "nat \<Rightarrow> spdk_nvmf_ctrlr \<Rightarrow> spdk_nvmf_ctrlr" where
  "nvmf_ctrlr_async_event_request r c =
     (if length (aer_req c) \<ge> MAX_ASYNC_EVENTS then complete_aer r Limit_Exceeded c
      else case async_events c of
        ev # evs \<Rightarrow> complete_aer r (Event ev) (c\<lparr>async_events := evs\<rparr>)
      | [] \<Rightarrow> c\<lparr>aer_req := aer_req c @ [r]\<rparr>)"

definition unmask_aen :: "nat \<Rightarrow> spdk_nvmf_ctrlr \<Rightarrow> spdk_nvmf_ctrlr" where
  "unmask_aen b c = c\<lparr>notice_aen_mask := notice_aen_mask c AND NOT (push_bit b 1)\<rparr>"

definition mask_aen :: "nat \<Rightarrow> spdk_nvmf_ctrlr \<Rightarrow> bool \<times> spdk_nvmf_ctrlr" where
  "mask_aen b c =
     (if notice_aen_mask c AND push_bit b 1 \<noteq> 0 then (False, c)
      else (True, c\<lparr>notice_aen_mask := notice_aen_mask c OR push_bit b 1\<rparr>))"

definition queue_pending_async_event :: "bool \<Rightarrow> u32 \<Rightarrow> spdk_nvmf_ctrlr \<Rightarrow> spdk_nvmf_ctrlr" where
  "queue_pending_async_event oom ev c = (if oom then c else c\<lparr>async_events := async_events c @ [ev]\<rparr>)"

definition async_event_notification :: "bool \<Rightarrow> u32 \<Rightarrow> spdk_nvmf_ctrlr \<Rightarrow> spdk_nvmf_ctrlr" where
  "async_event_notification oom ev c =
     (if aer_req c = [] then queue_pending_async_event oom ev c
      else complete_aer (last (aer_req c)) (Event ev) (c\<lparr>aer_req := butlast (aer_req c)\<rparr>))"

definition event_raw :: "nat \<Rightarrow> nat \<Rightarrow> nat \<Rightarrow> u32" where
  "event_raw type info lid = of_nat type OR push_bit 8 (of_nat info) OR push_bit 16 (of_nat lid)"

text \<open>The configuration bits: 8 namespace attributes, 11 ANA change, 31 discovery log change.\<close>

definition notify_unless_masked :: "nat \<Rightarrow> bool \<Rightarrow> u32 \<Rightarrow> spdk_nvmf_ctrlr \<Rightarrow> spdk_nvmf_ctrlr" where
  "notify_unless_masked b oom ev c =
     (let (ok, c) = mask_aen b c in if ok then async_event_notification oom ev c else c)"

definition async_event_ns_notice :: "bool \<Rightarrow> spdk_nvmf_ctrlr \<Rightarrow> spdk_nvmf_ctrlr" where
  "async_event_ns_notice oom c =
     (if \<not> bit (async_event_configuration c) 8 then c
      else notify_unless_masked NS_ATTR_CHANGE_MASK_BIT oom (event_raw 2 0 4) c)"

definition async_event_ana_change_notice :: "bool \<Rightarrow> spdk_nvmf_ctrlr \<Rightarrow> spdk_nvmf_ctrlr" where
  "async_event_ana_change_notice oom c =
     (if \<not> bit (async_event_configuration c) 11 then c
      else notify_unless_masked ANA_CHANGE_MASK_BIT oom (event_raw 2 3 12) c)"

definition async_event_reservation_notification :: "bool \<Rightarrow> spdk_nvmf_ctrlr \<Rightarrow> spdk_nvmf_ctrlr" where
  "async_event_reservation_notification oom c =
     (if num_avail_log_pages c = 0 then c
      else notify_unless_masked RESERVATION_LOG_AVAIL_MASK_BIT oom (event_raw 6 0 128) c)"

definition async_event_discovery_log_change_notice :: "bool \<Rightarrow> spdk_nvmf_ctrlr \<Rightarrow> spdk_nvmf_ctrlr" where
  "async_event_discovery_log_change_notice oom c =
     (if \<not> bit (async_event_configuration c) 31 then c
      else notify_unless_masked DISCOVERY_LOG_CHANGE_MASK_BIT oom (event_raw 2 240 112) c)"

text \<open>
  The error event is built in an uninitialised variable: \<open>junk\<close> is what its reserved bits held.
  The mask bit is taken before the information code is checked.
\<close>

definition async_event_error_event :: "u32 \<Rightarrow> nat \<Rightarrow> bool \<Rightarrow> spdk_nvmf_ctrlr \<Rightarrow> spdk_nvmf_ctrlr" where
  "async_event_error_event junk info oom c =
     (let (ok, c) = mask_aen ERROR_MASK_BIT c
      in if \<not> ok then c
         else if info > 5 then c
         else async_event_notification oom (event_raw 0 info 1 OR (junk AND 0xFF0000F8)) c)"

definition ctrlr_abort_aer :: "spdk_nvmf_ctrlr \<Rightarrow> spdk_nvmf_ctrlr" where
  "ctrlr_abort_aer c =
     (if aer_req c = [] then c
      else fold (\<lambda>r. complete_aer r Aborted) (aer_req c) (c\<lparr>aer_req := []\<rparr>))"

definition qpair_free_aer :: "bool \<Rightarrow> spdk_nvmf_ctrlr \<Rightarrow> spdk_nvmf_ctrlr" where
  "qpair_free_aer admin c = (if \<not> admin then c else c\<lparr>aer_req := []\<rparr>)"

definition set_features_async_event_configuration :: "u32 \<Rightarrow> spdk_nvmf_ctrlr \<Rightarrow> spdk_nvmf_ctrlr" where
  "set_features_async_event_configuration cdw11 c =
     c\<lparr>async_event_configuration := cdw11 AND 0x80000FFF\<rparr>"

section \<open>The reservation notice log\<close>

definition add_reservation_log :: "bool \<Rightarrow> resv_notice \<Rightarrow> u32 \<Rightarrow> spdk_nvmf_ctrlr \<Rightarrow> spdk_nvmf_ctrlr option" where
  "add_reservation_log oom t n c =
     (let c = c\<lparr>log_page_count := log_page_count c + 1\<rparr>
      in if num_avail_log_pages c = 255
         then if log_head c = [] then None
              else Some (c\<lparr>log_head := butlast (log_head c) @ [(last (log_head c))\<lparr>log_count := log_page_count c\<rparr>]\<rparr>)
         else let log = \<lparr>log_count = log_page_count c, log_avail = num_avail_log_pages c, log_type = t, log_nsid = n\<rparr>
              in Some (async_event_reservation_notification oom
                   (c\<lparr>num_avail_log_pages := num_avail_log_pages c + 1, log_head := log_head c @ [log]\<rparr>)))"

definition notice_masked :: "u32 \<Rightarrow> resv_notice \<Rightarrow> bool" where
  "notice_masked m t = (case t of
     REGISTRATION_PREEMPTED \<Rightarrow> m AND push_bit 1 1 \<noteq> 0
   | RESERVATION_RELEASED \<Rightarrow> m AND push_bit 2 1 \<noteq> 0
   | RESERVATION_PREEMPTED \<Rightarrow> m AND push_bit 3 1 \<noteq> 0)"

text \<open>A notice for a controller: \<open>log_oom\<close> when the log entry cannot be allocated.\<close>

definition reservation_notice_log :: "bool \<Rightarrow> bool \<Rightarrow> u32 \<Rightarrow> u32 \<Rightarrow> resv_notice \<Rightarrow> spdk_nvmf_ctrlr \<Rightarrow> spdk_nvmf_ctrlr option" where
  "reservation_notice_log log_oom oom m nsid t c =
     (if notice_masked m t then Some c
      else if log_oom then Some c
      else add_reservation_log oom t nsid c)"

definition le_bytes :: "nat \<Rightarrow> 'a :: len word \<Rightarrow> u8 list" where
  "le_bytes n w = map (\<lambda>i. ucast (drop_bit (8 * i) w)) [0..<n]"

definition notice_code :: "resv_notice \<Rightarrow> u8" where
  "notice_code t = (case t of REGISTRATION_PREEMPTED \<Rightarrow> 1 | RESERVATION_RELEASED \<Rightarrow> 2 | RESERVATION_PREEMPTED \<Rightarrow> 3)"

text \<open>The 64-byte layout of \<open>spdk_nvme_reservation_notification_log\<close>.\<close>

definition log_bytes :: "reservation_log \<Rightarrow> u8 list" where
  "log_bytes l = le_bytes 8 (log_count l) @ [notice_code (log_type l), log_avail l, 0, 0] @ le_bytes 4 (log_nsid l) @ replicate 48 0"

primrec log_page_loop :: "reservation_log list \<Rightarrow> nat \<Rightarrow> nat \<Rightarrow> nat \<Rightarrow> spdk_iov_xfer \<times> memory \<Rightarrow> reservation_log list \<times> (spdk_iov_xfer \<times> memory)" where
  "log_page_loop [] next_pos offset len out = ([], out)"
| "log_page_loop (log # logs) next_pos offset len out =
     (let next_pos' = next_pos + 64;
          copy_len = min (next_pos' - offset) len;
          copy = (next_pos' > offset);
          offset' = (if copy then offset + copy_len else offset);
          len' = (if copy then len - copy_len else len);
          out' = (if copy then xfer_put out (take copy_len (log_bytes log)) else out)
      in if len' = 0 then (logs, out') else log_page_loop logs next_pos' offset' len' out')"

definition get_reservation_notification_log_page :: "segment list \<Rightarrow> nat \<Rightarrow> nat \<Rightarrow> bool \<Rightarrow> memory \<Rightarrow> spdk_nvmf_ctrlr \<Rightarrow> memory \<times> spdk_nvmf_ctrlr" where
  "get_reservation_notification_log_page iovs offset len rae mem c =
     (if num_avail_log_pages c = 0 then (mem, c)
      else if offset \<ge> unat (num_avail_log_pages c) * 64 then (mem, c)
      else let (logs, out) = log_page_loop (log_head c) 0 offset len (spdk_iov_xfer_init iovs, mem);
               c = c\<lparr>log_head := logs, num_avail_log_pages := num_avail_log_pages c - of_nat (length (log_head c) - length logs)\<rparr>
           in (snd out, if rae then c else unmask_aen RESERVATION_LOG_AVAIL_MASK_BIT c))"

section \<open>The changed namespace list\<close>

definition nvmf_ctrlr_ns_changed :: "u32 \<Rightarrow> spdk_nvmf_ctrlr \<Rightarrow> spdk_nvmf_ctrlr" where
  "nvmf_ctrlr_ns_changed nsid c =
     (if nsid \<in> set (take (changed_ns_list_count c) (changed_ns_list c)) then c
      else if changed_ns_list_count c = NS_LIST_SIZE
           then c\<lparr>changed_ns_list := 0xFFFFFFFF # replicate (NS_LIST_SIZE - 1) 0\<rparr>
      else c\<lparr>changed_ns_list := (changed_ns_list c)[changed_ns_list_count c := nsid],
             changed_ns_list_count := changed_ns_list_count c + 1\<rparr>)"

definition ns_list_bytes :: "u32 list \<Rightarrow> u8 list" where
  "ns_list_bytes xs = concat (map (le_bytes 4) xs)"

definition get_changed_ns_list_log_page :: "segment list \<Rightarrow> nat \<Rightarrow> nat \<Rightarrow> bool \<Rightarrow> memory \<Rightarrow> spdk_nvmf_ctrlr \<Rightarrow> memory \<times> spdk_nvmf_ctrlr" where
  "get_changed_ns_list_log_page iovs offset len rae mem c =
     (let bytes = ns_list_bytes (changed_ns_list c);
          mem = (if offset < length bytes
                 then snd (xfer_put (spdk_iov_xfer_init iovs, mem) (take (min len (length bytes - offset)) (drop offset bytes)))
                 else mem);
          c = c\<lparr>changed_ns_list_count := 0, changed_ns_list := replicate NS_LIST_SIZE 0\<rparr>
      in (mem, if rae then c else unmask_aen NS_ATTR_CHANGE_MASK_BIT c))"

definition get_error_log_page :: "bool \<Rightarrow> spdk_nvmf_ctrlr \<Rightarrow> spdk_nvmf_ctrlr" where
  "get_error_log_page rae c = (if rae then c else unmask_aen ERROR_MASK_BIT c)"


section \<open>Well-formed controllers\<close>

definition aer_ok :: "spdk_nvmf_ctrlr \<Rightarrow> bool" where
  "aer_ok c \<longleftrightarrow> length (aer_req c) \<le> MAX_ASYNC_EVENTS \<and> (aer_req c = [] \<or> async_events c = [])"

definition log_ok :: "spdk_nvmf_ctrlr \<Rightarrow> bool" where
  "log_ok c \<longleftrightarrow> unat (num_avail_log_pages c) = length (log_head c) \<and>
     sorted_wrt (<) (map log_count (log_head c)) \<and> (\<forall>l \<in> set (log_head c). log_count l \<le> log_page_count c)"

definition changed_ok :: "spdk_nvmf_ctrlr \<Rightarrow> bool" where
  "changed_ok c \<longleftrightarrow> length (changed_ns_list c) = NS_LIST_SIZE \<and> changed_ns_list_count c \<le> NS_LIST_SIZE"

text \<open>The events that can befall a controller.\<close>

datatype aer_op =
    Request nat
  | Configure u32
  | Ns_Notice bool
  | Ana_Change bool
  | Discovery_Change bool
  | Error_Event u32 nat bool
  | Reservation_Notice bool bool u32 u32 resv_notice
  | Ns_Changed u32
  | Read_Error bool
  | Read_Notices "segment list" nat nat bool
  | Read_Changed "segment list" nat nat bool
  | Abort
  | Disconnect bool

fun aer_step :: "aer_op \<Rightarrow> memory \<times> spdk_nvmf_ctrlr \<Rightarrow> (memory \<times> spdk_nvmf_ctrlr) option" where
  "aer_step (Request r) (mem, c) = Some (mem, nvmf_ctrlr_async_event_request r c)"
| "aer_step (Configure w) (mem, c) = Some (mem, set_features_async_event_configuration w c)"
| "aer_step (Ns_Notice oom) (mem, c) = Some (mem, async_event_ns_notice oom c)"
| "aer_step (Ana_Change oom) (mem, c) = Some (mem, async_event_ana_change_notice oom c)"
| "aer_step (Discovery_Change oom) (mem, c) = Some (mem, async_event_discovery_log_change_notice oom c)"
| "aer_step (Error_Event junk info oom) (mem, c) = Some (mem, async_event_error_event junk info oom c)"
| "aer_step (Reservation_Notice log_oom oom m n t) (mem, c) =
     (case reservation_notice_log log_oom oom m n t c of None \<Rightarrow> None | Some c \<Rightarrow> Some (mem, c))"
| "aer_step (Ns_Changed n) (mem, c) = Some (mem, nvmf_ctrlr_ns_changed n c)"
| "aer_step (Read_Error rae) (mem, c) = Some (mem, get_error_log_page rae c)"
| "aer_step (Read_Notices iovs offset len rae) (mem, c) = Some (get_reservation_notification_log_page iovs offset len rae mem c)"
| "aer_step (Read_Changed iovs offset len rae) (mem, c) = Some (get_changed_ns_list_log_page iovs offset len rae mem c)"
| "aer_step Abort (mem, c) = Some (mem, ctrlr_abort_aer c)"
| "aer_step (Disconnect admin) (mem, c) = Some (mem, qpair_free_aer admin c)"

fun requested :: "aer_op \<Rightarrow> nat list" where
  "requested (Request r) = [r]"
| "requested _ = []"

text \<open>The requests a controller has answered or still holds.\<close>

definition known_requests :: "spdk_nvmf_ctrlr \<Rightarrow> nat multiset" where
  "known_requests c = mset (map fst (completions c)) + mset (aer_req c)"

definition ctrlr_ok :: "spdk_nvmf_ctrlr \<Rightarrow> bool" where
  "ctrlr_ok c \<longleftrightarrow> aer_ok c \<and> log_ok c \<and> changed_ok c"


section \<open>Every operation keeps a controller well formed\<close>

text \<open>
  \<open>keeps c c'\<close>: the requests are the same, answered or parked, the logs untouched, and the parked
  requests and pending events still consistent.
\<close>

definition keeps :: "spdk_nvmf_ctrlr \<Rightarrow> spdk_nvmf_ctrlr \<Rightarrow> bool" where
  "keeps c c' \<longleftrightarrow> (aer_ok c \<longrightarrow> aer_ok c') \<and> known_requests c' = known_requests c \<and>
     log_head c' = log_head c \<and> log_page_count c' = log_page_count c \<and> num_avail_log_pages c' = num_avail_log_pages c \<and>
     changed_ns_list c' = changed_ns_list c \<and> changed_ns_list_count c' = changed_ns_list_count c"

lemma keeps_refl [simp]: "keeps c c"
  by (simp add: keeps_def)

lemma keeps_trans: "keeps c c' \<Longrightarrow> keeps c' c'' \<Longrightarrow> keeps c c''"
  by (simp add: keeps_def)

lemma keeps_ok: "keeps c c' \<Longrightarrow> ctrlr_ok c \<Longrightarrow> ctrlr_ok c'"
  by (simp add: keeps_def ctrlr_ok_def log_ok_def changed_ok_def)

lemma known_requests_split: "xs \<noteq> [] \<Longrightarrow> add_mset (last xs) (mset (butlast xs)) = mset xs"
  by (metis append_butlast_last_id mset.simps(2) mset_append add_mset_add_single mset_single_iff)

lemma keeps_mask: "keeps c (snd (mask_aen b c))" and keeps_unmask: "keeps c (unmask_aen b c)"
  by (auto simp: keeps_def mask_aen_def unmask_aen_def aer_ok_def known_requests_def)

lemma keeps_notification: "keeps c (async_event_notification oom ev c)"
  using known_requests_split [of "aer_req c"]
  by (auto simp: keeps_def async_event_notification_def queue_pending_async_event_def complete_aer_def
      aer_ok_def known_requests_def)

lemma keeps_notify: "keeps c (notify_unless_masked b oom ev c)"
  using keeps_mask [of c b] keeps_notification keeps_trans
  by (fastforce simp: notify_unless_masked_def split: prod.splits)

lemma keeps_error: "keeps c (async_event_error_event junk info oom c)"
  using keeps_mask [of c ERROR_MASK_BIT] keeps_notification keeps_trans
  by (fastforce simp: async_event_error_event_def split: prod.splits)

lemma fold_complete:
  "fold (\<lambda>r. complete_aer r x) rs c = c\<lparr>completions := completions c @ map (\<lambda>r. (r, x)) rs\<rparr>"
  by (induction rs arbitrary: c) (simp_all add: complete_aer_def)

lemma keeps_abort: "keeps c (ctrlr_abort_aer c)"
  by (auto simp: keeps_def ctrlr_abort_aer_def fold_complete aer_ok_def known_requests_def multiset.map_comp comp_def)

lemmas keeps_intros = keeps_mask keeps_unmask keeps_notification keeps_notify keeps_error keeps_abort

lemma keeps_events:
  "keeps c (async_event_ns_notice oom c)" "keeps c (async_event_ana_change_notice oom c)"
  "keeps c (async_event_discovery_log_change_notice oom c)" "keeps c (async_event_reservation_notification oom c)"
  "keeps c (set_features_async_event_configuration w c)" "keeps c (get_error_log_page rae c)"
  by (simp_all add: async_event_ns_notice_def async_event_ana_change_notice_def get_error_log_page_def
      async_event_discovery_log_change_notice_def async_event_reservation_notification_def keeps_intros)
    (simp add: keeps_def set_features_async_event_configuration_def aer_ok_def known_requests_def)

lemma request_ok:
  assumes "ctrlr_ok c"
  shows "ctrlr_ok (nvmf_ctrlr_async_event_request r c)"
    and "known_requests (nvmf_ctrlr_async_event_request r c) = add_mset r (known_requests c)"
    and "log_page_count (nvmf_ctrlr_async_event_request r c) = log_page_count c"
  using assms
  by (auto simp: nvmf_ctrlr_async_event_request_def complete_aer_def ctrlr_ok_def aer_ok_def log_ok_def
      changed_ok_def known_requests_def split: list.splits)

lemma ns_changed_ok: "ctrlr_ok c \<Longrightarrow> ctrlr_ok (nvmf_ctrlr_ns_changed n c)"
  "known_requests (nvmf_ctrlr_ns_changed n c) = known_requests c"
  "log_page_count (nvmf_ctrlr_ns_changed n c) = log_page_count c"
  by (auto simp: nvmf_ctrlr_ns_changed_def ctrlr_ok_def aer_ok_def log_ok_def changed_ok_def known_requests_def)

lemma word_lt_inc: "unat (x :: u64) + 1 < 2 ^ 64 \<Longrightarrow> y \<le> x \<Longrightarrow> y < x + 1"
  using unat_inc [of x] by (simp add: word_less_nat_alt word_le_nat_alt)

lemma log_page_loop_suffix: "\<exists>n. fst (log_page_loop logs p q len out) = drop n logs"
proof (induction logs arbitrary: p q len out)
  case Nil
  then show ?case by simp
next
  case (Cons l logs)
  have "\<exists>n. fst (if b then (logs, o1) else log_page_loop logs p1 q1 len1 o2) = drop n (l # logs)" for b o1 p1 q1 len1 o2
  proof (cases b)
    case True
    then show ?thesis by (intro exI [of _ 1]) simp
  next
    case False
    obtain n where "fst (log_page_loop logs p1 q1 len1 o2) = drop n logs" using Cons by blast
    then show ?thesis using False by (intro exI [of _ "Suc n"]) simp
  qed
  then show ?case unfolding log_page_loop.simps Let_def by this
qed


lemma unat_take_suffix:
  assumes "unat (w :: u8) = length xs"
  shows "unat (w - of_nat (length xs - length (drop n xs))) = length (drop n xs)"
proof -
  define k where "k = length xs - length (drop n xs)"
  have k: "k \<le> unat w" "length (drop n xs) = unat w - k" using assms by (simp_all add: k_def)
  then have "unat (of_nat k :: u8) = k"
    using unsigned_less [where ?'a = nat, of w] by (simp add: unat_of_nat)
  then have "unat (w - of_nat k) = unat w - k" using k by (simp add: unat_sub word_le_nat_alt)
  then show ?thesis using k k_def by simp
qed

lemma log_ok_suffix:
  assumes "log_ok c"
  shows "log_ok (c\<lparr>log_head := drop n (log_head c),
      num_avail_log_pages := num_avail_log_pages c - of_nat (length (log_head c) - length (drop n (log_head c)))\<rparr>)"
  using assms unat_take_suffix [of "num_avail_log_pages c" "log_head c" n]
  by (auto simp: log_ok_def sorted_wrt_drop drop_map [symmetric] simp del: length_drop dest: in_set_dropD)

lemma read_notices_ok:
  assumes "ctrlr_ok c"
    and c'_def: "c' = snd (get_reservation_notification_log_page iovs offset len rae mem c)"
  shows "ctrlr_ok c'" and "known_requests c' = known_requests c" and "log_page_count c' = log_page_count c"
proof -
  obtain n where n: "fst (log_page_loop (log_head c) 0 offset len (spdk_iov_xfer_init iovs, mem)) = drop n (log_head c)"
    using log_page_loop_suffix by blast
  define c1 where "c1 = c\<lparr>log_head := drop n (log_head c),
      num_avail_log_pages := num_avail_log_pages c - of_nat (length (log_head c) - length (drop n (log_head c)))\<rparr>"
  have "ctrlr_ok c1" using assms log_ok_suffix [of c n]
    by (simp add: c1_def ctrlr_ok_def aer_ok_def changed_ok_def)
  moreover have "known_requests c1 = known_requests c" "log_page_count c1 = log_page_count c"
    by (simp_all add: c1_def known_requests_def)
  moreover have "c' = c \<or> c' = c1 \<or> c' = unmask_aen RESERVATION_LOG_AVAIL_MASK_BIT c1"
    using n by (auto simp: c'_def get_reservation_notification_log_page_def Let_def c1_def split: prod.splits)
  ultimately show "ctrlr_ok c'" "known_requests c' = known_requests c" "log_page_count c' = log_page_count c"
    using assms(1) keeps_ok [OF keeps_unmask [of c1]] keeps_unmask [of c1] by (auto simp: keeps_def)
qed

lemma read_changed_ok:
  assumes "ctrlr_ok c"
    and c'_def: "c' = snd (get_changed_ns_list_log_page iovs offset len rae mem c)"
  shows "ctrlr_ok c'" and "known_requests c' = known_requests c" and "log_page_count c' = log_page_count c"
proof -
  define c1 where "c1 = c\<lparr>changed_ns_list_count := 0, changed_ns_list := replicate NS_LIST_SIZE 0\<rparr>"
  have "ctrlr_ok c1" using assms by (simp add: c1_def ctrlr_ok_def aer_ok_def log_ok_def changed_ok_def)
  moreover have "known_requests c1 = known_requests c" "log_page_count c1 = log_page_count c"
    by (simp_all add: c1_def known_requests_def)
  moreover have "c' = c1 \<or> c' = unmask_aen NS_ATTR_CHANGE_MASK_BIT c1"
    by (simp add: c'_def get_changed_ns_list_log_page_def Let_def c1_def)
  ultimately show "ctrlr_ok c'" "known_requests c' = known_requests c" "log_page_count c' = log_page_count c"
    using keeps_ok [OF keeps_unmask [of c1]] keeps_unmask [of c1] by (auto simp: keeps_def)
qed

text \<open>Adding a notice: a new entry, or a newer count on the last one when 255 are queued.\<close>

lemma add_reservation_log_ok:
  assumes "ctrlr_ok c" and "unat (log_page_count c) + 1 < 2 ^ 64"
  obtains c' where "add_reservation_log oom t n c = Some c'" "ctrlr_ok c'" "known_requests c' = known_requests c"
    "log_page_count c' = log_page_count c + 1"
proof (cases "num_avail_log_pages c = 255")
  case True
  let ?k = "log_page_count c + 1"
  have ne: "log_head c \<noteq> []" using assms(1) True by (auto simp: ctrlr_ok_def log_ok_def)
  then obtain ls l where ls: "log_head c = ls @ [l]" by (metis rev_exhaust)
  define c' where "c' = c\<lparr>log_page_count := ?k, log_head := ls @ [l\<lparr>log_count := ?k\<rparr>]\<rparr>"
  have lt: "\<And>x. x \<in> set (log_head c) \<Longrightarrow> log_count x < ?k"
    using assms word_lt_inc by (auto simp: ctrlr_ok_def log_ok_def)
  have "log_ok c'" using assms(1) lt ls
    by (auto simp: c'_def ctrlr_ok_def log_ok_def sorted_wrt_append less_imp_le)
  then have "ctrlr_ok c'" using assms(1) by (simp add: c'_def ctrlr_ok_def aer_ok_def changed_ok_def)
  moreover have "add_reservation_log oom t n c = Some c'"
    using True ls by (simp add: add_reservation_log_def Let_def c'_def)
  ultimately show ?thesis using that by (simp add: c'_def known_requests_def)
next
  case False
  let ?k = "log_page_count c + 1"
  let ?l = "\<lparr>log_count = ?k, log_avail = num_avail_log_pages c, log_type = t, log_nsid = n\<rparr>"
  define c1 where "c1 = c\<lparr>log_page_count := ?k, num_avail_log_pages := num_avail_log_pages c + 1, log_head := log_head c @ [?l]\<rparr>"
  have lt: "\<And>x. x \<in> set (log_head c) \<Longrightarrow> log_count x < ?k"
    using assms word_lt_inc by (auto simp: ctrlr_ok_def log_ok_def)
  have "unat (num_avail_log_pages c) \<noteq> 255" using False by (auto simp: word_unat_eq_iff)
  then have "unat (num_avail_log_pages c + 1) = Suc (unat (num_avail_log_pages c))"
    using unsigned_less [where ?'a = nat, of "num_avail_log_pages c"] by (intro unat_inc) simp
  then have "log_ok c1" using assms(1) lt
    by (auto simp: c1_def ctrlr_ok_def log_ok_def sorted_wrt_append less_imp_le)
  then have "ctrlr_ok c1" using assms(1) by (simp add: c1_def ctrlr_ok_def aer_ok_def changed_ok_def)
  moreover have "keeps c1 (async_event_reservation_notification oom c1)" by (rule keeps_events)
  moreover have "add_reservation_log oom t n c = Some (async_event_reservation_notification oom c1)"
    using False by (simp add: add_reservation_log_def Let_def c1_def)
  moreover have "known_requests c1 = known_requests c" "log_page_count c1 = ?k"
    by (simp_all add: c1_def known_requests_def)
  ultimately show ?thesis using that keeps_ok by (metis keeps_def)
qed


lemma keeps_step:
  assumes "aer_step op (mem, c) = Some (mem, c')" and "keeps c c'" and "ctrlr_ok c" and "requested op = []"
  shows "\<exists>mem' c'. aer_step op (mem, c) = Some (mem', c') \<and> ctrlr_ok c' \<and>
           unat (log_page_count c') \<le> unat (log_page_count c) + 1 \<and>
           known_requests c' \<subseteq># known_requests c + mset (requested op) \<and>
           ((\<forall>admin. op \<noteq> Disconnect admin) \<longrightarrow> known_requests c' = known_requests c + mset (requested op))"
  using assms keeps_ok by (simp add: keeps_def)

lemma aer_step_ok:
  assumes "ctrlr_ok c" and "unat (log_page_count c) + 1 < 2 ^ 64"
  shows "\<exists>mem' c'. aer_step op (mem, c) = Some (mem', c') \<and> ctrlr_ok c' \<and>
           unat (log_page_count c') \<le> unat (log_page_count c) + 1 \<and>
           known_requests c' \<subseteq># known_requests c + mset (requested op) \<and>
           ((\<forall>admin. op \<noteq> Disconnect admin) \<longrightarrow> known_requests c' = known_requests c + mset (requested op))"
proof (cases op)
  case (Reservation_Notice log_oom oom m n t)
  obtain c' where c': "add_reservation_log oom t n c = Some c'" "ctrlr_ok c'" "known_requests c' = known_requests c"
    "log_page_count c' = log_page_count c + 1" using add_reservation_log_ok assms by blast
  have "unat (log_page_count c + 1) = unat (log_page_count c) + 1" using unat_inc [of "log_page_count c"] assms(2) by simp
  with c' assms(1) show ?thesis by (simp add: Reservation_Notice reservation_notice_log_def)
next
  case (Disconnect admin)
  then show ?thesis using assms(1)
    by (auto simp: qpair_free_aer_def ctrlr_ok_def aer_ok_def log_ok_def changed_ok_def known_requests_def)
next
  case (Read_Notices iovs offset len rae)
  obtain mem' c' where "get_reservation_notification_log_page iovs offset len rae mem c = (mem', c')" by fastforce
  then show ?thesis using read_notices_ok [OF assms(1), of c' iovs offset len rae mem] by (simp add: Read_Notices)
next
  case (Read_Changed iovs offset len rae)
  obtain mem' c' where "get_changed_ns_list_log_page iovs offset len rae mem c = (mem', c')" by fastforce
  then show ?thesis using read_changed_ok [OF assms(1), of c' iovs offset len rae mem] by (simp add: Read_Changed)
next
  case (Request r)
  then show ?thesis using request_ok [OF assms(1)] by simp
next
  case (Ns_Changed n)
  then show ?thesis using ns_changed_ok assms(1) by simp
qed (rule keeps_step [OF _ _ assms(1)], simp, simp add: keeps_events keeps_abort keeps_error, simp)+

text \<open>
  C25. Whatever a host and the target do with a controller, in any order, every operation is
  defined; at most four requests are parked and never while an event is pending; the notice log
  has as many entries as its counter says, in increasing order of their numbers; and each
  request is answered at most once, being either answered or parked unless the admin queue was
  disconnected.
\<close>

theorem aer_history:
  assumes "ctrlr_ok c" and "unat (log_page_count c) + length ops < 2 ^ 64"
  shows "\<exists>mem' c'. foldM aer_step ops (mem, c) = Some (mem', c') \<and> ctrlr_ok c' \<and>
           known_requests c' \<subseteq># known_requests c + mset (concat (map requested ops)) \<and>
           ((\<forall>admin. Disconnect admin \<notin> set ops) \<longrightarrow>
              known_requests c' = known_requests c + mset (concat (map requested ops)))"
  using assms
proof (induction ops arbitrary: mem c)
  case Nil
  then show ?case by simp
next
  case (Cons op ops)
  obtain mem1 c1 where s1: "aer_step op (mem, c) = Some (mem1, c1)" "ctrlr_ok c1"
    "unat (log_page_count c1) \<le> unat (log_page_count c) + 1"
    and r1: "known_requests c1 \<subseteq># known_requests c + mset (requested op)"
      "(\<forall>admin. op \<noteq> Disconnect admin) \<longrightarrow> known_requests c1 = known_requests c + mset (requested op)"
    using aer_step_ok [of c op mem] Cons.prems by fastforce
  moreover obtain mem2 c2 where s2: "foldM aer_step ops (mem1, c1) = Some (mem2, c2)" "ctrlr_ok c2"
    and r2: "known_requests c2 \<subseteq># known_requests c1 + mset (concat (map requested ops))"
      "(\<forall>admin. Disconnect admin \<notin> set ops) \<longrightarrow> known_requests c2 = known_requests c1 + mset (concat (map requested ops))"
    using Cons.IH [of c1 mem1] s1 Cons.prems(2) by fastforce
  moreover have "known_requests c2 \<subseteq># known_requests c + mset (concat (map requested (op # ops)))"
    using subset_mset.order_trans [OF r2(1) mset_subset_eq_mono_add [OF r1(1) subset_mset.order_refl]] by (simp add: ac_simps)
  moreover have "(\<forall>admin. Disconnect admin \<notin> set (op # ops)) \<longrightarrow>
      known_requests c2 = known_requests c + mset (concat (map requested (op # ops)))"
    using r1(2) r2(2) by auto
  ultimately show ?case by auto
qed

definition fresh_ctrlr :: spdk_nvmf_ctrlr where
  "fresh_ctrlr = \<lparr>cntlid = 1, ctrlr_hostid = 7, async_event_configuration = 0x100, aer_req = [], async_events = [],
     notice_aen_mask = 0, changed_ns_list = replicate NS_LIST_SIZE 0, changed_ns_list_count = 0,
     log_page_count = 0, num_avail_log_pages = 0, log_head = [], completions = []\<rparr>"

lemma fresh_ctrlr_ok: "ctrlr_ok fresh_ctrlr"
  by (simp add: ctrlr_ok_def fresh_ctrlr_def aer_ok_def log_ok_def changed_ok_def)

theorem aer_history_witness:
  "\<exists>mem' c'. foldM aer_step [Request 10, Ns_Notice False, Request 11, Abort] (\<lambda>_. 0, fresh_ctrlr) = Some (mem', c') \<and>
     known_requests c' = {#10, 11#}"
  using aer_history [of fresh_ctrlr "[Request 10, Ns_Notice False, Request 11, Abort]" "\<lambda>_. 0", OF fresh_ctrlr_ok]
  by (fastforce simp: known_requests_def fresh_ctrlr_def)


section \<open>Reading the notice log\<close>

lemma length_le_bytes [simp]: "length (le_bytes n w) = n"
  by (simp add: le_bytes_def)

lemma length_log_bytes [simp]: "length (log_bytes l) = 64"
  by (simp add: log_bytes_def)

lemma length_logs [simp]: "length (concat (map log_bytes logs)) = 64 * length logs"
  by (induction logs) simp_all

lemma drop_logs: "drop (64 * n) (concat (map log_bytes logs)) = concat (map log_bytes (drop n logs))"
proof (induction logs arbitrary: n)
  case Nil
  then show ?case by simp
next
  case (Cons l logs)
  then show ?case by (cases n) simp_all
qed

lemma log_page_loop_Cons:
  "q < p + 64 \<Longrightarrow> log_page_loop (l # ls) p q len out =
     (if len \<le> p + 64 - q then (ls, xfer_put out (take len (log_bytes l)))
      else log_page_loop ls (p + 64) (p + 64) (len - (p + 64 - q)) (xfer_put out (take (p + 64 - q) (log_bytes l))))"
  "p + 64 \<le> q \<Longrightarrow> 0 < len \<Longrightarrow> log_page_loop (l # ls) p q len out = log_page_loop ls (p + 64) q len out"
  by (simp_all only: log_page_loop.simps Let_def) (auto simp: min_def)

declare log_page_loop.simps(2) [simp del]

lemma log_page_loop_copy:
  "0 < len \<Longrightarrow> \<exists>bss. log_page_loop logs p p len out = (drop ((len + 63) div 64) logs, foldl xfer_put out bss) \<and>
     concat bss = take len (concat (map log_bytes logs))"
proof (induction logs arbitrary: p len out)
  case Nil
  then show ?case by (intro exI [of _ "[]"]) simp
next
  case (Cons l logs)
  show ?case
  proof (cases "len \<le> 64")
    case True
    then have "(len + 63) div 64 = 1" using Cons.prems by (intro div_nat_eqI) simp_all
    then show ?thesis using True Cons.prems by (intro exI [of _ "[take len (log_bytes l)]"]) (simp add: log_page_loop_Cons)
  next
    case False
    let ?out = "xfer_put out (log_bytes l)"
    obtain len' where len': "len = 64 + len'" "0 < len'" using False by (metis add_diff_inverse_nat less_imp_le not_le zero_less_diff)
    obtain bss where bss: "log_page_loop logs (p + 64) (p + 64) len' ?out = (drop ((len' + 63) div 64) logs, foldl xfer_put ?out bss)"
      "concat bss = take len' (concat (map log_bytes logs))" using Cons.IH [OF len'(2)] by blast
    have "(len + 63) div 64 = Suc ((len' + 63) div 64)" using len' by simp
    then show ?thesis using bss len' by (intro exI [of _ "log_bytes l # bss"]) (simp add: log_page_loop_Cons)
  qed
qed

lemma log_page_loop_skip:
  assumes "0 < len"
  shows "n \<le> length logs \<Longrightarrow> log_page_loop logs p (p + 64 * n) len out = log_page_loop (drop n logs) (p + 64 * n) (p + 64 * n) len out"
proof (induction n arbitrary: logs p)
  case 0
  then show ?case by simp
next
  case (Suc n)
  then obtain l ls where ls: "logs = l # ls" by (cases logs) auto
  have "p + 64 * Suc n = p + 64 + 64 * n" by simp
  then show ?case using Suc.IH [of ls "p + 64"] Suc.prems assms ls by (simp add: log_page_loop_Cons add.assoc)
qed

text \<open>
  C26. Reading the notice log at an offset that is a multiple of the entry size, into a buffer
  with room for the requested length, delivers the bytes of the log from that offset on; the
  entries before the offset and every entry delivered, also in part, leave the log, and unless
  the host asked to retain the event its notifications are enabled again.
\<close>

theorem read_notices_delivers:
  assumes "ctrlr_ok c" and "distinct (addrs iovs)" and "0 < len" and "len \<le> vec_size iovs"
    and "n < length (log_head c)"
    and "get_reservation_notification_log_page iovs (64 * n) len rae mem c = (mem', c')"
  defines "bytes \<equiv> take len (drop (64 * n) (concat (map log_bytes (log_head c))))"
  shows "take (length bytes) (gather mem' iovs) = bytes \<and>
         log_head c' = drop (n + (len + 63) div 64) (log_head c) \<and>
         (\<not> rae \<longrightarrow> \<not> bit (notice_aen_mask c') RESERVATION_LOG_AVAIL_MASK_BIT) \<and>
         (\<forall>a. a \<notin> set (addrs iovs) \<longrightarrow> mem' a = mem a)"
proof (intro conjI)
  let ?out = "(spdk_iov_xfer_init iovs, mem)"
  have avail: "unat (num_avail_log_pages c) = length (log_head c)" using assms(1) by (simp add: ctrlr_ok_def log_ok_def)
  then have ne: "num_avail_log_pages c \<noteq> 0" using assms(5) by auto
  obtain bss where loop: "log_page_loop (log_head c) 0 (64 * n) len ?out =
      (drop ((len + 63) div 64) (drop n (log_head c)), foldl xfer_put ?out bss)"
    and bss: "concat bss = take len (concat (map log_bytes (drop n (log_head c))))"
    using log_page_loop_skip [OF assms(3), of n "log_head c" 0 ?out] assms(5)
      log_page_loop_copy [OF assms(3), of "drop n (log_head c)" "64 * n" ?out] by auto
  have bytes: "concat bss = bytes" by (simp add: bss bytes_def drop_logs)
  have mem': "mem' = snd (foldl xfer_put ?out bss)"
    and head: "log_head c' = drop ((len + 63) div 64) (drop n (log_head c))"
    and unmask: "\<not> rae \<Longrightarrow> notice_aen_mask c' = notice_aen_mask c AND NOT (push_bit RESERVATION_LOG_AVAIL_MASK_BIT 1)"
    using assms(6) ne avail assms(5) loop
    by (auto simp: get_reservation_notification_log_page_def unmask_aen_def Let_def)
  have "length (concat bss) \<le> vec_size iovs" using assms(4) bss by simp
  from xfer_written [OF assms(2) this, of mem] show "take (length bytes) (gather mem' iovs) = bytes"
    by (simp add: mem' bytes)
  show "log_head c' = drop (n + (len + 63) div 64) (log_head c)" by (simp add: head add.commute)
  show "\<not> rae \<longrightarrow> \<not> bit (notice_aen_mask c') RESERVATION_LOG_AVAIL_MASK_BIT"
    using unmask by (auto simp: bit_simps simp del: push_bit_numeral)
  show "\<forall>a. a \<notin> set (addrs iovs) \<longrightarrow> mem' a = mem a"
    using xfer_put_all_frame [of ?out _ bss] assms(2) by (simp add: mem' spdk_iov_xfer_init_def xfer_good_def ix_ok_def)
qed


text \<open>A controller with two queued notices, for the examples.\<close>

definition noticed_ctrlr :: spdk_nvmf_ctrlr where
  "noticed_ctrlr = fresh_ctrlr\<lparr>log_page_count := 2, num_avail_log_pages := 2, notice_aen_mask := 8,
     log_head := [\<lparr>log_count = 1, log_avail = 0, log_type = RESERVATION_RELEASED, log_nsid = 1\<rparr>,
                  \<lparr>log_count = 2, log_avail = 1, log_type = RESERVATION_PREEMPTED, log_nsid = 1\<rparr>]\<rparr>"

lemma noticed_ctrlr_ok: "ctrlr_ok noticed_ctrlr"
  using fresh_ctrlr_ok by (simp add: noticed_ctrlr_def ctrlr_ok_def aer_ok_def log_ok_def changed_ok_def)

theorem read_notices_delivers_witness:
  "log_head (snd (get_reservation_notification_log_page [\<lparr>seg_base = 0, seg_len = 64\<rparr>] 64 64 False (\<lambda>_. 0) noticed_ctrlr)) = []"
proof -
  have "log_head c' = []" if "get_reservation_notification_log_page [\<lparr>seg_base = 0, seg_len = 64\<rparr>] (64 * 1) 64 False (\<lambda>_. 0) noticed_ctrlr = (mem', c')"
    for mem' c'
    using read_notices_delivers [OF noticed_ctrlr_ok _ _ _ _ that]
    by (simp add: seg_addrs_def vec_size_def noticed_ctrlr_def)
  then show ?thesis by (cases "get_reservation_notification_log_page [\<lparr>seg_base = 0, seg_len = 64\<rparr>] 64 64 False (\<lambda>_. 0) noticed_ctrlr") simp
qed

text \<open>
  C28. At an offset inside the first entry the code delivers the beginning of that entry, not the
  bytes at the offset: the host receives the first bytes of the log page although it asked for a
  later part.
\<close>

theorem unaligned_notice_offset:
  assumes "log_head c = l # ls" and "ctrlr_ok c" and "distinct (addrs iovs)" and "0 < offset" and "offset < 64"
    and "0 < len" and "len \<le> 64 - offset" and "len \<le> vec_size iovs"
    and "get_reservation_notification_log_page iovs offset len rae mem c = (mem', c')"
  shows "take len (gather mem' iovs) = take len (log_bytes l)"
proof -
  let ?out = "(spdk_iov_xfer_init iovs, mem)"
  have avail: "unat (num_avail_log_pages c) = Suc (length ls)" using assms(1,2) by (simp add: ctrlr_ok_def log_ok_def)
  then have "num_avail_log_pages c \<noteq> 0" by auto
  moreover have "log_page_loop (log_head c) 0 offset len ?out = (ls, xfer_put ?out (take len (log_bytes l)))"
    using assms by (simp add: log_page_loop_Cons)
  ultimately have mem': "mem' = snd (foldl xfer_put ?out [take len (log_bytes l)])"
    using assms(5,9) avail by (auto simp: get_reservation_notification_log_page_def Let_def)
  show ?thesis using xfer_written [OF assms(3), of "[take len (log_bytes l)]" mem] assms(5,7,8) by (simp add: mem')
qed

theorem unaligned_notice_offset_witness:
  "take 4 (gather (fst (get_reservation_notification_log_page [\<lparr>seg_base = 0, seg_len = 4\<rparr>] 8 4 True (\<lambda>_. 0) noticed_ctrlr)) [\<lparr>seg_base = 0, seg_len = 4\<rparr>])
     = [1, 0, 0, 0] \<and> take 4 (drop 8 (log_bytes (hd (log_head noticed_ctrlr)))) = [2, 0, 0, 0]"
proof -
  obtain mem' c' where run: "get_reservation_notification_log_page [\<lparr>seg_base = 0, seg_len = 4\<rparr>] 8 4 True (\<lambda>_. 0) noticed_ctrlr = (mem', c')"
    by fastforce
  have "take 4 (gather mem' [\<lparr>seg_base = 0, seg_len = 4\<rparr>]) = take 4 (log_bytes (hd (log_head noticed_ctrlr)))"
    using unaligned_notice_offset [OF _ noticed_ctrlr_ok _ _ _ _ _ _ run]
    by (simp add: seg_addrs_def vec_size_def noticed_ctrlr_def upt_rec)
  then show ?thesis unfolding run fst_conv by (simp add: noticed_ctrlr_def log_bytes_def le_bytes_def notice_code_def upt_rec)
qed

section \<open>The changed namespace list\<close>

text \<open>The distinct numbers of a history, in the order of their first report.\<close>

definition first_seen :: "u32 list \<Rightarrow> u32 list" where
  "first_seen ns = rev (remdups (rev ns))"

definition ns_page :: "u32 list \<Rightarrow> u32 list" where
  "ns_page ns = (let s = first_seen ns
     in if length s \<le> NS_LIST_SIZE then s @ replicate (NS_LIST_SIZE - length s) 0
        else 0xFFFFFFFF # replicate (NS_LIST_SIZE - 1) 0)"


lemma first_seen_snoc: "first_seen (ns @ [n]) = (if n \<in> set ns then first_seen ns else first_seen ns @ [n])"
  by (simp add: first_seen_def)

lemma set_first_seen [simp]: "set (first_seen ns) = set ns"
  by (simp add: first_seen_def)

definition empty_ns_list :: "spdk_nvmf_ctrlr \<Rightarrow> bool" where
  "empty_ns_list c \<longleftrightarrow> changed_ns_list c = replicate NS_LIST_SIZE 0 \<and> changed_ns_list_count c = 0"

lemma ns_changed_step:
  assumes list: "changed_ns_list c = ns_page ns"
    and count: "changed_ns_list_count c = min (length (first_seen ns)) NS_LIST_SIZE"
  shows "changed_ns_list (nvmf_ctrlr_ns_changed n c) = ns_page (ns @ [n]) \<and>
         changed_ns_list_count (nvmf_ctrlr_ns_changed n c) = min (length (first_seen (ns @ [n]))) NS_LIST_SIZE"
proof -
  let ?s = "first_seen ns"
  consider (seen) "n \<in> set ns" | (room) "n \<notin> set ns" "length ?s < NS_LIST_SIZE"
    | (full) "n \<notin> set ns" "length ?s = NS_LIST_SIZE" | (over) "n \<notin> set ns" "NS_LIST_SIZE < length ?s" by linarith
  then show ?thesis
  proof cases
    case seen
    show ?thesis
    proof (cases "length ?s \<le> NS_LIST_SIZE")
      case True
      then show ?thesis using seen list count
        by (simp add: first_seen_snoc ns_page_def Let_def nvmf_ctrlr_ns_changed_def)
    next
      case False
      then show ?thesis using seen list count
        by (simp add: first_seen_snoc ns_page_def Let_def nvmf_ctrlr_ns_changed_def)
    qed
  next
    case room
    have "(?s @ replicate (NS_LIST_SIZE - length ?s) 0)[length ?s := n] = (?s @ [n]) @ replicate (NS_LIST_SIZE - length (?s @ [n])) 0"
      using room by (cases "NS_LIST_SIZE - length ?s") (simp_all add: list_update_append)
    then show ?thesis using room list count
      by (simp add: first_seen_snoc ns_page_def Let_def nvmf_ctrlr_ns_changed_def)
  next
    case full
    then show ?thesis using list count
      by (simp add: first_seen_snoc ns_page_def Let_def nvmf_ctrlr_ns_changed_def)
  next
    case over
    then show ?thesis using list count
      by (simp add: first_seen_snoc ns_page_def Let_def nvmf_ctrlr_ns_changed_def)
  qed
qed

lemma ns_changed_history:
  assumes "empty_ns_list c"
  shows "changed_ns_list (fold nvmf_ctrlr_ns_changed ns c) = ns_page ns \<and>
         changed_ns_list_count (fold nvmf_ctrlr_ns_changed ns c) = min (length (first_seen ns)) NS_LIST_SIZE"
proof (induction ns rule: rev_induct)
  case Nil
  then show ?case using assms by (simp add: empty_ns_list_def ns_page_def first_seen_def Let_def)
next
  case (snoc n ns)
  then show ?case using ns_changed_step by simp
qed

lemma length_ns_page: "length (ns_page ns) = NS_LIST_SIZE"
  by (simp add: ns_page_def Let_def)

lemma length_ns_list_bytes [simp]: "length (ns_list_bytes xs) = 4 * length xs"
  by (induction xs) (simp_all add: ns_list_bytes_def)

text \<open>
  C27. After any sequence of namespace changes since the list was last empty, reading the whole
  changed namespace list delivers each changed namespace once, in the order of its first change
  and padded with zeroes, or the single number 0xFFFFFFFF when more than 1024 have changed, and
  empties the list.
\<close>

theorem read_changed_list:
  assumes "empty_ns_list c" and "distinct (addrs iovs)" and "4 * NS_LIST_SIZE \<le> len" and "4 * NS_LIST_SIZE \<le> vec_size iovs"
    and "get_changed_ns_list_log_page iovs 0 len rae mem (fold nvmf_ctrlr_ns_changed ns c) = (mem', c')"
  shows "take (4 * NS_LIST_SIZE) (gather mem' iovs) = ns_list_bytes (ns_page ns) \<and> empty_ns_list c'"
proof -
  let ?out = "(spdk_iov_xfer_init iovs, mem)" and ?b = "ns_list_bytes (ns_page ns)"
  have len: "length ?b = 4 * NS_LIST_SIZE" by (simp add: length_ns_page)
  have ne: "?b \<noteq> []" using len by (metis length_0_conv mult_is_0 zero_neq_numeral)
  have "take (min len (length ?b - 0)) (drop 0 ?b) = ?b" using assms(3) len by simp
  then have mem': "mem' = snd (foldl xfer_put ?out [?b])"
    and c': "changed_ns_list c' = replicate NS_LIST_SIZE 0" "changed_ns_list_count c' = 0"
    using assms(5) ns_changed_history [OF assms(1), of ns] len ne
    by (auto simp: get_changed_ns_list_log_page_def unmask_aen_def Let_def)
  show ?thesis using xfer_written [OF assms(2), of "[?b]" mem] assms(4) len c' by (simp add: mem' empty_ns_list_def)
qed

theorem read_changed_list_witness:
  "empty_ns_list (snd (get_changed_ns_list_log_page [\<lparr>seg_base = 0, seg_len = 4096\<rparr>] 0 4096 False (\<lambda>_. 0)
     (fold nvmf_ctrlr_ns_changed [3, 1, 3] fresh_ctrlr)))"
proof -
  have start: "empty_ns_list fresh_ctrlr" by (simp add: empty_ns_list_def fresh_ctrlr_def)
  obtain mem' c' where run: "get_changed_ns_list_log_page [\<lparr>seg_base = 0, seg_len = 4096\<rparr>] 0 4096 False (\<lambda>_. 0)
      (fold nvmf_ctrlr_ns_changed [3, 1, 3] fresh_ctrlr) = (mem', c')" by fastforce
  show ?thesis unfolding run snd_conv
    using read_changed_list [OF start _ _ _ run] by (simp add: seg_addrs_def vec_size_def)
qed

end
