(* ===== verification/Nvmf_Reservation.thy ===== *)
theory Nvmf_Reservation
  imports Nvmf_Aer
begin

text \<open>
  Persistent reservations of the NVMe-oF target (\<open>lib/nvmf/subsystem.c\<close>): the registrants of a
  namespace, the four reservation commands, the notices sent to other hosts and the record that
  survives a power loss.

  A registrant is an allocated structure: \<open>ptr\<close> is its address and \<open>holder\<close> such an address.
  Host identifiers are 16-byte UUIDs that are only copied and compared; they are natural numbers,
  0 the all-zero UUID. \<open>None\<close> is a failed assertion, a write outside an array or the use of a
  dangling pointer. Messages to the controllers' threads are delivered at once. Allocation
  failures are the parameters \<open>oom\<close>, for a registrant, and \<open>noms\<close>, for the entries of each
  controller's notice log and events.
\<close>

section \<open>Constants\<close>

abbreviation SC_SUCCESS :: nat where "SC_SUCCESS \<equiv> 0"
abbreviation SC_INVALID_FIELD :: nat where "SC_INVALID_FIELD \<equiv> 2"
abbreviation SC_INTERNAL_DEVICE_ERROR :: nat where "SC_INTERNAL_DEVICE_ERROR \<equiv> 6"
abbreviation SC_HOSTID_INCONSISTENT_FORMAT :: nat where "SC_HOSTID_INCONSISTENT_FORMAT \<equiv> 24"
abbreviation SC_RESERVATION_CONFLICT :: nat where "SC_RESERVATION_CONFLICT \<equiv> 131"

abbreviation WRITE_EXCLUSIVE :: nat where "WRITE_EXCLUSIVE \<equiv> 1"
abbreviation EXCLUSIVE_ACCESS :: nat where "EXCLUSIVE_ACCESS \<equiv> 2"
abbreviation WRITE_EXCLUSIVE_REG_ONLY :: nat where "WRITE_EXCLUSIVE_REG_ONLY \<equiv> 3"
abbreviation EXCLUSIVE_ACCESS_REG_ONLY :: nat where "EXCLUSIVE_ACCESS_REG_ONLY \<equiv> 4"
abbreviation WRITE_EXCLUSIVE_ALL_REGS :: nat where "WRITE_EXCLUSIVE_ALL_REGS \<equiv> 5"
abbreviation EXCLUSIVE_ACCESS_ALL_REGS :: nat where "EXCLUSIVE_ACCESS_ALL_REGS \<equiv> 6"

abbreviation OPC_RESERVATION_REGISTER :: nat where "OPC_RESERVATION_REGISTER \<equiv> 13"
abbreviation OPC_RESERVATION_REPORT :: nat where "OPC_RESERVATION_REPORT \<equiv> 14"
abbreviation OPC_RESERVATION_ACQUIRE :: nat where "OPC_RESERVATION_ACQUIRE \<equiv> 17"
abbreviation OPC_RESERVATION_RELEASE :: nat where "OPC_RESERVATION_RELEASE \<equiv> 21"

abbreviation MAX_NUM_REGISTRANTS :: nat where "MAX_NUM_REGISTRANTS \<equiv> 16"

section \<open>State\<close>

record spdk_nvmf_registrant =
  ptr :: nat
  hostid :: uuid
  rkey :: u64

record spdk_nvmf_ns =
  nsid :: u32
  ns_mask :: u32
  gen :: u32
  registrants :: "spdk_nvmf_registrant list"
  crkey :: u64
  rtype :: nat
  holder :: "nat option"
  ptpl_file :: bool
  ptpl_activated :: bool
  bdev :: "uuid option"
  next_ptr :: nat

text \<open>
  The fields of a reservation command. \<open>keys\<close> is the key data when a buffer long enough is
  attached: the current key with the new or preempted one.
\<close>

record resv_cmd =
  opc :: nat
  action :: nat
  iekey :: bool
  cptpl :: nat
  cmd_rtype :: nat
  cdw10 :: u32
  eds :: bool
  keys :: "(u64 \<times> u64) option"

type_synonym log_failures = "resv_notice \<Rightarrow> nat \<Rightarrow> bool \<times> bool"

section \<open>Registrants\<close>

primrec find_reg :: "(spdk_nvmf_registrant \<Rightarrow> bool) \<Rightarrow> spdk_nvmf_registrant list \<Rightarrow> spdk_nvmf_registrant option" where
  "find_reg P [] = None"
| "find_reg P (r # rs) = (if P r then Some r else find_reg P rs)"

definition get_registrant :: "spdk_nvmf_ns \<Rightarrow> uuid \<Rightarrow> spdk_nvmf_registrant option" where
  "get_registrant ns u = find_reg (\<lambda>r. hostid r = u) (registrants ns)"

definition get_all_other_hostid :: "spdk_nvmf_ns \<Rightarrow> uuid \<Rightarrow> uuid list option" where
  "get_all_other_hostid ns current =
     (let hs = filter (\<lambda>h. h \<noteq> current) (map hostid (registrants ns))
      in if length hs \<le> MAX_NUM_REGISTRANTS then Some hs else None)"

definition get_unregistered_hostid :: "uuid list \<Rightarrow> uuid list \<Rightarrow> uuid list" where
  "get_unregistered_hostid old remaining =
     (if remaining = [] then old else filter (\<lambda>h. h \<notin> set remaining) old)"

definition all_registrants_type :: "spdk_nvmf_ns \<Rightarrow> bool" where
  "all_registrants_type ns \<longleftrightarrow> rtype ns = WRITE_EXCLUSIVE_ALL_REGS \<or> rtype ns = EXCLUSIVE_ACCESS_ALL_REGS"

definition registrant_is_holder :: "spdk_nvmf_ns \<Rightarrow> spdk_nvmf_registrant \<Rightarrow> bool" where
  "registrant_is_holder ns r \<longleftrightarrow> all_registrants_type ns \<or> holder ns = Some (ptr r)"

definition add_registrant :: "bool \<Rightarrow> spdk_nvmf_ns \<Rightarrow> uuid \<Rightarrow> u64 \<Rightarrow> spdk_nvmf_ns option" where
  "add_registrant oom ns host nrkey =
     (if oom then None
      else Some (ns\<lparr>registrants := registrants ns @ [\<lparr>ptr = next_ptr ns, hostid = host, rkey = nrkey\<rparr>],
                    next_ptr := next_ptr ns + 1, gen := gen ns + 1\<rparr>))"

definition release_reservation :: "spdk_nvmf_ns \<Rightarrow> spdk_nvmf_ns" where
  "release_reservation ns = ns\<lparr>rtype := 0, crkey := 0, holder := None\<rparr>"

definition check_release_on_remove_registrant :: "spdk_nvmf_ns \<Rightarrow> spdk_nvmf_registrant \<Rightarrow> spdk_nvmf_ns option" where
  "check_release_on_remove_registrant ns r =
     (if holder ns = None then (if rtype ns = 0 then Some ns else None)
      else if registrants ns \<noteq> [] \<and> all_registrants_type ns
           then Some (ns\<lparr>holder := Some (ptr (hd (registrants ns)))\<rparr>)
      else if registrant_is_holder ns r then Some (release_reservation ns)
      else Some ns)"

definition remove_registrant :: "spdk_nvmf_ns \<Rightarrow> spdk_nvmf_registrant \<Rightarrow> spdk_nvmf_ns option" where
  "remove_registrant ns r = do {
     ns \<leftarrow> check_release_on_remove_registrant
            (ns\<lparr>registrants := filter (\<lambda>x. ptr x \<noteq> ptr r) (registrants ns)\<rparr>) r;
     Some (ns\<lparr>gen := gen ns + 1\<rparr>)
   }"

text \<open>The three removal loops, with the number of registrants removed.\<close>

primrec remove_each :: "(spdk_nvmf_registrant \<Rightarrow> bool) \<Rightarrow> spdk_nvmf_registrant list \<Rightarrow> spdk_nvmf_ns \<Rightarrow> (nat \<times> spdk_nvmf_ns) option" where
  "remove_each P [] ns = Some (0, ns)"
| "remove_each P (r # rs) ns =
     (if P r then do {
        ns \<leftarrow> remove_registrant ns r;
        (count, ns) \<leftarrow> remove_each P rs ns;
        Some (count + 1, ns)
      } else remove_each P rs ns)"

definition remove_registrants_by_key :: "spdk_nvmf_ns \<Rightarrow> u64 \<Rightarrow> (nat \<times> spdk_nvmf_ns) option" where
  "remove_registrants_by_key ns k = remove_each (\<lambda>r. rkey r = k) (registrants ns) ns"

definition remove_all_other_registrants :: "spdk_nvmf_ns \<Rightarrow> spdk_nvmf_registrant \<Rightarrow> (nat \<times> spdk_nvmf_ns) option" where
  "remove_all_other_registrants ns reg = remove_each (\<lambda>r. ptr r \<noteq> ptr reg) (registrants ns) ns"

definition clear_all_registrants :: "spdk_nvmf_ns \<Rightarrow> (nat \<times> spdk_nvmf_ns) option" where
  "clear_all_registrants ns = remove_each (\<lambda>_. True) (registrants ns) ns"

definition acquire_reservation :: "spdk_nvmf_ns \<Rightarrow> u64 \<Rightarrow> nat \<Rightarrow> spdk_nvmf_registrant \<Rightarrow> spdk_nvmf_ns option" where
  "acquire_reservation ns k t reg =
     (if holder ns = None then Some (ns\<lparr>rtype := t, crkey := k, holder := Some (ptr reg)\<rparr>) else None)"

section \<open>Notices\<close>

text \<open>One pass over the controllers of the subsystem, then one pass per host.\<close>

primrec notify_ctrlrs :: "log_failures \<Rightarrow> spdk_nvmf_ns \<Rightarrow> uuid \<Rightarrow> resv_notice \<Rightarrow> spdk_nvmf_ctrlr list \<Rightarrow> spdk_nvmf_ctrlr list option" where
  "notify_ctrlrs noms ns u t [] = Some []"
| "notify_ctrlrs noms ns u t (c # cs) = do {
     c \<leftarrow> (if ctrlr_hostid c = u
           then reservation_notice_log (fst (noms t (cntlid c))) (snd (noms t (cntlid c))) (ns_mask ns) (nsid ns) t c
           else Some c);
     cs \<leftarrow> notify_ctrlrs noms ns u t cs;
     Some (c # cs)
   }"

definition gen_ctrlr_notification :: "log_failures \<Rightarrow> spdk_nvmf_ns \<Rightarrow> uuid list \<Rightarrow> resv_notice \<Rightarrow> spdk_nvmf_ctrlr list \<Rightarrow> spdk_nvmf_ctrlr list option" where
  "gen_ctrlr_notification noms ns hosts t cs = foldM (\<lambda>u cs. notify_ctrlrs noms ns u t cs) hosts cs"


section \<open>The reservation commands\<close>

text \<open>
  A command returns the namespace, the controllers, the status code and whether the poll groups
  must be updated.
\<close>

type_synonym resv_result = "spdk_nvmf_ns \<times> spdk_nvmf_ctrlr list \<times> nat \<times> bool"

definition set_ptpl :: "resv_cmd \<Rightarrow> spdk_nvmf_ns \<Rightarrow> (spdk_nvmf_ns \<times> bool) option" where
  "set_ptpl cmd ns =
     (if cptpl cmd = 2
      then Some (if ptpl_activated ns then (ns\<lparr>ptpl_activated := False\<rparr>, True) else (ns, False))
      else if cptpl cmd = 3
      then (if \<not> ptpl_file ns then None
            else Some (if \<not> ptpl_activated ns then (ns\<lparr>ptpl_activated := True\<rparr>, True) else (ns, False)))
      else Some (ns, False))"

definition replace_rkey :: "spdk_nvmf_registrant \<Rightarrow> u64 \<Rightarrow> spdk_nvmf_ns \<Rightarrow> spdk_nvmf_ns" where
  "replace_rkey reg k ns =
     ns\<lparr>registrants := map (\<lambda>r. if ptr r = ptr reg then r\<lparr>rkey := k\<rparr> else r) (registrants ns)\<rparr>"

definition register_key :: "bool \<Rightarrow> uuid \<Rightarrow> u64 \<Rightarrow> bool \<Rightarrow> spdk_nvmf_ns \<Rightarrow> spdk_nvmf_ctrlr list \<Rightarrow> resv_result" where
  "register_key oom host nrkey upd ns cs = (case get_registrant ns host of
     None \<Rightarrow> if nrkey = 0 then (ns, cs, SC_INVALID_FIELD, upd)
             else (case add_registrant oom ns host nrkey of
                     None \<Rightarrow> (ns, cs, SC_INTERNAL_DEVICE_ERROR, upd)
                   | Some ns \<Rightarrow> (ns, cs, SC_SUCCESS, True))
   | Some reg \<Rightarrow> if rkey reg \<noteq> nrkey then (ns, cs, SC_RESERVATION_CONFLICT, upd)
                 else (ns, cs, SC_SUCCESS, upd))"

definition unregister_key :: "log_failures \<Rightarrow> uuid \<Rightarrow> bool \<Rightarrow> u64 \<Rightarrow> bool \<Rightarrow> spdk_nvmf_ns \<Rightarrow> spdk_nvmf_ctrlr list \<Rightarrow> resv_result option" where
  "unregister_key noms host ie key upd ns cs = (case get_registrant ns host of
     None \<Rightarrow> Some (ns, cs, SC_RESERVATION_CONFLICT, upd)
   | Some reg \<Rightarrow>
       if \<not> ie \<and> rkey reg \<noteq> key then Some (ns, cs, SC_RESERVATION_CONFLICT, upd)
       else do {
         hosts \<leftarrow> get_all_other_hostid ns host;
         ns' \<leftarrow> remove_registrant ns reg;
         cs \<leftarrow> (if rtype ns' = 0 \<and> hosts \<noteq> [] \<and>
                   (rtype ns = WRITE_EXCLUSIVE_REG_ONLY \<or> rtype ns = EXCLUSIVE_ACCESS_REG_ONLY)
                then gen_ctrlr_notification noms ns' hosts RESERVATION_RELEASED cs else Some cs);
         Some (ns', cs, SC_SUCCESS, True)
       })"

definition replace_key :: "bool \<Rightarrow> uuid \<Rightarrow> bool \<Rightarrow> u64 \<Rightarrow> u64 \<Rightarrow> bool \<Rightarrow> spdk_nvmf_ns \<Rightarrow> spdk_nvmf_ctrlr list \<Rightarrow> resv_result" where
  "replace_key oom host ie key nrkey upd ns cs =
     (if nrkey = 0 then (ns, cs, SC_INVALID_FIELD, upd)
      else case get_registrant ns host of
        Some reg \<Rightarrow>
          if \<not> ie \<and> rkey reg \<noteq> key then (ns, cs, SC_RESERVATION_CONFLICT, upd)
          else if rkey reg = nrkey then (ns, cs, SC_SUCCESS, upd)
          else (replace_rkey reg nrkey ns, cs, SC_SUCCESS, True)
      | None \<Rightarrow>
          if ie then (case add_registrant oom ns host nrkey of
                        None \<Rightarrow> (ns, cs, SC_INTERNAL_DEVICE_ERROR, upd)
                      | Some ns \<Rightarrow> (ns, cs, SC_SUCCESS, True))
          else (ns, cs, SC_RESERVATION_CONFLICT, upd))"

definition ns_register :: "bool \<Rightarrow> log_failures \<Rightarrow> uuid \<Rightarrow> resv_cmd \<Rightarrow> spdk_nvmf_ns \<Rightarrow> spdk_nvmf_ctrlr list \<Rightarrow> resv_result option" where
  "ns_register oom noms host cmd ns cs = (case keys cmd of
     None \<Rightarrow> Some (ns, cs, SC_INVALID_FIELD, False)
   | Some (key, nrkey) \<Rightarrow> (case set_ptpl cmd ns of
       None \<Rightarrow> Some (ns, cs, SC_INVALID_FIELD, False)
     | Some (ns, upd) \<Rightarrow>
         if action cmd = 0 then Some (register_key oom host nrkey upd ns cs)
         else if action cmd = 1 then unregister_key noms host (iekey cmd) key upd ns cs
         else if action cmd = 2 then Some (replace_key oom host (iekey cmd) key nrkey upd ns cs)
         else Some (ns, cs, SC_INVALID_FIELD, upd)))"

text \<open>
  The body of the acquire command up to its exit label: namespace, status, update flag, whether
  a reservation was released and the other hosts before a preemption.
\<close>

type_synonym acquire_exit = "spdk_nvmf_ns \<times> nat \<times> bool \<times> bool \<times> uuid list"

definition do_acquire :: "spdk_nvmf_registrant \<Rightarrow> u64 \<Rightarrow> nat \<Rightarrow> spdk_nvmf_ns \<Rightarrow> acquire_exit option" where
  "do_acquire reg key t ns =
     (if registrant_is_holder ns reg \<and> rtype ns = t then Some (ns, SC_SUCCESS, False, False, [])
      else if holder ns = None then do {
        ns \<leftarrow> acquire_reservation ns key t reg;
        Some (ns, SC_SUCCESS, True, False, [])
      }
      else Some (ns, SC_RESERVATION_CONFLICT, False, False, []))"

definition find_ptr :: "spdk_nvmf_ns \<Rightarrow> nat option \<Rightarrow> spdk_nvmf_registrant option" where
  "find_ptr ns p = (case p of None \<Rightarrow> None | Some a \<Rightarrow> find_reg (\<lambda>r. ptr r = a) (registrants ns))"

definition preempt_single :: "spdk_nvmf_registrant \<Rightarrow> u64 \<Rightarrow> u64 \<Rightarrow> nat \<Rightarrow> uuid list \<Rightarrow> spdk_nvmf_ns \<Rightarrow> acquire_exit option" where
  "preempt_single reg key prkey t hosts ns =
     (if registrant_is_holder ns reg \<and> crkey ns = prkey
      then Some (ns\<lparr>rtype := t\<rparr>, SC_SUCCESS, True, True, hosts)
      else if crkey ns = prkey then do {
        h \<leftarrow> find_ptr ns (holder ns);
        ns \<leftarrow> remove_registrant ns h;
        ns \<leftarrow> acquire_reservation ns key t reg;
        Some (ns, SC_SUCCESS, True, True, hosts)
      }
      else if prkey \<noteq> 0 then do {
        (_, ns) \<leftarrow> remove_registrants_by_key ns prkey;
        Some (ns, SC_SUCCESS, True, False, hosts)
      }
      else Some (ns, SC_RESERVATION_CONFLICT, False, False, hosts))"

definition preempt_all :: "spdk_nvmf_registrant \<Rightarrow> u64 \<Rightarrow> uuid list \<Rightarrow> spdk_nvmf_ns \<Rightarrow> acquire_exit option" where
  "preempt_all reg prkey hosts ns =
     (if prkey = 0 then do {
        (_, ns) \<leftarrow> remove_all_other_registrants ns reg;
        if holder ns = Some (ptr reg) then Some (ns, SC_SUCCESS, True, False, hosts) else None
      }
      else do {
        (count, ns) \<leftarrow> remove_registrants_by_key ns prkey;
        if count = 0 then Some (ns, SC_RESERVATION_CONFLICT, False, False, hosts)
        else Some (ns, SC_SUCCESS, True, False, hosts)
      })"

definition do_preempt :: "uuid \<Rightarrow> spdk_nvmf_registrant \<Rightarrow> u64 \<Rightarrow> u64 \<Rightarrow> nat \<Rightarrow> spdk_nvmf_ns \<Rightarrow> acquire_exit option" where
  "do_preempt host reg key prkey t ns =
     (if holder ns = None then do {
        (_, ns) \<leftarrow> remove_registrants_by_key ns prkey;
        Some (ns, SC_SUCCESS, True, False, [])
      }
      else do {
        hosts \<leftarrow> get_all_other_hostid ns host;
        if \<not> all_registrants_type ns then preempt_single reg key prkey t hosts ns
        else preempt_all reg prkey hosts ns
      })"

definition acquire_body :: "uuid \<Rightarrow> resv_cmd \<Rightarrow> spdk_nvmf_ns \<Rightarrow> acquire_exit option" where
  "acquire_body host cmd ns = (case keys cmd of
     None \<Rightarrow> Some (ns, SC_INVALID_FIELD, True, False, [])
   | Some (key, prkey) \<Rightarrow>
       if iekey cmd \<or> cmd_rtype cmd > EXCLUSIVE_ACCESS_ALL_REGS then Some (ns, SC_INVALID_FIELD, False, False, [])
       else (case get_registrant ns host of
         None \<Rightarrow> Some (ns, SC_RESERVATION_CONFLICT, False, False, [])
       | Some reg \<Rightarrow>
           if rkey reg \<noteq> key then Some (ns, SC_RESERVATION_CONFLICT, False, False, [])
           else if action cmd = 0 then do_acquire reg key (cmd_rtype cmd) ns
           else if action cmd = 1 then do_preempt host reg key prkey (cmd_rtype cmd) ns
           else Some (ns, SC_INVALID_FIELD, False, False, [])))"

definition ns_acquire :: "log_failures \<Rightarrow> uuid \<Rightarrow> resv_cmd \<Rightarrow> spdk_nvmf_ns \<Rightarrow> spdk_nvmf_ctrlr list \<Rightarrow> resv_result option" where
  "ns_acquire noms host cmd ns cs = do {
     (ns, status, upd, released, hosts) \<leftarrow> acquire_body host cmd ns;
     cs \<leftarrow> (if upd \<and> action cmd = 1 then do {
              remaining \<leftarrow> get_all_other_hostid ns host;
              let gone = get_unregistered_hostid hosts remaining;
              cs \<leftarrow> (if gone \<noteq> [] then gen_ctrlr_notification noms ns gone REGISTRATION_PREEMPTED cs else Some cs);
              if released \<and> remaining \<noteq> [] then gen_ctrlr_notification noms ns remaining RESERVATION_RELEASED cs else Some cs
            } else Some cs);
     Some (ns, cs, status, upd)
   }"

definition do_release :: "log_failures \<Rightarrow> spdk_nvmf_registrant \<Rightarrow> uuid list \<Rightarrow> nat \<Rightarrow> spdk_nvmf_ns \<Rightarrow> spdk_nvmf_ctrlr list \<Rightarrow> resv_result option" where
  "do_release noms reg hosts t ns cs =
     (if holder ns = None then Some (ns, cs, SC_SUCCESS, False)
      else if rtype ns \<noteq> t then Some (ns, cs, SC_INVALID_FIELD, False)
      else if \<not> registrant_is_holder ns reg then Some (ns, cs, SC_SUCCESS, False)
      else do {
        let ns' = release_reservation ns;
        cs \<leftarrow> (if hosts \<noteq> [] \<and> rtype ns \<noteq> WRITE_EXCLUSIVE \<and> rtype ns \<noteq> EXCLUSIVE_ACCESS
               then gen_ctrlr_notification noms ns' hosts RESERVATION_RELEASED cs else Some cs);
        Some (ns', cs, SC_SUCCESS, True)
      })"

definition do_clear :: "log_failures \<Rightarrow> uuid list \<Rightarrow> spdk_nvmf_ns \<Rightarrow> spdk_nvmf_ctrlr list \<Rightarrow> resv_result option" where
  "do_clear noms hosts ns cs = do {
     (_, ns) \<leftarrow> clear_all_registrants ns;
     cs \<leftarrow> (if hosts \<noteq> [] then gen_ctrlr_notification noms ns hosts RESERVATION_PREEMPTED cs else Some cs);
     Some (ns, cs, SC_SUCCESS, True)
   }"

definition ns_release :: "log_failures \<Rightarrow> uuid \<Rightarrow> resv_cmd \<Rightarrow> spdk_nvmf_ns \<Rightarrow> spdk_nvmf_ctrlr list \<Rightarrow> resv_result option" where
  "ns_release noms host cmd ns cs = (case keys cmd of
     None \<Rightarrow> Some (ns, cs, SC_INVALID_FIELD, True)
   | Some (key, _) \<Rightarrow>
       if iekey cmd then Some (ns, cs, SC_INVALID_FIELD, False)
       else (case get_registrant ns host of
         None \<Rightarrow> Some (ns, cs, SC_RESERVATION_CONFLICT, False)
       | Some reg \<Rightarrow>
           if rkey reg \<noteq> key then Some (ns, cs, SC_RESERVATION_CONFLICT, False)
           else do {
             hosts \<leftarrow> get_all_other_hostid ns host;
             if action cmd = 0 then do_release noms reg hosts (cmd_rtype cmd) ns cs
             else if action cmd = 1 then do_clear noms hosts ns cs
             else Some (ns, cs, SC_INVALID_FIELD, False)
           }))"


section \<open>The reservation report\<close>

definition bool_byte :: "bool \<Rightarrow> u8" where
  "bool_byte b = (if b then 1 else 0)"

text \<open>
  The 64-byte header and the 64-byte entry of one registrant; \<open>uuid_bytes\<close> is the 16-byte
  representation of a host identifier.
\<close>

definition status_bytes :: "spdk_nvmf_ns \<Rightarrow> u8 list" where
  "status_bytes ns = le_bytes 4 (gen ns) @ [of_nat (rtype ns)] @ le_bytes 2 (of_nat (length (registrants ns)) :: u16)
     @ [0, 0] @ [bool_byte (ptpl_activated ns)] @ replicate 14 0 @ replicate 40 0"

definition registrant_bytes :: "(uuid \<Rightarrow> u8 list) \<Rightarrow> spdk_nvmf_ns \<Rightarrow> spdk_nvmf_registrant \<Rightarrow> u8 list" where
  "registrant_bytes uuid_bytes ns r = [255, 255] @ [bool_byte (holder ns = Some (ptr r))] @ replicate 5 0
     @ le_bytes 8 (rkey r) @ uuid_bytes (hostid r) @ replicate 32 0"

definition ns_report :: "(uuid \<Rightarrow> u8 list) \<Rightarrow> segment list \<Rightarrow> resv_cmd \<Rightarrow> spdk_nvmf_ns \<Rightarrow> memory \<Rightarrow> memory \<times> nat" where
  "ns_report uuid_bytes iovs cmd ns mem =
     (if iovs = [] then (mem, SC_INVALID_FIELD)
      else if \<not> eds cmd then (mem, SC_HOSTID_INCONSISTENT_FORMAT)
      else if (cdw10 cmd + 1) * 4 < 64 then (mem, SC_INTERNAL_DEVICE_ERROR)
      else (snd (foldl xfer_put (xfer_put (spdk_iov_xfer_init iovs, mem) (status_bytes ns))
                   (map (registrant_bytes uuid_bytes ns) (registrants ns))), SC_SUCCESS))"

section \<open>The persistent record\<close>

record spdk_nvmf_reservation_info =
  i_crkey :: u64
  i_rtype :: nat
  i_ptpl_activated :: bool
  i_bdev_uuid :: string
  i_holder_uuid :: string
  i_registrants :: "(u64 \<times> string) list"

text \<open>
  The persist file, \<open>None\<close> when empty; the JSON text in it stands for the values it was written
  from. Storing it goes through the file system, the parameter \<open>put_file\<close>, which gets the old and
  the new contents. \<open>fmt\<close> and \<open>parse\<close> are the UUID routines of the C library.
\<close>

type_synonym persist_file = "spdk_nvmf_reservation_info option"

definition reservation_update_json :: "(persist_file \<Rightarrow> persist_file \<Rightarrow> int \<times> persist_file) \<Rightarrow> spdk_nvmf_reservation_info \<Rightarrow> persist_file \<Rightarrow> int \<times> persist_file" where
  "reservation_update_json put_file info file =
     put_file file (if \<not> i_ptpl_activated info then None else Some info)"

definition reservation_info_of :: "(uuid \<Rightarrow> string) \<Rightarrow> uuid \<Rightarrow> spdk_nvmf_ns \<Rightarrow> spdk_nvmf_reservation_info option" where
  "reservation_info_of fmt b ns = do {
     holder_str \<leftarrow> (if rtype ns \<noteq> 0 \<and> \<not> all_registrants_type ns
                    then (case find_ptr ns (holder ns) of None \<Rightarrow> None | Some h \<Rightarrow> Some (fmt (hostid h)))
                    else Some []);
     if length (registrants ns) > MAX_NUM_REGISTRANTS then None
     else Some \<lparr>i_crkey = (if rtype ns \<noteq> 0 then crkey ns else 0), i_rtype = rtype ns,
                i_ptpl_activated = ptpl_activated ns, i_bdev_uuid = fmt b, i_holder_uuid = holder_str,
                i_registrants = map (\<lambda>r. (rkey r, fmt (hostid r))) (registrants ns)\<rparr>
   }"

definition update_reservation_info :: "(uuid \<Rightarrow> string) \<Rightarrow> (persist_file \<Rightarrow> persist_file \<Rightarrow> int \<times> persist_file) \<Rightarrow> spdk_nvmf_ns \<Rightarrow> persist_file \<Rightarrow> (int \<times> persist_file) option" where
  "update_reservation_info fmt put_file ns file = (case bdev ns of
     None \<Rightarrow> Some (0, file)
   | Some b \<Rightarrow> if \<not> ptpl_file ns then Some (0, file)
               else do {
                 info \<leftarrow> reservation_info_of fmt b ns;
                 Some (reservation_update_json put_file info file)
               })"

text \<open>
  Restoring: \<open>junk\<close> is what the uninitialised UUID variables held, \<open>oom i\<close> that the structure of
  registrant \<open>i\<close> cannot be allocated. The result is the return code, the namespace, and the
  registrant found to be the holder.
\<close>

primrec restore_regs :: "(string \<Rightarrow> uuid option) \<Rightarrow> (nat \<Rightarrow> bool) \<Rightarrow> u64 \<Rightarrow> uuid \<Rightarrow> (u64 \<times> string) list \<Rightarrow> nat \<Rightarrow> nat option \<Rightarrow> spdk_nvmf_ns \<Rightarrow> bool \<times> spdk_nvmf_ns \<times> nat option" where
  "restore_regs parse oom k hu [] i h ns = (True, ns, h)"
| "restore_regs parse oom k hu (x # xs) i h ns =
     (if oom i then (False, ns, h)
      else let host = (case parse (snd x) of None \<Rightarrow> 0 | Some u \<Rightarrow> u);
               reg = \<lparr>ptr = next_ptr ns, hostid = host, rkey = fst x\<rparr>;
               ns' = ns\<lparr>registrants := registrants ns @ [reg], next_ptr := next_ptr ns + 1\<rparr>
           in restore_regs parse oom k hu xs (i + 1) (if k \<noteq> 0 \<and> hu = host then Some (ptr reg) else h) ns')"

definition reservation_restore :: "(string \<Rightarrow> uuid option) \<Rightarrow> uuid \<times> uuid \<Rightarrow> (nat \<Rightarrow> bool) \<Rightarrow> spdk_nvmf_reservation_info \<Rightarrow> spdk_nvmf_ns \<Rightarrow> (int \<times> spdk_nvmf_ns) option" where
  "reservation_restore parse junk oom info ns =
     (if \<not> i_ptpl_activated info \<or> i_registrants info = [] then Some (0, ns)
      else if i_crkey info \<notin> fst ` set (i_registrants info) \<and> i_crkey info \<noteq> 0 then Some (- EINVAL, ns)
      else case bdev ns of
        None \<Rightarrow> None
      | Some b \<Rightarrow>
          let bdev_uuid = (case parse (i_bdev_uuid info) of None \<Rightarrow> fst junk | Some u \<Rightarrow> u);
              holder_uuid = (case parse (i_holder_uuid info) of None \<Rightarrow> snd junk | Some u \<Rightarrow> u)
          in if bdev_uuid \<noteq> b then Some (- EINVAL, ns)
             else let ns' = ns\<lparr>crkey := i_crkey info, rtype := i_rtype info, ptpl_activated := i_ptpl_activated info\<rparr>;
                      (done, ns'', h) = restore_regs parse oom (i_crkey info) holder_uuid (i_registrants info) 0 None ns'
                  in if \<not> done then Some (- ENOMEM, ns'')
                     else Some (0, ns''\<lparr>holder := (if all_registrants_type ns'' then Some (ptr (hd (registrants ns''))) else h)\<rparr>))"

section \<open>Handling a request\<close>

text \<open>What the surroundings of one request decide: allocations and the file system.\<close>

record resv_env =
  oom :: bool
  noms :: log_failures
  put_file :: "persist_file \<Rightarrow> persist_file \<Rightarrow> int \<times> persist_file"

record resv_state =
  s_ns :: spdk_nvmf_ns
  s_ctrlrs :: "spdk_nvmf_ctrlr list"
  s_file :: persist_file

definition resv_command :: "resv_env \<Rightarrow> uuid \<Rightarrow> resv_cmd \<Rightarrow> spdk_nvmf_ns \<Rightarrow> spdk_nvmf_ctrlr list \<Rightarrow> resv_result option" where
  "resv_command e host cmd ns cs =
     (if opc cmd = OPC_RESERVATION_REGISTER then ns_register (oom e) (noms e) host cmd ns cs
      else if opc cmd = OPC_RESERVATION_ACQUIRE then ns_acquire (noms e) host cmd ns cs
      else if opc cmd = OPC_RESERVATION_RELEASE then ns_release (noms e) host cmd ns cs
      else Some (ns, cs, SC_SUCCESS, False))"

definition ns_reservation_request :: "(uuid \<Rightarrow> string) \<Rightarrow> resv_env \<Rightarrow> uuid \<Rightarrow> resv_cmd \<Rightarrow> resv_state \<Rightarrow> (resv_state \<times> nat \<times> bool) option" where
  "ns_reservation_request fmt e host cmd s = do {
     (ns, cs, status, upd) \<leftarrow> resv_command e host cmd (s_ns s) (s_ctrlrs s);
     if upd \<and> (ptpl_activated ns \<or> opc cmd = OPC_RESERVATION_REGISTER)
     then do {
       (rc, file) \<leftarrow> update_reservation_info fmt (put_file e) ns (s_file s);
       Some (\<lparr>s_ns = ns, s_ctrlrs = cs, s_file = file\<rparr>, (if rc \<noteq> 0 then SC_INTERNAL_DEVICE_ERROR else status), upd)
     }
     else Some (\<lparr>s_ns = ns, s_ctrlrs = cs, s_file = s_file s\<rparr>, status, upd)
   }"

section \<open>The copy of a poll group and the access check\<close>

record pg_ns_info =
  p_crkey :: u64
  p_rtype :: nat
  p_holder_id :: uuid
  p_reg_hostid :: "uuid list"

text \<open>
  The reservation part of updating a poll group. The registrants are copied into an array of 16
  host identifiers that was zeroed before; the code gives up at the 17th.
\<close>

definition poll_group_update_ns :: "spdk_nvmf_ns \<Rightarrow> pg_ns_info \<Rightarrow> (int \<times> pg_ns_info) option" where
  "poll_group_update_ns ns info = do {
     holder_id \<leftarrow> (case holder ns of None \<Rightarrow> Some (p_holder_id info)
        | Some p \<Rightarrow> (case find_ptr ns (Some p) of None \<Rightarrow> None | Some h \<Rightarrow> Some (hostid h)));
     let hosts = map hostid (registrants ns);
     let table = take MAX_NUM_REGISTRANTS (hosts @ replicate MAX_NUM_REGISTRANTS 0);
     let info = \<lparr>p_crkey = crkey ns, p_rtype = rtype ns, p_holder_id = holder_id, p_reg_hostid = table\<rparr>;
     Some (if length hosts > MAX_NUM_REGISTRANTS then - EINVAL else 0, info)
   }"

definition ctrlr_is_registrant :: "pg_ns_info \<Rightarrow> uuid \<Rightarrow> bool" where
  "ctrlr_is_registrant info host \<longleftrightarrow> host \<in> set (p_reg_hostid info)"

definition reservation_request_check :: "pg_ns_info \<Rightarrow> uuid \<Rightarrow> resv_cmd \<Rightarrow> nat" where
  "reservation_request_check info host cmd =
     (let rtype = p_rtype info; reg = ctrlr_is_registrant info host
      in if rtype = 0 then SC_SUCCESS
         else if (rtype = WRITE_EXCLUSIVE_ALL_REGS \<or> rtype = EXCLUSIVE_ACCESS_ALL_REGS) \<and> reg then SC_SUCCESS
         else if p_holder_id info = host then SC_SUCCESS
         else if opc cmd \<in> {2, 5}
              then if rtype = EXCLUSIVE_ACCESS then SC_RESERVATION_CONFLICT
                   else if (rtype = EXCLUSIVE_ACCESS_REG_ONLY \<or> rtype = EXCLUSIVE_ACCESS_ALL_REGS) \<and> \<not> reg
                   then SC_RESERVATION_CONFLICT else SC_SUCCESS
         else if opc cmd \<in> {0, 1, 4, 8, 9}
              then if rtype = WRITE_EXCLUSIVE \<or> rtype = EXCLUSIVE_ACCESS then SC_RESERVATION_CONFLICT
                   else if \<not> reg then SC_RESERVATION_CONFLICT else SC_SUCCESS
         else if opc cmd = OPC_RESERVATION_ACQUIRE
              then if action cmd = 0 then SC_RESERVATION_CONFLICT
                   else if \<not> reg then SC_RESERVATION_CONFLICT else SC_SUCCESS
         else if opc cmd = OPC_RESERVATION_RELEASE
              then if \<not> reg then SC_RESERVATION_CONFLICT else SC_SUCCESS
         else SC_SUCCESS)"

end
