(* ===== verification/Nvmf_Resv_Spec.thy ===== *)
theory Nvmf_Resv_Spec
  imports Nvmf_Reservation
begin

text \<open>
  What namespace reservations promise. The abstract state is a map from hosts to keys with at
  most one reservation; the theory gives the abstract effect and status of each command, the
  well-formedness invariant of the registrant list, and shows that removing registrants and
  sending notices keep the invariant and have the abstract effect.
\<close>

section \<open>The abstract reservation\<close>

text \<open>
  \<open>a_holder\<close> is the host that holds a reservation of a single holder. A reservation of an
  all-registrants type is held by every registrant and names none.
\<close>

record resv_abs =
  a_regs :: "uuid \<Rightarrow> u64 option"
  a_held :: bool
  a_type :: nat
  a_key :: u64
  a_holder :: "uuid option"

definition all_type :: "nat \<Rightarrow> bool" where
  "all_type t \<longleftrightarrow> t = WRITE_EXCLUSIVE_ALL_REGS \<or> t = EXCLUSIVE_ACCESS_ALL_REGS"

definition a_release :: "resv_abs \<Rightarrow> resv_abs" where
  "a_release a = a\<lparr>a_held := False, a_type := 0, a_key := 0, a_holder := None\<rparr>"

definition a_drop :: "uuid set \<Rightarrow> resv_abs \<Rightarrow> resv_abs" where
  "a_drop H a =
     (let a' = a\<lparr>a_regs := a_regs a |` (- H)\<rparr>
      in if a_held a \<and> (if all_type (a_type a) then a_regs a' = Map.empty else \<exists>h \<in> H. a_holder a = Some h)
         then a_release a' else a')"

definition a_take :: "uuid \<Rightarrow> u64 \<Rightarrow> nat \<Rightarrow> resv_abs \<Rightarrow> resv_abs" where
  "a_take h k t a = a\<lparr>a_held := True, a_type := t, a_key := k, a_holder := (if all_type t then None else Some h)\<rparr>"

definition a_is_holder :: "uuid \<Rightarrow> resv_abs \<Rightarrow> bool" where
  "a_is_holder h a \<longleftrightarrow> all_type (a_type a) \<or> a_holder a = Some h"

definition with_key :: "u64 \<Rightarrow> resv_abs \<Rightarrow> uuid set" where
  "with_key k a = {h. a_regs a h = Some k}"

section \<open>The abstract commands\<close>

definition a_register :: "bool \<Rightarrow> bool \<Rightarrow> uuid \<Rightarrow> resv_cmd \<Rightarrow> resv_abs \<Rightarrow> resv_abs \<times> nat" where
  "a_register no_file no_mem h cmd a = (case keys cmd of
     None \<Rightarrow> (a, SC_INVALID_FIELD)
   | Some (k, nk) \<Rightarrow>
       if cptpl cmd = 3 \<and> no_file then (a, SC_INVALID_FIELD)
       else if action cmd = 0
       then (case a_regs a h of
               None \<Rightarrow> if nk = 0 then (a, SC_INVALID_FIELD) else if no_mem then (a, SC_INTERNAL_DEVICE_ERROR)
                       else (a\<lparr>a_regs := (a_regs a)(h \<mapsto> nk)\<rparr>, SC_SUCCESS)
             | Some k' \<Rightarrow> (a, if k' = nk then SC_SUCCESS else SC_RESERVATION_CONFLICT))
       else if action cmd = 1
       then (case a_regs a h of
               None \<Rightarrow> (a, SC_RESERVATION_CONFLICT)
             | Some k' \<Rightarrow> if iekey cmd \<or> k' = k then (a_drop {h} a, SC_SUCCESS) else (a, SC_RESERVATION_CONFLICT))
       else if action cmd = 2
       then if nk = 0 then (a, SC_INVALID_FIELD)
            else (case a_regs a h of
                    Some k' \<Rightarrow> if iekey cmd \<or> k' = k then (a\<lparr>a_regs := (a_regs a)(h \<mapsto> nk)\<rparr>, SC_SUCCESS)
                               else (a, SC_RESERVATION_CONFLICT)
                  | None \<Rightarrow> if \<not> iekey cmd then (a, SC_RESERVATION_CONFLICT)
                            else if no_mem then (a, SC_INTERNAL_DEVICE_ERROR)
                            else (a\<lparr>a_regs := (a_regs a)(h \<mapsto> nk)\<rparr>, SC_SUCCESS))
       else (a, SC_INVALID_FIELD))"

definition a_preempt :: "uuid \<Rightarrow> u64 \<Rightarrow> u64 \<Rightarrow> nat \<Rightarrow> resv_abs \<Rightarrow> resv_abs \<times> nat" where
  "a_preempt h k pk t a =
     (if \<not> a_held a then (a_drop (with_key pk a) a, SC_SUCCESS)
      else if \<not> all_type (a_type a)
      then if a_key a = pk
           then (if a_holder a = Some h then a\<lparr>a_type := t, a_holder := (if all_type t then None else Some h)\<rparr>
                 else a_take h k t (a_drop (set_option (a_holder a)) a), SC_SUCCESS)
           else if pk \<noteq> 0 then (a_drop (with_key pk a) a, SC_SUCCESS)
           else (a, SC_RESERVATION_CONFLICT)
      else if pk = 0 then (a_drop (- {h}) a, SC_SUCCESS)
      else if with_key pk a = {} then (a, SC_RESERVATION_CONFLICT)
      else (a_drop (with_key pk a) a, SC_SUCCESS))"

definition a_acquire :: "uuid \<Rightarrow> resv_cmd \<Rightarrow> resv_abs \<Rightarrow> resv_abs \<times> nat" where
  "a_acquire h cmd a = (case keys cmd of
     None \<Rightarrow> (a, SC_INVALID_FIELD)
   | Some (k, pk) \<Rightarrow>
       if iekey cmd \<or> cmd_rtype cmd > EXCLUSIVE_ACCESS_ALL_REGS then (a, SC_INVALID_FIELD)
       else if a_regs a h \<noteq> Some k then (a, SC_RESERVATION_CONFLICT)
       else if action cmd = 0
       then if a_is_holder h a \<and> a_type a = cmd_rtype cmd then (a, SC_SUCCESS)
            else if \<not> a_held a then (a_take h k (cmd_rtype cmd) a, SC_SUCCESS)
            else (a, SC_RESERVATION_CONFLICT)
       else if action cmd = 1 then a_preempt h k pk (cmd_rtype cmd) a
       else (a, SC_INVALID_FIELD))"

definition a_release_cmd :: "uuid \<Rightarrow> resv_cmd \<Rightarrow> resv_abs \<Rightarrow> resv_abs \<times> nat" where
  "a_release_cmd h cmd a = (case keys cmd of
     None \<Rightarrow> (a, SC_INVALID_FIELD)
   | Some (k, _) \<Rightarrow>
       if iekey cmd then (a, SC_INVALID_FIELD)
       else if a_regs a h \<noteq> Some k then (a, SC_RESERVATION_CONFLICT)
       else if action cmd = 0
       then if \<not> a_held a then (a, SC_SUCCESS)
            else if a_type a \<noteq> cmd_rtype cmd then (a, SC_INVALID_FIELD)
            else if a_is_holder h a then (a_release a, SC_SUCCESS)
            else (a, SC_SUCCESS)
       else if action cmd = 1 then (a_release (a\<lparr>a_regs := Map.empty\<rparr>), SC_SUCCESS)
       else (a, SC_INVALID_FIELD))"

section \<open>The invariant of the registrant list\<close>

definition resv_ok :: "spdk_nvmf_ns \<Rightarrow> bool" where
  "resv_ok ns \<longleftrightarrow> distinct (map ptr (registrants ns)) \<and> distinct (map hostid (registrants ns)) \<and>
     (\<forall>r \<in> set (registrants ns). ptr r < next_ptr ns \<and> rkey r \<noteq> 0) \<and> rtype ns \<le> EXCLUSIVE_ACCESS_ALL_REGS \<and>
     (case holder ns of None \<Rightarrow> rtype ns = 0 \<and> crkey ns = 0 | Some p \<Rightarrow> p \<in> ptr ` set (registrants ns))"

definition regs_map :: "spdk_nvmf_registrant list \<Rightarrow> uuid \<Rightarrow> u64 option" where
  "regs_map rs h = map_option rkey (find_reg (\<lambda>r. hostid r = h) rs)"

definition abs_ns :: "spdk_nvmf_ns \<Rightarrow> resv_abs" where
  "abs_ns ns = \<lparr>a_regs = regs_map (registrants ns), a_held = (holder ns \<noteq> None), a_type = rtype ns, a_key = crkey ns,
     a_holder = (if all_type (rtype ns) then None else map_option hostid (find_ptr ns (holder ns)))\<rparr>"


section \<open>Finding registrants\<close>

lemma find_reg_SomeD: "find_reg P rs = Some r \<Longrightarrow> r \<in> set rs \<and> P r"
  by (induction rs) (auto split: if_splits)

lemma find_reg_None [simp]: "find_reg P rs = None \<longleftrightarrow> (\<forall>r \<in> set rs. \<not> P r)"
  by (induction rs) auto

lemma find_reg_unique: "distinct (map f rs) \<Longrightarrow> r \<in> set rs \<Longrightarrow> find_reg (\<lambda>x. f x = f r) rs = Some r"
  by (induction rs) (auto simp: rev_image_eqI)

lemma find_reg_append: "find_reg P (rs @ ss) = (case find_reg P rs of None \<Rightarrow> find_reg P ss | Some r \<Rightarrow> Some r)"
  by (induction rs) auto

lemma regs_map_dom: "regs_map rs h = None \<longleftrightarrow> h \<notin> hostid ` set rs"
  by (auto simp: regs_map_def)

lemma regs_map_in: "distinct (map hostid rs) \<Longrightarrow> r \<in> set rs \<Longrightarrow> regs_map rs (hostid r) = Some (rkey r)"
  using find_reg_unique [of hostid rs r] by (simp add: regs_map_def)

lemma regs_map_SomeD: "regs_map rs h = Some k \<Longrightarrow> \<exists>r \<in> set rs. hostid r = h \<and> rkey r = k"
  by (auto simp: regs_map_def dest: find_reg_SomeD)

lemma regs_map_empty [simp]: "regs_map [] = Map.empty"
  by (rule ext) (simp add: regs_map_def)

lemma regs_map_is_empty [simp]: "regs_map rs = Map.empty \<longleftrightarrow> rs = []"
  by (cases rs) (auto simp: regs_map_def fun_eq_iff)

lemma regs_map_append:
  "hostid r \<notin> hostid ` set rs \<Longrightarrow> regs_map (rs @ [r]) = (regs_map rs)(hostid r \<mapsto> rkey r)"
  by (rule ext) (auto simp: regs_map_def find_reg_append image_iff split: option.splits dest!: find_reg_SomeD)

lemma regs_map_filter:
  assumes "distinct (map hostid rs)" and "\<And>r. r \<in> set rs \<Longrightarrow> Q r \<longleftrightarrow> hostid r \<notin> H"
  shows "regs_map (filter Q rs) = regs_map rs |` (- H)"
proof
  fix h
  show "regs_map (filter Q rs) h = (regs_map rs |` (- H)) h"
  proof (cases "\<exists>r \<in> set rs. hostid r = h")
    case True
    then obtain r where r: "r \<in> set rs" "hostid r = h" by blast
    show ?thesis
    proof (cases "Q r")
      case yes: True
      then have "regs_map (filter Q rs) h = Some (rkey r)"
        using regs_map_in [of "filter Q rs" r] assms(1) r by (simp add: distinct_map_filter)
      then show ?thesis using yes r assms regs_map_in [of rs r] by simp
    next
      case False
      have "h \<notin> hostid ` set (filter Q rs)"
        using False r assms(1) by (auto simp: distinct_map inj_on_def)
      then show ?thesis using False r assms(2) by (simp add: regs_map_dom)
    qed
  next
    case False
    then have "regs_map rs h = None" "regs_map (filter Q rs) h = None" unfolding regs_map_dom by auto
    then show ?thesis by (simp add: restrict_map_def)
  qed
qed

lemma regs_map_replace:
  assumes "distinct (map ptr rs)" and "distinct (map hostid rs)" and "reg \<in> set rs"
  shows "regs_map (map (\<lambda>r. if ptr r = ptr reg then r\<lparr>rkey := k\<rparr> else r) rs) = (regs_map rs)(hostid reg \<mapsto> k)"
proof
  fix h
  let ?f = "\<lambda>r. if ptr r = ptr reg then r\<lparr>rkey := k\<rparr> else r"
  have same: "distinct (map hostid (map ?f rs))" using assms(2) by (simp add: comp_def if_distrib cong: if_cong)
  show "regs_map (map ?f rs) h = ((regs_map rs)(hostid reg \<mapsto> k)) h"
  proof (cases "\<exists>r \<in> set rs. hostid r = h")
    case True
    then obtain r where r: "r \<in> set rs" "hostid r = h" by blast
    have "?f r \<in> set (map ?f rs)" using r by auto
    then have "regs_map (map ?f rs) (hostid (?f r)) = Some (rkey (?f r))" using regs_map_in same by blast
    then have now: "regs_map (map ?f rs) h = Some (rkey (?f r))" using r by (simp split: if_splits)
    have "ptr r = ptr reg \<longleftrightarrow> h = hostid reg"
      using r assms by (auto simp: distinct_map inj_on_def)
    then show ?thesis using now r regs_map_in [OF assms(2) r(1)] by auto
  next
    case False
    then have "regs_map rs h = None" "regs_map (map ?f rs) h = None" "h \<noteq> hostid reg"
      unfolding regs_map_dom using assms(3) by auto
    then show ?thesis by simp
  qed
qed

section \<open>Removing registrants\<close>

text \<open>The fields no reservation command touches when it removes registrants.\<close>

definition same_ns :: "spdk_nvmf_ns \<Rightarrow> spdk_nvmf_ns \<Rightarrow> bool" where
  "same_ns ns ns' \<longleftrightarrow> nsid ns' = nsid ns \<and> ns_mask ns' = ns_mask ns \<and> ptpl_file ns' = ptpl_file ns \<and>
     ptpl_activated ns' = ptpl_activated ns \<and> bdev ns' = bdev ns"

lemma same_ns_refl [simp]: "same_ns ns ns"
  by (simp add: same_ns_def)

lemma same_ns_trans: "same_ns a b \<Longrightarrow> same_ns b c \<Longrightarrow> same_ns a c"
  by (simp add: same_ns_def)

lemma all_registrants_type_all: "all_registrants_type ns = all_type (rtype ns)"
  by (simp add: all_registrants_type_def all_type_def)

lemma find_ptr_holder:
  assumes "resv_ok ns" and "holder ns = Some p"
  obtains h where "find_ptr ns (Some p) = Some h" "h \<in> set (registrants ns)" "ptr h = p"
proof -
  obtain h where h: "h \<in> set (registrants ns)" "ptr h = p" using assms by (auto simp: resv_ok_def)
  then have "find_ptr ns (Some p) = Some h"
    using find_reg_unique [of ptr "registrants ns" h] assms(1) by (simp add: find_ptr_def resv_ok_def)
  then show thesis using that h by blast
qed


lemma abs_ns_fields [simp]:
  "a_regs (abs_ns ns) = regs_map (registrants ns)" "a_held (abs_ns ns) = (holder ns \<noteq> None)"
  "a_type (abs_ns ns) = rtype ns" "a_key (abs_ns ns) = crkey ns"
  by (simp_all add: abs_ns_def)

lemma a_holder_abs:
  assumes "resv_ok ns" and "holder ns = Some (ptr h)" and "h \<in> set (registrants ns)"
  shows "a_holder (abs_ns ns) = (if all_type (rtype ns) then None else Some (hostid h))"
  using assms find_reg_unique [of ptr "registrants ns" h] by (simp add: abs_ns_def find_ptr_def resv_ok_def)

lemma a_holder_none: "holder ns = None \<Longrightarrow> a_holder (abs_ns ns) = None"
  by (simp add: abs_ns_def find_ptr_def)

lemma abs_eqI:
  assumes "resv_ok ns" and "a_regs a = regs_map (registrants ns)" and "a_held a = (holder ns \<noteq> None)"
    and "a_type a = rtype ns" and "a_key a = crkey ns"
    and "\<And>h. holder ns = Some (ptr h) \<Longrightarrow> h \<in> set (registrants ns) \<Longrightarrow> a_holder a = (if all_type (rtype ns) then None else Some (hostid h))"
    and "holder ns = None \<Longrightarrow> a_holder a = None"
  shows "abs_ns ns = a"
proof (cases "holder ns")
  case None
  then show ?thesis using assms a_holder_none [OF None] by (cases a) (simp add: abs_ns_def)
next
  case (Some p)
  obtain h where h: "find_ptr ns (Some p) = Some h" "h \<in> set (registrants ns)" "ptr h = p"
    using find_ptr_holder [OF assms(1) Some] by blast
  then show ?thesis using assms(1-5) assms(6) [of h] Some by (cases a) (simp add: abs_ns_def)
qed

lemma resv_ok_distinct:
  assumes "resv_ok ns" and "r \<in> set (registrants ns)" and "x \<in> set (registrants ns)"
  shows "ptr x = ptr r \<longleftrightarrow> x = r" and "hostid x = hostid r \<longleftrightarrow> x = r"
  using assms by (auto simp: resv_ok_def distinct_map inj_on_def)

lemma regs_map_remove:
  assumes "resv_ok ns" and "r \<in> set (registrants ns)"
  shows "regs_map (filter (\<lambda>x. ptr x \<noteq> ptr r) (registrants ns)) = regs_map (registrants ns) |` (- {hostid r})"
  using assms resv_ok_distinct [OF assms] by (intro regs_map_filter) (auto simp: resv_ok_def)

lemma remove_registrant_ok:
  assumes "resv_ok ns" and "r \<in> set (registrants ns)"
  obtains ns' where "remove_registrant ns r = Some ns'" "resv_ok ns'"
    "registrants ns' = filter (\<lambda>x. ptr x \<noteq> ptr r) (registrants ns)"
    "abs_ns ns' = a_drop {hostid r} (abs_ns ns)" "same_ns ns ns'"
proof -
  define rs where "rs = filter (\<lambda>x. ptr x \<noteq> ptr r) (registrants ns)"
  define ns1 where "ns1 = ns\<lparr>registrants := rs, gen := gen ns + 1\<rparr>"
  note map = regs_map_remove [OF assms, folded rs_def]
  have ok_rs: "distinct (map ptr rs)" "distinct (map hostid rs)" "\<forall>r \<in> set rs. ptr r < next_ptr ns \<and> rkey r \<noteq> 0" "rtype ns \<le> 6"
    using assms(1) by (auto simp: resv_ok_def rs_def distinct_map_filter)
  consider (free) "holder ns = None"
    | (pass) p where "holder ns = Some p" "rs \<noteq> []" "all_type (rtype ns)"
    | (rel) p where "holder ns = Some p" "rs = [] \<or> \<not> all_type (rtype ns)" "all_type (rtype ns) \<or> p = ptr r"
    | (keep) p where "holder ns = Some p" "\<not> all_type (rtype ns)" "p \<noteq> ptr r" by fastforce
  then show thesis
  proof cases
    case free
    then have zero: "rtype ns = 0" "crkey ns = 0" using assms(1) by (simp_all add: resv_ok_def)
    have run: "remove_registrant ns r = Some ns1"
      using free zero by (simp add: remove_registrant_def check_release_on_remove_registrant_def ns1_def rs_def)
    have ok: "resv_ok ns1" using ok_rs free zero by (simp add: resv_ok_def ns1_def)
    have "abs_ns ns1 = a_drop {hostid r} (abs_ns ns)"
      using ok free zero map a_holder_none [OF free] by (intro abs_eqI) (simp_all add: ns1_def a_drop_def)
    then show thesis using that run ok by (simp add: ns1_def rs_def same_ns_def)
  next
    case pass
    let ?ns = "ns1\<lparr>holder := Some (ptr (hd rs))\<rparr>"
    have run: "remove_registrant ns r = Some ?ns"
      using pass by (simp add: remove_registrant_def check_release_on_remove_registrant_def all_registrants_type_all ns1_def rs_def)
    have ok: "resv_ok ?ns" using ok_rs pass by (simp add: resv_ok_def ns1_def)
    have "abs_ns ?ns = a_drop {hostid r} (abs_ns ns)"
      using ok pass by (intro abs_eqI) (simp_all add: ns1_def a_drop_def map [symmetric] Let_def, simp add: abs_ns_def)
    then show thesis using that run ok by (simp add: ns1_def rs_def same_ns_def)
  next
    case rel
    let ?ns = "release_reservation ns1"
    have run: "remove_registrant ns r = Some ?ns"
      using rel by (auto simp: remove_registrant_def check_release_on_remove_registrant_def registrant_is_holder_def
          all_registrants_type_all release_reservation_def ns1_def rs_def)
    have ok: "resv_ok ?ns" using ok_rs rel by (simp add: resv_ok_def ns1_def release_reservation_def)
    have "a_holder (abs_ns ns) = Some (hostid r)" if "\<not> all_type (rtype ns)"
      using a_holder_abs [OF assms(1) _ assms(2)] rel that by simp
    then have "abs_ns ?ns = a_drop {hostid r} (abs_ns ns)"
      using ok rel by (intro abs_eqI) (auto simp: ns1_def a_drop_def a_release_def map [symmetric] Let_def release_reservation_def)
    then show thesis using that run ok by (simp add: ns1_def rs_def same_ns_def release_reservation_def)
  next
    case keep
    have run: "remove_registrant ns r = Some ns1"
      using keep by (auto simp: remove_registrant_def check_release_on_remove_registrant_def registrant_is_holder_def
          all_registrants_type_all ns1_def rs_def)
    obtain h where h: "h \<in> set (registrants ns)" "ptr h = p" using find_ptr_holder [OF assms(1) keep(1)] by blast
    have "h \<in> set rs" using h keep by (simp add: rs_def)
    then have ok: "resv_ok ns1" using ok_rs keep h by (auto simp: resv_ok_def ns1_def)
    have "a_holder (abs_ns ns) = Some (hostid h)" using a_holder_abs [OF assms(1) _ h(1)] keep h by simp
    moreover have "hostid h \<noteq> hostid r" using resv_ok_distinct [OF assms h(1)] keep h by auto
    moreover have "g = h" if "ptr g = p" "g \<in> set rs" for g
      using that h resv_ok_distinct(1) [OF assms(1) h(1), of g] by (simp add: rs_def)
    ultimately have "abs_ns ns1 = a_drop {hostid r} (abs_ns ns)"
      using ok keep by (intro abs_eqI) (auto simp: ns1_def a_drop_def map [symmetric] Let_def)
    then show thesis using that run ok by (simp add: ns1_def rs_def same_ns_def)
  qed
qed


lemma a_drop_drop: "a_drop H2 (a_drop H1 a) = a_drop (H1 \<union> H2) a"
proof -
  have "(a_regs a |` (- H1)) |` (- H2) = a_regs a |` (- (H1 \<union> H2))" by (simp add: Int_commute)
  moreover from this have "a_regs a |` (- H1) = Map.empty \<Longrightarrow> a_regs a |` (- (H1 \<union> H2)) = Map.empty"
    by (metis restrict_map_empty)
  ultimately show ?thesis by (auto simp: a_drop_def a_release_def Let_def)
qed

lemma restrict_all [simp]: "m |` UNIV = m"
  by (rule ext) (simp add: restrict_map_def)

lemma a_drop_nothing:
  assumes "resv_ok ns" shows "a_drop {} (abs_ns ns) = abs_ns ns"
  using assms by (auto simp: a_drop_def resv_ok_def Let_def abs_ns_def split: option.splits)

lemma a_drop_cong:
  assumes "a_regs a |` (- H) = a_regs a |` (- H')" and "\<And>h. a_holder a = Some h \<Longrightarrow> h \<in> H \<longleftrightarrow> h \<in> H'"
  shows "a_drop H a = a_drop H' a"
  using assms by (simp add: a_drop_def Let_def) blast

lemma remove_each_ok:
  assumes "resv_ok ns" and "distinct (map ptr rs)" and "set rs \<subseteq> set (registrants ns)"
  shows "\<exists>ns'. remove_each P rs ns = Some (length (filter P rs), ns') \<and> resv_ok ns' \<and>
    registrants ns' = filter (\<lambda>x. x \<notin> set (filter P rs)) (registrants ns) \<and>
    abs_ns ns' = a_drop (hostid ` set (filter P rs)) (abs_ns ns) \<and> same_ns ns ns'"
  using assms
proof (induction rs arbitrary: ns)
  case Nil
  then show ?case by (simp add: a_drop_nothing)
next
  case (Cons r rs)
  show ?case
  proof (cases "P r")
    case False
    then show ?thesis using Cons by simp
  next
    case True
    have r: "r \<in> set (registrants ns)" using Cons.prems by simp
    obtain ns1 where one: "remove_registrant ns r = Some ns1" "resv_ok ns1"
      "registrants ns1 = filter (\<lambda>x. ptr x \<noteq> ptr r) (registrants ns)"
      "abs_ns ns1 = a_drop {hostid r} (abs_ns ns)" "same_ns ns ns1"
      using remove_registrant_ok [OF Cons.prems(1) r] by blast
    have "set rs \<subseteq> set (registrants ns1)" using Cons.prems one(3) by (fastforce simp: image_iff)
    then obtain ns2 where two: "remove_each P rs ns1 = Some (length (filter P rs), ns2)" "resv_ok ns2"
      "registrants ns2 = filter (\<lambda>x. x \<notin> set (filter P rs)) (registrants ns1)"
      "abs_ns ns2 = a_drop (hostid ` set (filter P rs)) (abs_ns ns1)" "same_ns ns1 ns2"
      using Cons.IH [OF one(2)] Cons.prems by auto
    have "filter (\<lambda>x. x \<notin> set (filter P rs)) (filter (\<lambda>x. ptr x \<noteq> ptr r) (registrants ns))
        = filter (\<lambda>x. x \<notin> set (filter P (r # rs))) (registrants ns)"
      using True resv_ok_distinct(1) [OF Cons.prems(1) r] by (auto simp: filter_filter intro!: filter_cong)
    moreover have "abs_ns ns2 = a_drop (hostid ` set (filter P (r # rs))) (abs_ns ns)"
      using two(4) one(4) True by (simp add: a_drop_drop)
    ultimately show ?thesis using one two True same_ns_trans [OF one(5) two(5)] by simp
  qed
qed

text \<open>Removing a part of the registrants, by a property of theirs.\<close>

lemma remove_matching_ok:
  assumes "resv_ok ns"
  obtains ns' where "remove_each P (registrants ns) ns = Some (length (filter P (registrants ns)), ns')" "resv_ok ns'"
    "registrants ns' = filter (\<lambda>r. \<not> P r) (registrants ns)"
    "abs_ns ns' = a_drop (hostid ` {r \<in> set (registrants ns). P r}) (abs_ns ns)" "same_ns ns ns'"
proof -
  have "distinct (map ptr (registrants ns))" using assms by (simp add: resv_ok_def)
  from remove_each_ok [OF assms this order_refl, of P] obtain ns' where
    "remove_each P (registrants ns) ns = Some (length (filter P (registrants ns)), ns')" "resv_ok ns'"
    "registrants ns' = filter (\<lambda>x. x \<notin> set (filter P (registrants ns))) (registrants ns)"
    "abs_ns ns' = a_drop (hostid ` set (filter P (registrants ns))) (abs_ns ns)" "same_ns ns ns'" by blast
  moreover have "filter (\<lambda>x. x \<notin> set (filter P (registrants ns))) (registrants ns) = filter (\<lambda>r. \<not> P r) (registrants ns)"
    by (rule filter_cong) auto
  ultimately show thesis using that by simp
qed

lemma with_key_abs:
  assumes "resv_ok ns" shows "with_key k (abs_ns ns) = hostid ` {r \<in> set (registrants ns). rkey r = k}"
  using assms regs_map_in [of "registrants ns"] by (auto simp: with_key_def resv_ok_def dest!: regs_map_SomeD)

lemma remove_by_key_ok:
  assumes "resv_ok ns"
  obtains ns' where "remove_registrants_by_key ns k = Some (length (filter (\<lambda>r. rkey r = k) (registrants ns)), ns')" "resv_ok ns'"
    "registrants ns' = filter (\<lambda>r. rkey r \<noteq> k) (registrants ns)"
    "abs_ns ns' = a_drop (with_key k (abs_ns ns)) (abs_ns ns)" "same_ns ns ns'"
proof -
  obtain ns' where "remove_each (\<lambda>r. rkey r = k) (registrants ns) ns = Some (length (filter (\<lambda>r. rkey r = k) (registrants ns)), ns')"
    "resv_ok ns'" "registrants ns' = filter (\<lambda>r. rkey r \<noteq> k) (registrants ns)"
    "abs_ns ns' = a_drop (hostid ` {r \<in> set (registrants ns). rkey r = k}) (abs_ns ns)" "same_ns ns ns'"
    by (rule remove_matching_ok [OF assms])
  then show thesis by (intro that) (simp_all add: remove_registrants_by_key_def with_key_abs [OF assms])
qed

lemma a_holder_registered:
  assumes "resv_ok ns" and "a_holder (abs_ns ns) = Some h"
  obtains r where "r \<in> set (registrants ns)" "hostid r = h" "holder ns = Some (ptr r)"
proof (cases "holder ns")
  case None
  then show thesis using assms a_holder_none by simp
next
  case (Some p)
  obtain r where r: "find_ptr ns (Some p) = Some r" "r \<in> set (registrants ns)" "ptr r = p"
    using find_ptr_holder [OF assms(1) Some] by blast
  then have "hostid r = h" using assms Some a_holder_abs [OF assms(1) _ r(2)] by (simp split: if_splits)
  then show thesis using that r Some by blast
qed

lemma filter_only: "distinct xs \<Longrightarrow> x \<in> set xs \<Longrightarrow> filter (\<lambda>y. y = x) xs = [x]"
  by (induction xs) (auto simp: filter_empty_conv)

lemma remove_all_other_ok:
  assumes "resv_ok ns" and "reg \<in> set (registrants ns)"
  obtains n ns' where "remove_all_other_registrants ns reg = Some (n, ns')" "resv_ok ns'"
    "registrants ns' = [reg]" "abs_ns ns' = a_drop (- {hostid reg}) (abs_ns ns)" "same_ns ns ns'"
proof -
  let ?P = "\<lambda>r. ptr r \<noteq> ptr reg"
  obtain ns' where run: "remove_each ?P (registrants ns) ns = Some (length (filter ?P (registrants ns)), ns')" "resv_ok ns'"
    "registrants ns' = filter (\<lambda>r. \<not> ?P r) (registrants ns)"
    "abs_ns ns' = a_drop (hostid ` {r \<in> set (registrants ns). ?P r}) (abs_ns ns)" "same_ns ns ns'"
    by (rule remove_matching_ok [OF assms(1)])
  have "filter (\<lambda>r. \<not> ?P r) (registrants ns) = filter (\<lambda>r. r = reg) (registrants ns)"
    using resv_ok_distinct(1) [OF assms] by (intro filter_cong) auto
  moreover have "distinct (registrants ns)" using assms(1) by (simp add: resv_ok_def distinct_map)
  ultimately have only: "registrants ns' = [reg]" using run(3) assms(2) by (simp add: filter_only)
  have other: "h \<in> hostid ` {r \<in> set (registrants ns). ?P r} \<longleftrightarrow> h \<in> - {hostid reg}" if h: "h \<in> hostid ` set (registrants ns)" for h
  proof -
    obtain r where r: "r \<in> set (registrants ns)" "h = hostid r" using h by blast
    have "h \<in> hostid ` {r \<in> set (registrants ns). ?P r} \<longleftrightarrow> r \<noteq> reg"
    proof
      assume "h \<in> hostid ` {r \<in> set (registrants ns). ?P r}"
      then obtain x where x: "x \<in> set (registrants ns)" "?P x" "h = hostid x" by blast
      have "hostid x = hostid r" using x(3) r(2) by (rule trans [OF sym])
      then have "x = r" using resv_ok_distinct(2) [OF assms(1) r(1) x(1)] by blast
      then show "r \<noteq> reg" using x(2) by blast
    next
      assume "r \<noteq> reg"
      then show "h \<in> hostid ` {r \<in> set (registrants ns). ?P r}" using resv_ok_distinct(1) [OF assms r(1)] r(1) unfolding r(2) by blast
    qed
    then show ?thesis using resv_ok_distinct(2) [OF assms r(1)] unfolding r(2) by blast
  qed
  have "a_drop (hostid ` {r \<in> set (registrants ns). ?P r}) (abs_ns ns) = a_drop (- {hostid reg}) (abs_ns ns)"
  proof (rule a_drop_cong)
    show "a_regs (abs_ns ns) |` (- hostid ` {r \<in> set (registrants ns). ?P r}) = a_regs (abs_ns ns) |` (- (- {hostid reg}))"
    proof
      fix h
      show "(a_regs (abs_ns ns) |` (- hostid ` {r \<in> set (registrants ns). ?P r})) h = (a_regs (abs_ns ns) |` (- (- {hostid reg}))) h"
        using other [of h] regs_map_dom [of "registrants ns" h] unfolding restrict_map_def Compl_iff abs_ns_fields
        by (cases "h \<in> hostid ` set (registrants ns)") (simp_all only: if_cancel not_False_eq_True eq_True)
    qed
    show "h \<in> hostid ` {r \<in> set (registrants ns). ?P r} \<longleftrightarrow> h \<in> - {hostid reg}" if held: "a_holder (abs_ns ns) = Some h" for h
    proof -
      obtain r where "r \<in> set (registrants ns)" "hostid r = h" using a_holder_registered [OF assms(1) held] by blast
      then show ?thesis using other by blast
    qed
  qed
  with run only show thesis by (intro that) (simp_all add: remove_all_other_registrants_def)
qed


lemma clear_all_ok:
  assumes "resv_ok ns"
  obtains n ns' where "clear_all_registrants ns = Some (n, ns')" "resv_ok ns'" "registrants ns' = []"
    "abs_ns ns' = a_release (abs_ns ns\<lparr>a_regs := Map.empty\<rparr>)" "same_ns ns ns'"
proof -
  obtain ns' where run: "remove_each (\<lambda>_. True) (registrants ns) ns = Some (length (filter (\<lambda>_. True) (registrants ns)), ns')"
    "resv_ok ns'" "registrants ns' = filter (\<lambda>r. \<not> True) (registrants ns)"
    "abs_ns ns' = a_drop (hostid ` {r \<in> set (registrants ns). True}) (abs_ns ns)" "same_ns ns ns'"
    by (rule remove_matching_ok [OF assms])
  have none: "registrants ns' = []" "holder ns' = None" "rtype ns' = 0" "crkey ns' = 0"
    using run(2,3) by (auto simp: resv_ok_def split: option.splits)
  then have "abs_ns ns' = a_release (abs_ns ns\<lparr>a_regs := Map.empty\<rparr>)"
    by (simp add: abs_ns_def a_release_def find_ptr_def)
  with run none show thesis by (intro that) (simp_all add: clear_all_registrants_def)
qed

section \<open>Notices\<close>

text \<open>\<open>n\<close> more notices can be logged before a counter wraps.\<close>

definition notify_room :: "nat \<Rightarrow> spdk_nvmf_ctrlr list \<Rightarrow> bool" where
  "notify_room n cs \<longleftrightarrow> (\<forall>c \<in> set cs. ctrlr_ok c \<and> unat (log_page_count c) + n < 2 ^ 64)"

lemma notify_room_mono: "notify_room n cs \<Longrightarrow> m \<le> n \<Longrightarrow> notify_room m cs"
  unfolding notify_room_def by (meson add_left_mono le_less_trans)

lemma reservation_notice_log_ok:
  assumes "ctrlr_ok c" and "unat (log_page_count c) + Suc n < 2 ^ 64"
  obtains c' where "reservation_notice_log lo om m k t c = Some c'" "ctrlr_ok c'" "unat (log_page_count c') + n < 2 ^ 64"
proof -
  obtain mem' c' where "aer_step (Reservation_Notice lo om m k t) (\<lambda>_. 0, c) = Some (mem', c')" "ctrlr_ok c'"
    "unat (log_page_count c') \<le> unat (log_page_count c) + 1"
    using aer_step_ok [OF assms(1), of "Reservation_Notice lo om m k t" "\<lambda>_. 0"] assms(2) by fastforce
  then show thesis using that assms(2) by (auto split: option.splits)
qed

lemma notify_ctrlrs_ok:
  "notify_room (Suc n) cs \<Longrightarrow> \<exists>cs'. notify_ctrlrs fl ns u t cs = Some cs' \<and> notify_room n cs'"
proof (induction cs)
  case Nil
  then show ?case by (simp add: notify_room_def)
next
  case (Cons c cs)
  obtain cs' where rest: "notify_ctrlrs fl ns u t cs = Some cs'" "notify_room n cs'"
    using Cons by (auto simp: notify_room_def)
  have c: "ctrlr_ok c" "unat (log_page_count c) + Suc n < 2 ^ 64" using Cons.prems by (simp_all add: notify_room_def)
  show ?case
  proof (cases "ctrlr_hostid c = u")
    case True
    obtain c' where "reservation_notice_log (fst (fl t (cntlid c))) (snd (fl t (cntlid c))) (ns_mask ns) (nsid ns) t c = Some c'"
      "ctrlr_ok c'" "unat (log_page_count c') + n < 2 ^ 64" using reservation_notice_log_ok [OF c] by blast
    then show ?thesis using rest True by (simp add: notify_room_def)
  next
    case False
    then show ?thesis using rest c by (simp add: notify_room_def)
  qed
qed

lemma gen_ctrlr_notification_ok:
  "notify_room (n + length hosts) cs \<Longrightarrow> \<exists>cs'. gen_ctrlr_notification fl ns hosts t cs = Some cs' \<and> notify_room n cs'"
proof (induction hosts arbitrary: cs)
  case Nil
  then show ?case by (simp add: gen_ctrlr_notification_def)
next
  case (Cons u hosts)
  obtain cs1 where "notify_ctrlrs fl ns u t cs = Some cs1" "notify_room (n + length hosts) cs1"
    using notify_ctrlrs_ok Cons.prems by fastforce
  then show ?case using Cons.IH by (simp add: gen_ctrlr_notification_def)
qed

lemma optional_notification_ok:
  assumes "notify_room (n + k) cs" and "length hosts \<le> k"
  shows "\<exists>cs'. (if b then gen_ctrlr_notification fl ns hosts t cs else Some cs) = Some cs' \<and> notify_room n cs'"
  using gen_ctrlr_notification_ok [of n hosts cs fl ns t] notify_room_mono [OF assms(1), of n]
    notify_room_mono [OF assms(1), of "n + length hosts"] assms(2) by auto

lemma other_hosts_ok:
  assumes "length (registrants ns) \<le> MAX_NUM_REGISTRANTS"
  obtains hs where "get_all_other_hostid ns h = Some hs" "length hs \<le> MAX_NUM_REGISTRANTS"
proof -
  have "length (filter (\<lambda>x. x \<noteq> h) (map hostid (registrants ns))) \<le> MAX_NUM_REGISTRANTS"
    using length_filter_le [of "\<lambda>x. x \<noteq> h" "map hostid (registrants ns)"] assms by (metis length_map le_trans)
  then show thesis using that by (simp add: get_all_other_hostid_def Let_def)
qed

end
