(* ===== verification/Nvmf_Resv_Cmds.thy ===== *)
theory Nvmf_Resv_Cmds
  imports Nvmf_Resv_Spec
begin

text \<open>
  The reservation commands of the code implement the abstract ones: each returns, keeps the
  invariant, and has the abstract effect and status.
\<close>

section \<open>The commands implement the abstract ones\<close>

definition resv_same :: "spdk_nvmf_ns \<Rightarrow> spdk_nvmf_ns \<Rightarrow> bool" where
  "resv_same ns ns' \<longleftrightarrow> registrants ns' = registrants ns \<and> holder ns' = holder ns \<and> rtype ns' = rtype ns \<and> crkey ns' = crkey ns"

text \<open>
  The command returns, keeps the invariant, has the specified effect and status, brings in no
  registrant but the caller, and leaves the reservation alone when it asks for no update.
\<close>

definition implements :: "nat \<Rightarrow> uuid \<Rightarrow> spdk_nvmf_ns \<Rightarrow> resv_abs \<times> nat \<Rightarrow> resv_result option \<Rightarrow> bool" where
  "implements n h ns spec r \<longleftrightarrow> (\<exists>ns' cs' st upd. r = Some (ns', cs', st, upd) \<and> resv_ok ns' \<and> (abs_ns ns', st) = spec \<and>
     notify_room n cs' \<and> hostid ` set (registrants ns') \<subseteq> insert h (hostid ` set (registrants ns)) \<and>
     ptpl_file ns' = ptpl_file ns \<and> bdev ns' = bdev ns \<and> (\<not> upd \<longrightarrow> resv_same ns ns'))"


lemma implementsI:
  "resv_ok ns' \<Longrightarrow> (abs_ns ns', st) = spec \<Longrightarrow> notify_room n cs' \<Longrightarrow>
   hostid ` set (registrants ns') \<subseteq> insert h (hostid ` set (registrants ns)) \<Longrightarrow>
   ptpl_file ns' = ptpl_file ns \<Longrightarrow> bdev ns' = bdev ns \<Longrightarrow> (\<not> upd \<Longrightarrow> resv_same ns ns') \<Longrightarrow>
   implements n h ns spec (Some (ns', cs', st, upd))"
  by (auto simp: implements_def)

lemma implements_unchanged:
  "resv_ok ns \<Longrightarrow> spec = (abs_ns ns, st) \<Longrightarrow> notify_room n cs \<Longrightarrow> implements n h ns spec (Some (ns, cs, st, upd))"
  by (rule implementsI) (auto simp: resv_same_def)

lemma implements_via:
  assumes "resv_same ns ns1" and "ptpl_file ns1 = ptpl_file ns" and "bdev ns1 = bdev ns" and "implements n h ns1 spec r"
  shows "implements n h ns spec r"
  using assms by (auto simp: implements_def resv_same_def)

lemma registrant_cases:
  obtains (absent) "get_registrant ns h = None" "regs_map (registrants ns) h = None" "h \<notin> hostid ` set (registrants ns)"
    | (present) r where "get_registrant ns h = Some r" "r \<in> set (registrants ns)" "hostid r = h"
        "regs_map (registrants ns) h = Some (rkey r)"
proof (cases "get_registrant ns h")
  case None
  then have "h \<notin> hostid ` set (registrants ns)" by (auto simp: get_registrant_def)
  then show thesis using absent None by (simp add: regs_map_dom)
next
  case (Some r)
  then have found: "find_reg (\<lambda>r. hostid r = h) (registrants ns) = Some r" by (simp add: get_registrant_def)
  then have "regs_map (registrants ns) h = Some (rkey r)" by (simp add: regs_map_def)
  then show thesis using present Some find_reg_SomeD [OF found] by blast
qed

lemma resv_ok_add:
  assumes "resv_ok ns" and "h \<notin> hostid ` set (registrants ns)" and "k \<noteq> 0" and "add_registrant om ns h k = Some ns'"
  shows "resv_ok ns'" and "abs_ns ns' = abs_ns ns\<lparr>a_regs := (regs_map (registrants ns))(h \<mapsto> k)\<rparr>"
    and "hostid ` set (registrants ns') = insert h (hostid ` set (registrants ns))"
    and "ptpl_file ns' = ptpl_file ns" and "bdev ns' = bdev ns"
proof -
  let ?r = "\<lparr>ptr = next_ptr ns, hostid = h, rkey = k\<rparr>"
  have ns': "ns' = ns\<lparr>registrants := registrants ns @ [?r], next_ptr := next_ptr ns + 1, gen := gen ns + 1\<rparr>"
    using assms(4) by (auto simp: add_registrant_def split: if_splits)
  have fresh: "next_ptr ns \<notin> ptr ` set (registrants ns)" using assms(1) by (auto simp: resv_ok_def)
  show ok: "resv_ok ns'"
    using assms(1-3) fresh by (auto simp: resv_ok_def ns' less_Suc_eq split: option.splits)
  have map: "regs_map (registrants ns @ [?r]) = (regs_map (registrants ns))(h \<mapsto> k)"
    using regs_map_append [of ?r "registrants ns"] assms(2) by simp
  have "find_ptr ns' (holder ns) = find_ptr ns (holder ns)"
  proof (cases "holder ns")
    case (Some p)
    obtain g where "find_ptr ns (Some p) = Some g" using find_ptr_holder [OF assms(1) Some] by blast
    then show ?thesis using Some by (simp add: find_ptr_def find_reg_append ns')
  qed (simp add: find_ptr_def)
  then show "abs_ns ns' = abs_ns ns\<lparr>a_regs := (regs_map (registrants ns))(h \<mapsto> k)\<rparr>"
    using map by (simp add: abs_ns_def ns')
  show "hostid ` set (registrants ns') = insert h (hostid ` set (registrants ns))"
    and "ptpl_file ns' = ptpl_file ns" and "bdev ns' = bdev ns" by (simp_all add: ns')
qed

lemma resv_ok_replace:
  assumes "resv_ok ns" and "r \<in> set (registrants ns)" and "k \<noteq> 0"
  shows "resv_ok (replace_rkey r k ns)"
    and "abs_ns (replace_rkey r k ns) = abs_ns ns\<lparr>a_regs := (regs_map (registrants ns))(hostid r \<mapsto> k)\<rparr>"
    and "hostid ` set (registrants (replace_rkey r k ns)) = hostid ` set (registrants ns)"
proof -
  let ?f = "\<lambda>x. if ptr x = ptr r then x\<lparr>rkey := k\<rparr> else x"
  have f: "map ptr (map ?f rs) = map ptr rs" "map hostid (map ?f rs) = map hostid rs" for rs
    by (induction rs) auto
  have g: "ptr ` set (map ?f rs) = ptr ` set rs" "hostid ` set (map ?f rs) = hostid ` set rs" for rs
    using f [of rs] by (metis list.set_map)+
  have keys: "\<forall>x \<in> set (map ?f (registrants ns)). ptr x < next_ptr ns \<and> rkey x \<noteq> 0" using assms by (auto simp: resv_ok_def)
  show "resv_ok (replace_rkey r k ns)"
    using assms(1) keys by (simp add: resv_ok_def replace_rkey_def f g del: map_map set_map split: option.splits)
  have "map_option hostid (find_reg (\<lambda>x. ptr x = p) (map ?f rs)) = map_option hostid (find_reg (\<lambda>x. ptr x = p) rs)" for p rs
    by (induction rs) auto
  then have "map_option hostid (find_ptr (replace_rkey r k ns) q) = map_option hostid (find_ptr ns q)" for q
    by (cases q) (simp_all add: find_ptr_def replace_rkey_def)
  moreover have "regs_map (registrants (replace_rkey r k ns)) = (regs_map (registrants ns))(hostid r \<mapsto> k)"
    using regs_map_replace [OF _ _ assms(2)] assms(1) by (simp add: resv_ok_def replace_rkey_def)
  ultimately show "abs_ns (replace_rkey r k ns) = abs_ns ns\<lparr>a_regs := (regs_map (registrants ns))(hostid r \<mapsto> k)\<rparr>"
    by (simp add: abs_ns_def replace_rkey_def)
  show "hostid ` set (registrants (replace_rkey r k ns)) = hostid ` set (registrants ns)"
    by (simp add: replace_rkey_def g del: set_map)
qed


section \<open>Register\<close>

text \<open>What every command starts from: a well-formed namespace with room for its notices.\<close>

definition cmd_pre :: "nat \<Rightarrow> spdk_nvmf_ns \<Rightarrow> spdk_nvmf_ctrlr list \<Rightarrow> bool" where
  "cmd_pre n ns cs \<longleftrightarrow> resv_ok ns \<and> length (registrants ns) \<le> MAX_NUM_REGISTRANTS \<and> notify_room (n + 2 * MAX_NUM_REGISTRANTS) cs"

lemma cmd_pre_room: "cmd_pre n ns cs \<Longrightarrow> notify_room n cs"
  by (auto simp: cmd_pre_def elim: notify_room_mono)

lemma set_ptpl_ok:
  assumes "set_ptpl cmd ns = Some (ns1, upd)"
  shows "resv_same ns ns1" "ptpl_file ns1 = ptpl_file ns" "bdev ns1 = bdev ns" "abs_ns ns1 = abs_ns ns"
    "resv_ok ns1 = resv_ok ns" "cmd_pre n ns1 cs = cmd_pre n ns cs"
  using assms by (auto simp: set_ptpl_def resv_same_def abs_ns_def resv_ok_def find_ptr_def cmd_pre_def split: if_splits option.splits)

lemma register_key_ok:
  assumes "cmd_pre n ns cs" and "keys cmd = Some (k, nk)" and "action cmd = 0" and "\<not> (cptpl cmd = 3 \<and> no_file)"
  shows "implements n h ns (a_register no_file om h cmd (abs_ns ns)) (Some (register_key om h nk upd ns cs))"
proof -
  have ok: "resv_ok ns" and room: "notify_room n cs" using assms(1) cmd_pre_room by (auto simp: cmd_pre_def)
  note spec = a_register_def assms(2,3,4)
  show ?thesis
  proof (cases rule: registrant_cases [of ns h])
    case absent
    show ?thesis
    proof (cases "nk = 0 \<or> om")
      case True
      then show ?thesis using absent ok room assms
        by (auto simp: register_key_def spec add_registrant_def intro!: implements_unchanged)
    next
      case False
      then obtain ns' where add: "add_registrant om ns h nk = Some ns'" by (auto simp: add_registrant_def)
      note added = resv_ok_add [OF ok absent(3) _ add]
      show ?thesis using absent False add added room assms
        by (auto simp: register_key_def spec intro!: implementsI)
    qed
  next
    case (present r)
    then show ?thesis using ok room assms by (auto simp: register_key_def spec intro!: implements_unchanged)
  qed
qed

lemma unregister_key_ok:
  assumes pre: "cmd_pre n ns cs" and "keys cmd = Some (k, nk)" and "action cmd = 1" and "\<not> (cptpl cmd = 3 \<and> no_file)"
  shows "implements n h ns (a_register no_file om h cmd (abs_ns ns)) (unregister_key fl h (iekey cmd) k upd ns cs)"
proof -
  have ok: "resv_ok ns" and room: "notify_room n cs" using pre cmd_pre_room by (auto simp: cmd_pre_def)
  note spec = a_register_def assms(2,3,4)
  show ?thesis
  proof (cases rule: registrant_cases [of ns h])
    case absent
    then show ?thesis using ok room assms by (auto simp: unregister_key_def spec intro!: implements_unchanged)
  next
    case (present r)
    show ?thesis
    proof (cases "iekey cmd \<or> rkey r = k")
      case False
      then show ?thesis using present ok room assms by (auto simp: unregister_key_def spec intro!: implements_unchanged)
    next
      case True
      obtain hs where hs: "get_all_other_hostid ns h = Some hs" "length hs \<le> 16"
        using other_hosts_ok pre by (auto simp: cmd_pre_def)
      obtain ns' where rem: "remove_registrant ns r = Some ns'" "resv_ok ns'"
        "registrants ns' = filter (\<lambda>x. ptr x \<noteq> ptr r) (registrants ns)"
        "abs_ns ns' = a_drop {hostid r} (abs_ns ns)" "same_ns ns ns'"
        by (rule remove_registrant_ok [OF ok present(2)])
      define b where "b \<longleftrightarrow> rtype ns' = 0 \<and> hs \<noteq> [] \<and> (rtype ns = WRITE_EXCLUSIVE_REG_ONLY \<or> rtype ns = EXCLUSIVE_ACCESS_REG_ONLY)"
      have "notify_room (n + 16) cs" using pre by (auto simp: cmd_pre_def elim: notify_room_mono)
      then obtain cs' where cs': "(if b then gen_ctrlr_notification fl ns' hs RESERVATION_RELEASED cs else Some cs) = Some cs'" "notify_room n cs'"
        using optional_notification_ok [of n 16 cs hs b fl ns'] hs(2) by blast
      have run: "unregister_key fl h (iekey cmd) k upd ns cs = Some (ns', cs', SC_SUCCESS, True)"
        using True present hs rem cs' by (auto simp: unregister_key_def b_def)
      show ?thesis unfolding run
        using True present rem cs' assms by (intro implementsI) (auto simp: spec same_ns_def)
    qed
  qed
qed

lemma replace_key_ok:
  assumes "cmd_pre n ns cs" and "keys cmd = Some (k, nk)" and "action cmd = 2" and "\<not> (cptpl cmd = 3 \<and> no_file)"
  shows "implements n h ns (a_register no_file om h cmd (abs_ns ns)) (Some (replace_key om h (iekey cmd) k nk upd ns cs))"
proof -
  have ok: "resv_ok ns" and room: "notify_room n cs" using assms(1) cmd_pre_room by (auto simp: cmd_pre_def)
  note spec = a_register_def assms(2,3,4)
  show ?thesis
  proof (cases rule: registrant_cases [of ns h])
    case absent
    show ?thesis
    proof (cases "nk = 0 \<or> \<not> iekey cmd \<or> om")
      case True
      then show ?thesis using absent ok room assms
        by (auto simp: replace_key_def spec add_registrant_def intro!: implements_unchanged)
    next
      case False
      then obtain ns' where add: "add_registrant om ns h nk = Some ns'" by (auto simp: add_registrant_def)
      note added = resv_ok_add [OF ok absent(3) _ add]
      show ?thesis using absent False add added room assms
        by (auto simp: replace_key_def spec intro!: implementsI)
    qed
  next
    case (present r)
    show ?thesis
    proof (cases "nk = 0 \<or> \<not> (iekey cmd \<or> rkey r = k) \<or> rkey r = nk")
      case True
      moreover have "abs_ns ns\<lparr>a_regs := (regs_map (registrants ns))(h \<mapsto> rkey r)\<rparr> = abs_ns ns"
        using present(4) by (simp add: abs_ns_def fun_upd_idem)
      ultimately show ?thesis using present ok room assms
        by (auto simp: replace_key_def spec intro!: implements_unchanged)
    next
      case False
      then have "implements n h ns (a_register no_file om h cmd (abs_ns ns)) (Some (replace_rkey r nk ns, cs, SC_SUCCESS, True))"
        using present room assms resv_ok_replace [OF ok present(2)]
        by (intro implementsI) (auto simp: spec, auto simp: replace_rkey_def)
      then show ?thesis using False present by (auto simp: replace_key_def)
    qed
  qed
qed

lemma ns_register_ok:
  assumes pre: "cmd_pre n ns cs"
  shows "implements n h ns (a_register (\<not> ptpl_file ns) om h cmd (abs_ns ns)) (ns_register om fl h cmd ns cs)"
proof -
  have ok: "resv_ok ns" and room: "notify_room n cs" using pre cmd_pre_room by (auto simp: cmd_pre_def)
  show ?thesis
  proof (cases "keys cmd")
    case None
    then show ?thesis using ok room by (auto simp: ns_register_def a_register_def intro: implements_unchanged)
  next
    case (Some kk)
    then obtain k nk where keys: "keys cmd = Some (k, nk)" by (cases kk) auto
    show ?thesis
    proof (cases "set_ptpl cmd ns")
      case None
      then have "cptpl cmd = 3 \<and> \<not> ptpl_file ns" by (auto simp: set_ptpl_def split: if_splits)
      then show ?thesis using None keys ok room by (auto simp: ns_register_def a_register_def intro: implements_unchanged)
    next
      case (Some x)
      then obtain ns1 upd where sp: "set_ptpl cmd ns = Some (ns1, upd)" by (cases x) auto
      note same = set_ptpl_ok [OF sp]
      have free: "\<not> (cptpl cmd = 3 \<and> \<not> ptpl_file ns)" using sp by (auto simp: set_ptpl_def split: if_splits)
      have pre1: "cmd_pre n ns1 cs" using pre same by simp
      have "implements n h ns1 (a_register (\<not> ptpl_file ns) om h cmd (abs_ns ns1)) (ns_register om fl h cmd ns cs)"
        using register_key_ok [OF pre1 keys _ free, of h om upd] unregister_key_ok [OF pre1 keys _ free, of h om fl upd]
          replace_key_ok [OF pre1 keys _ free, of h om upd]
          implements_unchanged [of ns1 "a_register (\<not> ptpl_file ns) om h cmd (abs_ns ns1)" SC_INVALID_FIELD n cs h upd]
          sp keys free ok room same(5)
        by (auto simp: ns_register_def a_register_def)
      then show ?thesis using implements_via [OF same(1-3)] same(4) by simp
    qed
  qed
qed


section \<open>Acquire\<close>

definition exit_ok :: "spdk_nvmf_ns \<Rightarrow> resv_abs \<times> nat \<Rightarrow> acquire_exit option \<Rightarrow> bool" where
  "exit_ok ns spec r \<longleftrightarrow> (\<exists>ns' st upd rel hosts. r = Some (ns', st, upd, rel, hosts) \<and> resv_ok ns' \<and>
     (abs_ns ns', st) = spec \<and> set (map hostid (registrants ns')) \<subseteq> set (map hostid (registrants ns)) \<and>
     length (registrants ns') \<le> length (registrants ns) \<and> length hosts \<le> MAX_NUM_REGISTRANTS \<and>
     same_ns ns ns' \<and> (\<not> upd \<longrightarrow> resv_same ns ns'))"

lemma exit_okI:
  "resv_ok ns' \<Longrightarrow> (abs_ns ns', st) = spec \<Longrightarrow> set (map hostid (registrants ns')) \<subseteq> set (map hostid (registrants ns)) \<Longrightarrow>
   length (registrants ns') \<le> length (registrants ns) \<Longrightarrow> length hosts \<le> MAX_NUM_REGISTRANTS \<Longrightarrow> same_ns ns ns' \<Longrightarrow>
   (\<not> upd \<Longrightarrow> resv_same ns ns') \<Longrightarrow> exit_ok ns spec (Some (ns', st, upd, rel, hosts))"
  by (auto simp: exit_ok_def)

lemma exit_unchanged:
  "resv_ok ns \<Longrightarrow> spec = (abs_ns ns, st) \<Longrightarrow> length hosts \<le> MAX_NUM_REGISTRANTS \<Longrightarrow>
   exit_ok ns spec (Some (ns, st, upd, rel, hosts))"
  by (rule exit_okI) (auto simp: resv_same_def)

lemma is_holder_abs:
  assumes "resv_ok ns" and "r \<in> set (registrants ns)"
  shows "registrant_is_holder ns r \<longleftrightarrow> a_is_holder (hostid r) (abs_ns ns)"
proof (cases "holder ns")
  case None
  then show ?thesis using a_holder_none [OF None]
    by (simp add: registrant_is_holder_def a_is_holder_def all_registrants_type_all)
next
  case (Some p)
  obtain h where h: "h \<in> set (registrants ns)" "ptr h = p" using find_ptr_holder [OF assms(1) Some] by blast
  then have "a_holder (abs_ns ns) = (if all_type (rtype ns) then None else Some (hostid h))"
    using a_holder_abs [OF assms(1) _ h(1)] Some by simp
  moreover have "ptr h = ptr r \<longleftrightarrow> hostid h = hostid r" using resv_ok_distinct [OF assms h(1)] by simp
  ultimately show ?thesis using Some h by (simp add: registrant_is_holder_def a_is_holder_def all_registrants_type_all)
qed

lemma acquire_reservation_ok:
  assumes "resv_ok ns" and "r \<in> set (registrants ns)" and "holder ns = None" and "t \<le> EXCLUSIVE_ACCESS_ALL_REGS"
  obtains ns' where "acquire_reservation ns k t r = Some ns'" "resv_ok ns'" "abs_ns ns' = a_take (hostid r) k t (abs_ns ns)"
    "registrants ns' = registrants ns" "same_ns ns ns'"
proof -
  define ns' where "ns' = ns\<lparr>rtype := t, crkey := k, holder := Some (ptr r)\<rparr>"
  have ok: "resv_ok ns'" using assms by (simp add: resv_ok_def ns'_def)
  have "h = r" if "ptr h = ptr r" "h \<in> set (registrants ns)" for h
    using that resv_ok_distinct(1) [OF assms(1,2)] by blast
  then have "abs_ns ns' = a_take (hostid r) k t (abs_ns ns)"
    using ok by (intro abs_eqI) (auto simp: ns'_def a_take_def)
  then show thesis using that ok assms(3) by (simp add: ns'_def acquire_reservation_def same_ns_def)
qed

lemma do_acquire_ok:
  assumes "resv_ok ns" and "r \<in> set (registrants ns)" and "t \<le> EXCLUSIVE_ACCESS_ALL_REGS"
  shows "exit_ok ns (if a_is_holder (hostid r) (abs_ns ns) \<and> a_type (abs_ns ns) = t then (abs_ns ns, SC_SUCCESS)
      else if \<not> a_held (abs_ns ns) then (a_take (hostid r) k t (abs_ns ns), SC_SUCCESS)
      else (abs_ns ns, SC_RESERVATION_CONFLICT)) (do_acquire r k t ns)"
proof (cases "registrant_is_holder ns r \<and> rtype ns = t")
  case True
  then show ?thesis using assms(1) is_holder_abs [OF assms(1,2)] by (auto simp: do_acquire_def intro!: exit_unchanged)
next
  case not_mine: False
  show ?thesis
  proof (cases "holder ns = None")
    case True
    obtain ns' where "acquire_reservation ns k t r = Some ns'" "resv_ok ns'" "abs_ns ns' = a_take (hostid r) k t (abs_ns ns)"
      "registrants ns' = registrants ns" "same_ns ns ns'" by (rule acquire_reservation_ok [OF assms(1,2) True assms(3)])
    then show ?thesis using not_mine True is_holder_abs [OF assms(1,2)] by (auto simp: do_acquire_def intro!: exit_okI del: subsetI)
  next
    case False
    then show ?thesis using not_mine assms(1) is_holder_abs [OF assms(1,2)] by (auto simp: do_acquire_def intro!: exit_unchanged)
  qed
qed

lemma remove_each_none: "filter P rs = [] \<Longrightarrow> remove_each P rs ns = Some (0, ns)"
  by (induction rs) (auto split: if_splits)

lemma self_preempt_ok:
  assumes "resv_ok ns" and "r \<in> set (registrants ns)" and "holder ns = Some (ptr r)" and "t \<le> EXCLUSIVE_ACCESS_ALL_REGS"
  shows "resv_ok (ns\<lparr>rtype := t\<rparr>)"
    and "abs_ns (ns\<lparr>rtype := t\<rparr>) = abs_ns ns\<lparr>a_type := t, a_holder := (if all_type t then None else Some (hostid r))\<rparr>"
proof -
  show ok: "resv_ok (ns\<lparr>rtype := t\<rparr>)" using assms by (simp add: resv_ok_def)
  have "h = r" if "ptr h = ptr r" "h \<in> set (registrants ns)" for h
    using that resv_ok_distinct(1) [OF assms(1,2)] by blast
  then show "abs_ns (ns\<lparr>rtype := t\<rparr>) = abs_ns ns\<lparr>a_type := t, a_holder := (if all_type t then None else Some (hostid r))\<rparr>"
    using ok assms(3) by (intro abs_eqI) auto
qed

lemma take_over_ok:
  assumes "resv_ok ns" and "r \<in> set (registrants ns)" and "holder ns = Some p" and "p \<noteq> ptr r"
    and "\<not> all_type (rtype ns)" and "t \<le> EXCLUSIVE_ACCESS_ALL_REGS"
  obtains h ns1 ns' where "find_ptr ns (holder ns) = Some h" "remove_registrant ns h = Some ns1"
    "acquire_reservation ns1 k t r = Some ns'" "resv_ok ns'"
    "abs_ns ns' = a_take (hostid r) k t (a_drop (set_option (a_holder (abs_ns ns))) (abs_ns ns))"
    "set (map hostid (registrants ns')) \<subseteq> set (map hostid (registrants ns))"
    "length (registrants ns') \<le> length (registrants ns)" "same_ns ns ns'"
proof -
  obtain h where h: "find_ptr ns (Some p) = Some h" "h \<in> set (registrants ns)" "ptr h = p"
    by (rule find_ptr_holder [OF assms(1,3)])
  obtain ns1 where one: "remove_registrant ns h = Some ns1" "resv_ok ns1"
    "registrants ns1 = filter (\<lambda>x. ptr x \<noteq> ptr h) (registrants ns)"
    "abs_ns ns1 = a_drop {hostid h} (abs_ns ns)" "same_ns ns ns1" by (rule remove_registrant_ok [OF assms(1) h(2)])
  have hold: "a_holder (abs_ns ns) = Some (hostid h)" using a_holder_abs [OF assms(1) _ h(2)] assms(3,5) h(3) by simp
  have "a_held (abs_ns ns1) = False" using assms(3,5) hold unfolding one(4) by (simp add: a_drop_def a_release_def Let_def)
  then have free: "holder ns1 = None" by simp
  have r: "r \<in> set (registrants ns1)" using assms(2,4) h(3) one(3) by simp
  obtain ns' where "acquire_reservation ns1 k t r = Some ns'" "resv_ok ns'" "abs_ns ns' = a_take (hostid r) k t (abs_ns ns1)"
    "registrants ns' = registrants ns1" "same_ns ns1 ns'" by (rule acquire_reservation_ok [OF one(2) r free assms(6)])
  with h one hold assms(3) show thesis
    by (intro that [of h ns1 ns']) (auto intro: same_ns_trans [OF one(5)])
qed


lemma drop_by_key_ok:
  assumes "resv_ok ns"
  obtains n ns' where "remove_registrants_by_key ns k = Some (n, ns')" "n = 0 \<longleftrightarrow> with_key k (abs_ns ns) = {}"
    "n = 0 \<longrightarrow> ns' = ns" "resv_ok ns'" "abs_ns ns' = a_drop (with_key k (abs_ns ns)) (abs_ns ns)"
    "set (map hostid (registrants ns')) \<subseteq> set (map hostid (registrants ns))"
    "length (registrants ns') \<le> length (registrants ns)" "same_ns ns ns'"
proof -
  let ?m = "filter (\<lambda>r. rkey r = k) (registrants ns)"
  obtain ns' where run: "remove_registrants_by_key ns k = Some (length ?m, ns')" "resv_ok ns'"
    "registrants ns' = filter (\<lambda>r. rkey r \<noteq> k) (registrants ns)"
    "abs_ns ns' = a_drop (with_key k (abs_ns ns)) (abs_ns ns)" "same_ns ns ns'"
    by (rule remove_by_key_ok [OF assms])
  have "length ?m = 0 \<longleftrightarrow> with_key k (abs_ns ns) = {}" by (auto simp: with_key_abs [OF assms] filter_empty_conv)
  moreover have "ns' = ns" if "length ?m = 0"
    using run(1) remove_each_none [of "\<lambda>r. rkey r = k" "registrants ns" ns] that by (simp add: remove_registrants_by_key_def)
  ultimately show thesis using run by (intro that [of "length ?m" ns']) auto
qed

lemma do_preempt_ok:
  assumes pre: "cmd_pre n ns cs" and r: "r \<in> set (registrants ns)" and t: "t \<le> EXCLUSIVE_ACCESS_ALL_REGS"
  shows "exit_ok ns (a_preempt (hostid r) k pk t (abs_ns ns)) (do_preempt (hostid r) r k pk t ns)"
proof -
  have ok: "resv_ok ns" using pre by (simp add: cmd_pre_def)
  obtain hs where hs: "get_all_other_hostid ns (hostid r) = Some hs" "length hs \<le> 16"
    using other_hosts_ok pre by (auto simp: cmd_pre_def)
  obtain c nk where bk: "remove_registrants_by_key ns pk = Some (c, nk)" "c = 0 \<longleftrightarrow> with_key pk (abs_ns ns) = {}"
    "c = 0 \<longrightarrow> nk = ns" "resv_ok nk" "abs_ns nk = a_drop (with_key pk (abs_ns ns)) (abs_ns ns)"
    "set (map hostid (registrants nk)) \<subseteq> set (map hostid (registrants ns))"
    "length (registrants nk) \<le> length (registrants ns)" "same_ns ns nk"
    by (rule drop_by_key_ok [OF ok])
  consider (free) "holder ns = None" | (all) p where "holder ns = Some p" "all_type (rtype ns)"
    | (self) "holder ns = Some (ptr r)" "\<not> all_type (rtype ns)" "crkey ns = pk"
    | (other) p where "holder ns = Some p" "p \<noteq> ptr r" "\<not> all_type (rtype ns)" "crkey ns = pk"
    | (keyed) p where "holder ns = Some p" "\<not> all_type (rtype ns)" "crkey ns \<noteq> pk" by fastforce
  then show ?thesis
  proof cases
    case free
    then show ?thesis using bk by (simp add: do_preempt_def a_preempt_def) (intro exit_okI; simp)
  next
    case all
    show ?thesis
    proof (cases "pk = 0")
      case True
      obtain m ns' where ro: "remove_all_other_registrants ns r = Some (m, ns')" "resv_ok ns'"
        "registrants ns' = [r]" "abs_ns ns' = a_drop (- {hostid r}) (abs_ns ns)" "same_ns ns ns'"
        by (rule remove_all_other_ok [OF ok r])
      have "a_regs (abs_ns ns') = regs_map [r]" using ro(3) by simp
      then have "a_regs (abs_ns ns) |` (- (- {hostid r})) \<noteq> Map.empty"
        using ro(4) by (auto simp: a_drop_def a_release_def Let_def split: if_splits)
      then have "a_held (abs_ns ns')" using all unfolding ro(4) by (simp add: a_drop_def Let_def)
      then have "holder ns' = Some (ptr r)" using ro(2,3) by (auto simp: resv_ok_def split: option.splits)
      then show ?thesis using all True ro hs r
        by (auto simp: do_preempt_def preempt_all_def a_preempt_def all_registrants_type_all Suc_le_eq intro!: exit_okI del: subsetI)
    next
      case False
      then show ?thesis using all bk hs ok
        by (cases "c = 0") (auto simp: do_preempt_def preempt_all_def a_preempt_def all_registrants_type_all intro!: exit_okI exit_unchanged del: subsetI)
    qed
  next
    case self
    have "a_holder (abs_ns ns) = Some (hostid r)" using a_holder_abs [OF ok self(1) r] self(2) by simp
    then show ?thesis using self hs self_preempt_ok [OF ok r self(1) t]
      by (auto simp: do_preempt_def preempt_single_def a_preempt_def all_registrants_type_all registrant_is_holder_def
          same_ns_def intro!: exit_okI del: subsetI)
  next
    case other
    obtain h ns1 ns' where tk: "find_ptr ns (holder ns) = Some h" "remove_registrant ns h = Some ns1"
      "acquire_reservation ns1 k t r = Some ns'" "resv_ok ns'"
      "abs_ns ns' = a_take (hostid r) k t (a_drop (set_option (a_holder (abs_ns ns))) (abs_ns ns))"
      "set (map hostid (registrants ns')) \<subseteq> set (map hostid (registrants ns))"
      "length (registrants ns') \<le> length (registrants ns)" "same_ns ns ns'"
      by (rule take_over_ok [OF ok r other(1-3) t])
    have "a_holder (abs_ns ns) \<noteq> Some (hostid r)"
      using is_holder_abs [OF ok r] other by (simp add: registrant_is_holder_def a_is_holder_def all_registrants_type_all)
    then show ?thesis using other hs tk
      by (auto simp: do_preempt_def preempt_single_def a_preempt_def all_registrants_type_all registrant_is_holder_def intro!: exit_okI del: subsetI)
  next
    case keyed
    then show ?thesis using bk hs ok
      by (cases "pk = 0") (auto simp: do_preempt_def preempt_single_def a_preempt_def all_registrants_type_all intro!: exit_okI exit_unchanged del: subsetI)
  qed
qed


lemma acquire_body_ok:
  assumes pre: "cmd_pre n ns cs"
  shows "exit_ok ns (a_acquire h cmd (abs_ns ns)) (acquire_body h cmd ns)"
proof -
  have ok: "resv_ok ns" using pre by (simp add: cmd_pre_def)
  show ?thesis
  proof (cases "keys cmd")
    case None
    then show ?thesis using ok by (auto simp: acquire_body_def a_acquire_def intro!: exit_unchanged)
  next
    case (Some kk)
    then obtain k pk where keys: "keys cmd = Some (k, pk)" by (cases kk) auto
    show ?thesis
    proof (cases "iekey cmd \<or> cmd_rtype cmd > 6")
      case True
      then show ?thesis using ok keys by (auto simp: acquire_body_def a_acquire_def intro!: exit_unchanged)
    next
      case valid: False
      show ?thesis
      proof (cases rule: registrant_cases [of ns h])
        case absent
        then show ?thesis using ok keys valid by (auto simp: acquire_body_def a_acquire_def intro!: exit_unchanged)
      next
        case (present r)
        then show ?thesis using ok keys valid do_acquire_ok [OF ok present(2), of "cmd_rtype cmd" k]
            do_preempt_ok [OF pre present(2), of "cmd_rtype cmd" k pk]
          by (auto simp: acquire_body_def a_acquire_def intro!: exit_unchanged)
      qed
    qed
  qed
qed

lemma unregistered_le: "length (get_unregistered_hostid old rem) \<le> length old"
  by (simp add: get_unregistered_hostid_def)

lemma ns_acquire_ok:
  assumes pre: "cmd_pre n ns cs"
  shows "implements n h ns (a_acquire h cmd (abs_ns ns)) (ns_acquire fl h cmd ns cs)"
proof -
  obtain ns' st upd rel hosts where body: "acquire_body h cmd ns = Some (ns', st, upd, rel, hosts)" "resv_ok ns'"
    "(abs_ns ns', st) = a_acquire h cmd (abs_ns ns)" "set (map hostid (registrants ns')) \<subseteq> set (map hostid (registrants ns))"
    "length (registrants ns') \<le> length (registrants ns)" "length hosts \<le> 16" "same_ns ns ns'" "\<not> upd \<longrightarrow> resv_same ns ns'"
    using acquire_body_ok [OF pre, of h cmd] by (auto simp: exit_ok_def)
  have "length (registrants ns') \<le> MAX_NUM_REGISTRANTS" using body(5) pre by (simp add: cmd_pre_def)
  then obtain rest where rest: "get_all_other_hostid ns' h = Some rest" "length rest \<le> 16"
    by (rule other_hosts_ok)
  let ?gone = "get_unregistered_hostid hosts rest"
  have room: "notify_room (n + 16 + 16) cs" using pre by (auto simp: cmd_pre_def elim: notify_room_mono)
  have "length ?gone \<le> 16" using unregistered_le [of hosts rest] body(6) by linarith
  then obtain cs1 where cs1: "(if ?gone \<noteq> [] then gen_ctrlr_notification fl ns' ?gone REGISTRATION_PREEMPTED cs else Some cs) = Some cs1"
    "notify_room (n + 16) cs1" using optional_notification_ok [OF room] by blast
  obtain cs2 where cs2: "(if rel \<and> rest \<noteq> [] then gen_ctrlr_notification fl ns' rest RESERVATION_RELEASED cs1 else Some cs1) = Some cs2"
    "notify_room n cs2" using optional_notification_ok [OF cs1(2) rest(2)] by blast
  define cs' where "cs' = (if upd \<and> action cmd = 1 then cs2 else cs)"
  have "ns_acquire fl h cmd ns cs = Some (ns', cs', st, upd)"
    using body(1) rest(1) cs1(1) cs2(1) by (simp add: ns_acquire_def Let_def cs'_def)
  moreover have "notify_room n cs'" using cs2(2) cmd_pre_room [OF pre] by (simp add: cs'_def)
  ultimately show ?thesis using body
    by (auto simp: same_ns_def intro!: implementsI)
qed

section \<open>Release\<close>

lemma release_reservation_ok:
  assumes "resv_ok ns"
  shows "resv_ok (release_reservation ns)" and "abs_ns (release_reservation ns) = a_release (abs_ns ns)"
    and "registrants (release_reservation ns) = registrants ns" and "same_ns ns (release_reservation ns)"
  using assms by (simp_all add: resv_ok_def release_reservation_def abs_ns_def a_release_def find_ptr_def same_ns_def all_type_def)

lemma do_release_ok:
  assumes pre: "cmd_pre n ns cs" and r: "r \<in> set (registrants ns)" and hs: "length hs \<le> MAX_NUM_REGISTRANTS"
  shows "implements n (hostid r) ns
    (if \<not> a_held (abs_ns ns) then (abs_ns ns, SC_SUCCESS)
     else if a_type (abs_ns ns) \<noteq> t then (abs_ns ns, SC_INVALID_FIELD)
     else if a_is_holder (hostid r) (abs_ns ns) then (a_release (abs_ns ns), SC_SUCCESS)
     else (abs_ns ns, SC_SUCCESS)) (do_release fl r hs t ns cs)"
proof -
  have ok: "resv_ok ns" and room: "notify_room n cs" using pre cmd_pre_room by (auto simp: cmd_pre_def)
  note rel = release_reservation_ok [OF ok]
  show ?thesis
  proof (cases "holder ns = None \<or> rtype ns \<noteq> t \<or> \<not> registrant_is_holder ns r")
    case True
    then show ?thesis using ok room is_holder_abs [OF ok r] by (auto simp: do_release_def intro!: implements_unchanged)
  next
    case False
    define b where "b \<longleftrightarrow> hs \<noteq> [] \<and> rtype ns \<noteq> WRITE_EXCLUSIVE \<and> rtype ns \<noteq> EXCLUSIVE_ACCESS"
    have "notify_room (n + 16) cs" using pre by (auto simp: cmd_pre_def elim: notify_room_mono)
    then obtain cs' where cs': "(if b then gen_ctrlr_notification fl (release_reservation ns) hs RESERVATION_RELEASED cs else Some cs) = Some cs'"
      "notify_room n cs'" using optional_notification_ok [OF _ hs] by blast
    have run: "do_release fl r hs t ns cs = Some (release_reservation ns, cs', SC_SUCCESS, True)"
      using False cs'(1) by (auto simp: do_release_def b_def Let_def)
    show ?thesis unfolding run using False rel cs'(2) is_holder_abs [OF ok r]
      by (intro implementsI) (auto simp: same_ns_def)
  qed
qed

lemma do_clear_ok:
  assumes pre: "cmd_pre n ns cs" and hs: "length hs \<le> MAX_NUM_REGISTRANTS"
  shows "implements n h ns (a_release (abs_ns ns\<lparr>a_regs := Map.empty\<rparr>), SC_SUCCESS) (do_clear fl hs ns cs)"
proof -
  have ok: "resv_ok ns" using pre by (simp add: cmd_pre_def)
  obtain m ns' where cl: "clear_all_registrants ns = Some (m, ns')" "resv_ok ns'" "registrants ns' = []"
    "abs_ns ns' = a_release (abs_ns ns\<lparr>a_regs := Map.empty\<rparr>)" "same_ns ns ns'" by (rule clear_all_ok [OF ok])
  have "notify_room (n + 16) cs" using pre by (auto simp: cmd_pre_def elim: notify_room_mono)
  then obtain cs' where cs': "(if hs \<noteq> [] then gen_ctrlr_notification fl ns' hs RESERVATION_PREEMPTED cs else Some cs) = Some cs'"
    "notify_room n cs'" using optional_notification_ok [OF _ hs] by blast
  have "do_clear fl hs ns cs = Some (ns', cs', SC_SUCCESS, True)" using cl(1) cs'(1) by (simp add: do_clear_def)
  then show ?thesis using cl cs'(2) by (auto simp: same_ns_def intro!: implementsI)
qed

lemma ns_release_ok:
  assumes pre: "cmd_pre n ns cs"
  shows "implements n h ns (a_release_cmd h cmd (abs_ns ns)) (ns_release fl h cmd ns cs)"
proof -
  have ok: "resv_ok ns" and room: "notify_room n cs" using pre cmd_pre_room by (auto simp: cmd_pre_def)
  show ?thesis
  proof (cases "keys cmd")
    case None
    then show ?thesis using ok room by (auto simp: ns_release_def a_release_cmd_def intro!: implements_unchanged)
  next
    case (Some kk)
    then obtain k x where keys: "keys cmd = Some (k, x)" by (cases kk) auto
    show ?thesis
    proof (cases rule: registrant_cases [of ns h])
      case absent
      then show ?thesis using ok room keys by (auto simp: ns_release_def a_release_cmd_def intro!: implements_unchanged)
    next
      case (present r)
      obtain hs where hs: "get_all_other_hostid ns h = Some hs" "length hs \<le> 16"
        using other_hosts_ok pre by (auto simp: cmd_pre_def)
      show ?thesis using present ok room keys hs do_release_ok [OF pre present(2) hs(2), of "cmd_rtype cmd" fl]
          do_clear_ok [OF pre hs(2), of h fl]
        by (auto simp: ns_release_def a_release_cmd_def intro!: implements_unchanged)
    qed
  qed
qed


section \<open>Requests\<close>

definition a_step :: "bool \<Rightarrow> bool \<Rightarrow> uuid \<Rightarrow> resv_cmd \<Rightarrow> resv_abs \<Rightarrow> resv_abs \<times> nat" where
  "a_step no_file no_mem h cmd a =
     (if opc cmd = OPC_RESERVATION_REGISTER then a_register no_file no_mem h cmd a
      else if opc cmd = OPC_RESERVATION_ACQUIRE then a_acquire h cmd a
      else if opc cmd = OPC_RESERVATION_RELEASE then a_release_cmd h cmd a
      else (a, SC_SUCCESS))"

lemma resv_command_ok:
  assumes "cmd_pre n ns cs"
  shows "implements n h ns (a_step (\<not> ptpl_file ns) (oom e) h cmd (abs_ns ns)) (resv_command e h cmd ns cs)"
  using assms ns_register_ok ns_acquire_ok ns_release_ok cmd_pre_room [OF assms]
    implements_unchanged [of ns "(abs_ns ns, SC_SUCCESS)" SC_SUCCESS n cs h False]
  by (simp add: resv_command_def a_step_def cmd_pre_def)

lemma update_reservation_info_ok:
  assumes "resv_ok ns" and "length (registrants ns) \<le> MAX_NUM_REGISTRANTS"
  shows "\<exists>rc file'. update_reservation_info fmt put ns file = Some (rc, file')"
proof (cases "bdev ns")
  case None
  then show ?thesis by (simp add: update_reservation_info_def)
next
  case (Some b)
  have "reservation_info_of fmt b ns \<noteq> None"
  proof (cases "holder ns")
    case None
    then show ?thesis using assms by (simp add: reservation_info_of_def resv_ok_def)
  next
    case (Some p)
    then obtain h where "find_ptr ns (Some p) = Some h" using find_ptr_holder [OF assms(1)] by blast
    then show ?thesis using Some assms(2) by (simp add: reservation_info_of_def)
  qed
  then obtain info where info: "reservation_info_of fmt b ns = Some info" by blast
  obtain rc file' where "reservation_update_json put info file = (rc, file')" by fastforce
  then show ?thesis using Some info by (simp add: update_reservation_info_def)
qed

lemma few_hosts:
  assumes "resv_ok ns" and "hostid ` set (registrants ns) \<subseteq> H" and "finite H" and "card H \<le> MAX_NUM_REGISTRANTS"
  shows "length (registrants ns) \<le> MAX_NUM_REGISTRANTS"
proof -
  have "length (registrants ns) = card (set (map hostid (registrants ns)))"
    using assms(1) distinct_card [of "map hostid (registrants ns)"] by (simp add: resv_ok_def)
  also have "\<dots> \<le> card H" using assms(2,3) by (intro card_mono) auto
  finally show ?thesis using assms(4) by simp
qed

lemma resv_request_ok:
  assumes "resv_ok (s_ns s)" and "length (registrants (s_ns s)) \<le> MAX_NUM_REGISTRANTS"
    and "notify_room (n + 2 * MAX_NUM_REGISTRANTS) (s_ctrlrs s)"
    and "finite H" and "card H \<le> MAX_NUM_REGISTRANTS" and "insert h (hostid ` set (registrants (s_ns s))) \<subseteq> H"
  shows "\<exists>s' st upd. ns_reservation_request fmt e h cmd s = Some (s', st, upd) \<and> resv_ok (s_ns s') \<and>
    hostid ` set (registrants (s_ns s')) \<subseteq> H \<and> notify_room n (s_ctrlrs s') \<and>
    ptpl_file (s_ns s') = ptpl_file (s_ns s) \<and> (\<not> upd \<longrightarrow> resv_same (s_ns s) (s_ns s')) \<and>
    abs_ns (s_ns s') = fst (a_step (\<not> ptpl_file (s_ns s)) (oom e) h cmd (abs_ns (s_ns s))) \<and>
    (st = snd (a_step (\<not> ptpl_file (s_ns s)) (oom e) h cmd (abs_ns (s_ns s))) \<or>
     st = SC_INTERNAL_DEVICE_ERROR \<and> (\<exists>f g. fst (put_file e f g) \<noteq> 0))"
proof -
  have "cmd_pre n (s_ns s) (s_ctrlrs s)" using assms(1-3) by (simp add: cmd_pre_def)
  from resv_command_ok [OF this, where e = e and h = h and cmd = cmd] obtain ns' cs' st upd where
    run: "resv_command e h cmd (s_ns s) (s_ctrlrs s) = Some (ns', cs', st, upd)" "resv_ok ns'" "notify_room n cs'"
    "(abs_ns ns', st) = a_step (\<not> ptpl_file (s_ns s)) (oom e) h cmd (abs_ns (s_ns s))"
    "hostid ` set (registrants ns') \<subseteq> insert h (hostid ` set (registrants (s_ns s)))"
    "ptpl_file ns' = ptpl_file (s_ns s)" "\<not> upd \<longrightarrow> resv_same (s_ns s) ns'"
    by (auto simp: implements_def)
  have H: "hostid ` set (registrants ns') \<subseteq> H" using run(5) assms(6) by blast
  obtain rc file' where upd: "update_reservation_info fmt (put_file e) ns' (s_file s) = Some (rc, file')"
    using update_reservation_info_ok [OF run(2) few_hosts [OF run(2) H assms(4,5)]] by blast
  have "\<exists>f g. fst (put_file e f g) \<noteq> 0" if "rc \<noteq> 0"
    using upd that by (auto simp: update_reservation_info_def reservation_update_json_def split: option.splits if_splits)
      (metis fst_conv)+
  then show ?thesis
    using run(1-4,6,7) upd H
    by (cases "a_step (\<not> ptpl_file (s_ns s)) (oom e) h cmd (abs_ns (s_ns s))") (auto simp: ns_reservation_request_def)
qed

text \<open>A history of requests: the surroundings, the host and the command of each.\<close>

type_synonym request = "resv_env \<times> uuid \<times> resv_cmd"

definition resv_step :: "(uuid \<Rightarrow> string) \<Rightarrow> request \<Rightarrow> resv_state \<Rightarrow> resv_state option" where
  "resv_step fmt r s = map_option fst (ns_reservation_request fmt (fst r) (fst (snd r)) (snd (snd r)) s)"

definition a_history :: "bool \<Rightarrow> request list \<Rightarrow> resv_abs \<Rightarrow> resv_abs" where
  "a_history no_file reqs a = foldl (\<lambda>a (e, h, cmd). fst (a_step no_file (oom e) h cmd a)) a reqs"

end
