(* ===== verification/Nvmf_Resv_Run.thy ===== *)
theory Nvmf_Resv_Run
  imports Nvmf_Resv_Cmds
begin

text \<open>
  Properties of reservation requests: histories of requests refine the abstract commands, failed
  requests change nothing, and two behaviours at the edges.
\<close>

text \<open>
  C3. Any sequence of reservation requests issued by at most 16 hosts is handled without a failed
  assertion, a dangling pointer or a write outside an array; the registrant list stays well
  formed, and the resulting registrations and reservation are those of the abstract commands
  applied in the same order.
\<close>

theorem reservation_refines:
  assumes "resv_ok (s_ns s)" and "finite H" and "card H \<le> MAX_NUM_REGISTRANTS"
    and "hostid ` set (registrants (s_ns s)) \<subseteq> H" and "\<forall>r \<in> set reqs. fst (snd r) \<in> H"
    and "notify_room (2 * MAX_NUM_REGISTRANTS * length reqs) (s_ctrlrs s)"
  shows "\<exists>s'. foldM (resv_step fmt) reqs s = Some s' \<and> resv_ok (s_ns s') \<and>
           abs_ns (s_ns s') = a_history (\<not> ptpl_file (s_ns s)) reqs (abs_ns (s_ns s))"
  using assms
proof (induction reqs arbitrary: s)
  case Nil
  then show ?case by (simp add: a_history_def)
next
  case (Cons r reqs)
  obtain e h cmd where r: "r = (e, h, cmd)" by (cases r) auto
  have room: "notify_room (2 * MAX_NUM_REGISTRANTS * length reqs + 2 * MAX_NUM_REGISTRANTS) (s_ctrlrs s)"
    using Cons.prems(6) by (simp add: algebra_simps)
  have ins: "insert h (hostid ` set (registrants (s_ns s))) \<subseteq> H" using Cons.prems(4,5) r by simp
  obtain s1 st upd where one: "ns_reservation_request fmt e h cmd s = Some (s1, st, upd)" "resv_ok (s_ns s1)"
    "hostid ` set (registrants (s_ns s1)) \<subseteq> H" "notify_room (2 * MAX_NUM_REGISTRANTS * length reqs) (s_ctrlrs s1)"
    "ptpl_file (s_ns s1) = ptpl_file (s_ns s)"
    "abs_ns (s_ns s1) = fst (a_step (\<not> ptpl_file (s_ns s)) (oom e) h cmd (abs_ns (s_ns s)))"
    using resv_request_ok [OF Cons.prems(1) few_hosts [OF Cons.prems(1,4,2,3)] room Cons.prems(2,3) ins, of fmt e cmd] by blast
  obtain s' where "foldM (resv_step fmt) reqs s1 = Some s'" "resv_ok (s_ns s')"
    "abs_ns (s_ns s') = a_history (\<not> ptpl_file (s_ns s1)) reqs (abs_ns (s_ns s1))"
    using Cons.IH [OF one(2) Cons.prems(2,3) one(3) _ one(4)] Cons.prems(5) by auto
  moreover have "resv_step fmt r s = Some s1" using one(1) by (simp add: r resv_step_def)
  ultimately show ?case using one(5,6) by (simp add: r a_history_def)
qed


text \<open>A namespace with three hosts, the first of which holds a write-exclusive reservation.\<close>

definition demo_ns :: spdk_nvmf_ns where
  "demo_ns = \<lparr>nsid = 1, ns_mask = 0, gen = 3,
     registrants = [\<lparr>ptr = 0, hostid = 11, rkey = 100\<rparr>, \<lparr>ptr = 1, hostid = 12, rkey = 200\<rparr>, \<lparr>ptr = 2, hostid = 13, rkey = 200\<rparr>],
     crkey = 100, rtype = WRITE_EXCLUSIVE, holder = Some 0, ptpl_file = True, ptpl_activated = True, bdev = Some 7, next_ptr = 3\<rparr>"

definition demo_cmd :: "nat \<Rightarrow> nat \<Rightarrow> u64 \<Rightarrow> u64 \<Rightarrow> resv_cmd" where
  "demo_cmd op act k k2 = \<lparr>opc = op, action = act, iekey = False, cptpl = 0, cmd_rtype = WRITE_EXCLUSIVE, cdw10 = 0, eds = True, keys = Some (k, k2)\<rparr>"

definition demo_env :: resv_env where
  "demo_env = \<lparr>oom = False, noms = (\<lambda>_ _. (False, False)), put_file = (\<lambda>_ new. (0, new))\<rparr>"

definition demo_state :: resv_state where
  "demo_state = \<lparr>s_ns = demo_ns, s_ctrlrs = [fresh_ctrlr], s_file = None\<rparr>"

lemma demo_ok: "resv_ok demo_ns"
  by (simp add: resv_ok_def demo_ns_def)

lemma demo_room: "n < 2 ^ 64 \<Longrightarrow> notify_room n [fresh_ctrlr]"
  using fresh_ctrlr_ok by (simp add: notify_room_def fresh_ctrlr_def)

text \<open>The second host preempts the first.\<close>

lemma demo_history:
  "a_history (\<not> ptpl_file (s_ns demo_state)) [(demo_env, 12, demo_cmd OPC_RESERVATION_ACQUIRE 1 200 100)] (abs_ns (s_ns demo_state))
   = a_take 12 200 WRITE_EXCLUSIVE (a_drop {11} (abs_ns demo_ns))"
proof -
  have "regs_map (registrants demo_ns) 12 = Some 200" "a_holder (abs_ns demo_ns) = Some 11"
    by (simp_all add: demo_ns_def regs_map_def abs_ns_def find_ptr_def all_type_def)
  moreover have "holder demo_ns = Some 0" "rtype demo_ns = WRITE_EXCLUSIVE" "crkey demo_ns = 100" by (simp_all add: demo_ns_def)
  ultimately show ?thesis
    by (simp add: a_history_def a_step_def a_acquire_def demo_cmd_def demo_state_def a_preempt_def all_type_def)
qed

theorem reservation_refines_witness:
  "\<exists>s'. foldM (resv_step (\<lambda>_. [])) [(demo_env, 12, demo_cmd OPC_RESERVATION_ACQUIRE 1 200 100)] demo_state = Some s' \<and>
     a_regs (abs_ns (s_ns s')) 11 = None \<and> a_holder (abs_ns (s_ns s')) = Some 12 \<and> a_key (abs_ns (s_ns s')) = 200"
proof -
  let ?r = "(demo_env, 12, demo_cmd OPC_RESERVATION_ACQUIRE 1 200 100)"
  have "hostid ` set (registrants (s_ns demo_state)) \<subseteq> {11, 12, 13}" "\<forall>r \<in> set [?r]. fst (snd r) \<in> {11, 12, 13}"
    "resv_ok (s_ns demo_state)" "finite {11, 12, 13 :: nat}" "card {11, 12, 13 :: nat} \<le> MAX_NUM_REGISTRANTS"
    using demo_ok by (simp_all add: demo_state_def, simp add: demo_ns_def)
  moreover have "notify_room (2 * MAX_NUM_REGISTRANTS * length [?r]) (s_ctrlrs demo_state)"
    using demo_room [of 32] by (simp add: demo_state_def)
  ultimately obtain s' where s': "foldM (resv_step (\<lambda>_. [])) [?r] demo_state = Some s'"
    "abs_ns (s_ns s') = a_history (\<not> ptpl_file (s_ns demo_state)) [?r] (abs_ns (s_ns demo_state))"
    using reservation_refines [of demo_state "{11, 12, 13}" "[?r]" "\<lambda>_. []"] by blast
  from demo_history have "abs_ns (s_ns s') = a_take 12 200 WRITE_EXCLUSIVE (a_drop {11} (abs_ns demo_ns))" using s'(2) by (rule trans [rotated])
  then have "a_regs (abs_ns (s_ns s')) 11 = None \<and> a_holder (abs_ns (s_ns s')) = Some 12 \<and> a_key (abs_ns (s_ns s')) = 200"
    by (simp only:) (simp add: a_take_def a_drop_def a_release_def Let_def all_type_def)
  from conjI [OF s'(1) this] show ?thesis by (rule exI)
qed

lemma a_register_error: "snd (a_register no_file no_mem h cmd a) \<noteq> SC_SUCCESS \<Longrightarrow> fst (a_register no_file no_mem h cmd a) = a"
  by (cases "keys cmd"; cases "the (keys cmd)"; cases "a_regs a h") (simp_all add: a_register_def split: if_splits)

lemma a_preempt_error: "snd (a_preempt h k pk t a) \<noteq> SC_SUCCESS \<Longrightarrow> fst (a_preempt h k pk t a) = a"
  by (simp add: a_preempt_def split: if_splits)

lemma a_acquire_error: "snd (a_acquire h cmd a) \<noteq> SC_SUCCESS \<Longrightarrow> fst (a_acquire h cmd a) = a"
  by (cases "keys cmd"; cases "the (keys cmd)"; cases "iekey cmd"; cases "cmd_rtype cmd > EXCLUSIVE_ACCESS_ALL_REGS")
    (simp_all add: a_acquire_def a_preempt_error split: if_splits)

lemma a_release_error: "snd (a_release_cmd h cmd a) \<noteq> SC_SUCCESS \<Longrightarrow> fst (a_release_cmd h cmd a) = a"
  by (cases "keys cmd"; cases "the (keys cmd)") (simp_all add: a_release_cmd_def split: if_splits)

lemma a_step_error: "snd (a_step no_file no_mem h cmd a) \<noteq> SC_SUCCESS \<Longrightarrow> fst (a_step no_file no_mem h cmd a) = a"
  by (simp add: a_step_def a_register_error a_acquire_error a_release_error split: if_splits)

text \<open>
  C32. A reservation request that is answered with an error changes neither the registrations nor
  the reservation, as long as the persist file can be written.
\<close>

theorem failed_request_changes_nothing:
  assumes "resv_ok (s_ns s)" and "finite H" and "card H \<le> MAX_NUM_REGISTRANTS"
    and "insert h (hostid ` set (registrants (s_ns s))) \<subseteq> H"
    and "notify_room (2 * MAX_NUM_REGISTRANTS) (s_ctrlrs s)" and "\<forall>f g. fst (put_file e f g) = 0"
    and "ns_reservation_request fmt e h cmd s = Some (s', st, upd)" and "st \<noteq> SC_SUCCESS"
  shows "abs_ns (s_ns s') = abs_ns (s_ns s)"
proof -
  have few: "length (registrants (s_ns s)) \<le> MAX_NUM_REGISTRANTS" using few_hosts [OF assms(1) _ assms(2,3)] assms(4) by auto
  have "notify_room (0 + 2 * MAX_NUM_REGISTRANTS) (s_ctrlrs s)" using assms(5) by simp
  from resv_request_ok [OF assms(1) few this assms(2,3,4), of fmt e cmd]
  have "abs_ns (s_ns s') = fst (a_step (\<not> ptpl_file (s_ns s)) (oom e) h cmd (abs_ns (s_ns s)))"
    "st = snd (a_step (\<not> ptpl_file (s_ns s)) (oom e) h cmd (abs_ns (s_ns s)))" using assms(6,7) by auto
  then show ?thesis using a_step_error assms(8) by metis
qed


theorem failed_request_changes_nothing_witness:
  "\<exists>s' upd. ns_reservation_request (\<lambda>_. []) demo_env 12 (demo_cmd OPC_RESERVATION_ACQUIRE 0 200 0) demo_state
     = Some (s', SC_RESERVATION_CONFLICT, upd) \<and> abs_ns (s_ns s') = abs_ns demo_ns"
proof -
  have pre: "resv_ok (s_ns demo_state)" "finite {11, 12, 13 :: nat}" "card {11, 12, 13 :: nat} \<le> MAX_NUM_REGISTRANTS"
    "insert 12 (hostid ` set (registrants (s_ns demo_state))) \<subseteq> {11, 12, 13}"
    "notify_room (2 * MAX_NUM_REGISTRANTS) (s_ctrlrs demo_state)" "\<forall>f g. fst (put_file demo_env f g) = 0"
    using demo_ok demo_room [of 32] by (simp_all add: demo_state_def demo_env_def, simp add: demo_ns_def)
  have run: "ns_reservation_request (\<lambda>_. []) demo_env 12 (demo_cmd OPC_RESERVATION_ACQUIRE 0 200 0) demo_state
      = Some (demo_state, SC_RESERVATION_CONFLICT, False)"
    by (simp add: ns_reservation_request_def resv_command_def ns_acquire_def acquire_body_def do_acquire_def demo_cmd_def
        demo_state_def demo_ns_def get_registrant_def registrant_is_holder_def all_registrants_type_def)
  have conflict: "SC_RESERVATION_CONFLICT \<noteq> SC_SUCCESS" and ns: "s_ns demo_state = demo_ns" by (simp_all add: demo_state_def)
  have "abs_ns (s_ns demo_state) = abs_ns demo_ns"
    by (rule trans [OF failed_request_changes_nothing [OF pre run conflict] arg_cong [OF ns, of abs_ns]])
  then show ?thesis using run by blast
qed

text \<open>
  C33. The register command has no limit on the number of registrants: when a 17th host registers
  with a namespace that keeps its reservations in a file, the record of 16 entries is overrun.
\<close>

theorem seventeenth_registrant_overruns:
  assumes "length (registrants (s_ns s)) = MAX_NUM_REGISTRANTS" and "get_registrant (s_ns s) h = None"
    and "opc cmd = OPC_RESERVATION_REGISTER" and "action cmd = 0" and "cptpl cmd = 0"
    and "keys cmd = Some (k, nk)" and "nk \<noteq> 0" and "\<not> oom e"
    and "ptpl_file (s_ns s)" and "bdev (s_ns s) = Some b"
  shows "ns_reservation_request fmt e h cmd s = None"
proof -
  let ?ns = "(s_ns s)\<lparr>registrants := registrants (s_ns s) @ [\<lparr>ptr = next_ptr (s_ns s), hostid = h, rkey = nk\<rparr>],
      next_ptr := next_ptr (s_ns s) + 1, gen := gen (s_ns s) + 1\<rparr>"
  have "resv_command e h cmd (s_ns s) (s_ctrlrs s) = Some (?ns, s_ctrlrs s, SC_SUCCESS, True)"
    using assms by (simp add: resv_command_def ns_register_def set_ptpl_def register_key_def add_registrant_def)
  moreover have "reservation_info_of fmt b ?ns = None"
    using assms(1) by (auto simp: reservation_info_of_def split: bind_split)
  ultimately show ?thesis using assms(3,9,10) by (simp add: ns_reservation_request_def update_reservation_info_def)
qed

definition full_ns :: spdk_nvmf_ns where
  "full_ns = demo_ns\<lparr>registrants := map (\<lambda>i. \<lparr>ptr = i, hostid = i + 1, rkey = 5\<rparr>) [0..<16], holder := None, rtype := 0, crkey := 0, next_ptr := 16\<rparr>"

theorem seventeenth_registrant_overruns_witness:
  "resv_ok full_ns \<and>
   ns_reservation_request (\<lambda>_. []) demo_env 40 (demo_cmd OPC_RESERVATION_REGISTER 0 0 9) \<lparr>s_ns = full_ns, s_ctrlrs = [], s_file = None\<rparr> = None"
proof
  show "resv_ok full_ns" by (simp add: full_ns_def resv_ok_def comp_def distinct_map inj_on_def)
  show "ns_reservation_request (\<lambda>_. []) demo_env 40 (demo_cmd OPC_RESERVATION_REGISTER 0 0 9) \<lparr>s_ns = full_ns, s_ctrlrs = [], s_file = None\<rparr> = None"
    by (rule seventeenth_registrant_overruns [where k = 0 and nk = 9 and b = 7])
      (simp_all add: full_ns_def demo_ns_def demo_cmd_def demo_env_def get_registrant_def)
qed

text \<open>
  C34. Preempting registrations while nobody holds a reservation removes the registrants with the
  given key but logs no notice for any controller.
\<close>

theorem preempt_without_holder_is_silent:
  assumes "cmd_pre n ns cs" and "holder ns = None" and "get_registrant ns h = Some r" and "rkey r = k"
    and "opc cmd = OPC_RESERVATION_ACQUIRE" and "action cmd = 1" and "\<not> iekey cmd" and "cmd_rtype cmd \<le> EXCLUSIVE_ACCESS_ALL_REGS"
    and "keys cmd = Some (k, pk)"
  shows "\<exists>ns'. resv_command e h cmd ns cs = Some (ns', cs, SC_SUCCESS, True) \<and>
           registrants ns' = filter (\<lambda>r. rkey r \<noteq> pk) (registrants ns)"
proof -
  have ok: "resv_ok ns" and few: "length (registrants ns) \<le> MAX_NUM_REGISTRANTS" using assms(1) by (simp_all add: cmd_pre_def)
  obtain ns' where rem: "remove_registrants_by_key ns pk = Some (length (filter (\<lambda>r. rkey r = pk) (registrants ns)), ns')"
    "registrants ns' = filter (\<lambda>r. rkey r \<noteq> pk) (registrants ns)" using remove_by_key_ok [OF ok] by metis
  have "length (registrants ns') \<le> MAX_NUM_REGISTRANTS" using few rem(2) by (simp add: le_trans [OF length_filter_le])
  then obtain hs where hs: "get_all_other_hostid ns' h = Some hs" by (rule other_hosts_ok)
  have "acquire_body h cmd ns = Some (ns', SC_SUCCESS, True, False, [])"
    using assms rem by (simp add: acquire_body_def do_preempt_def)
  then show ?thesis using rem(2) hs assms(5,6)
    by (simp add: resv_command_def ns_acquire_def get_unregistered_hostid_def Let_def)
qed

theorem preempt_without_holder_is_silent_witness:
  "\<exists>ns'. resv_command demo_env 11 (demo_cmd OPC_RESERVATION_ACQUIRE 1 100 200) (release_reservation demo_ns) [fresh_ctrlr]
     = Some (ns', [fresh_ctrlr], SC_SUCCESS, True) \<and> length (registrants ns') = 1"
proof -
  let ?ns = "release_reservation demo_ns"
  have "cmd_pre 0 ?ns [fresh_ctrlr]"
    using release_reservation_ok [OF demo_ok] demo_room [of 32] by (simp add: cmd_pre_def demo_ns_def)
  then obtain ns' where "resv_command demo_env 11 (demo_cmd OPC_RESERVATION_ACQUIRE 1 100 200) ?ns [fresh_ctrlr] = Some (ns', [fresh_ctrlr], SC_SUCCESS, True)"
    "registrants ns' = filter (\<lambda>r. rkey r \<noteq> 200) (registrants ?ns)"
    using preempt_without_holder_is_silent [of 0 ?ns "[fresh_ctrlr]" 11 "\<lparr>ptr = 0, hostid = 11, rkey = 100\<rparr>" 100
        "demo_cmd OPC_RESERVATION_ACQUIRE 1 100 200" 200 demo_env]
    by (auto simp: release_reservation_def demo_ns_def get_registrant_def demo_cmd_def)
  then show ?thesis by (simp add: release_reservation_def demo_ns_def)
qed

end
