(* ===== verification/Nvmf_Resv_Store.thy ===== *)
theory Nvmf_Resv_Store
  imports Nvmf_Resv_Run
begin

text \<open>
  What leaves a namespace's reservation: the copy that each poll group checks commands against,
  the record that survives a power loss, and the report given to hosts.
\<close>

section \<open>The access check\<close>

text \<open>
  Who may issue a command: the holder anything; others according to the type of the reservation,
  the class of the command and whether they are registered.
\<close>

definition access_allowed :: "resv_abs \<Rightarrow> uuid \<Rightarrow> resv_cmd \<Rightarrow> bool" where
  "access_allowed a h cmd \<longleftrightarrow>
     (let registered = (a_regs a h \<noteq> None)
      in a_type a = 0 \<or> (all_type (a_type a) \<and> registered) \<or> a_holder a = Some h \<or>
         (if opc cmd \<in> {2, 5}
          then a_type a \<in> {WRITE_EXCLUSIVE, WRITE_EXCLUSIVE_REG_ONLY, WRITE_EXCLUSIVE_ALL_REGS} \<or>
               (a_type a \<in> {EXCLUSIVE_ACCESS_REG_ONLY, EXCLUSIVE_ACCESS_ALL_REGS} \<and> registered)
          else if opc cmd \<in> {0, 1, 4, 8, 9}
          then a_type a \<notin> {WRITE_EXCLUSIVE, EXCLUSIVE_ACCESS} \<and> registered
          else if opc cmd = OPC_RESERVATION_ACQUIRE then action cmd \<noteq> 0 \<and> registered
          else opc cmd = OPC_RESERVATION_RELEASE \<longrightarrow> registered))"

definition in_sync :: "spdk_nvmf_ns \<Rightarrow> pg_ns_info \<Rightarrow> bool" where
  "in_sync ns info \<longleftrightarrow> (\<exists>old. poll_group_update_ns ns old = Some (0, info))"

lemma in_sync_same: "in_sync ns info \<Longrightarrow> resv_same ns ns' \<Longrightarrow> in_sync ns' info"
proof -
  assume sync: "in_sync ns info" and same: "resv_same ns ns'"
  have "poll_group_update_ns ns' = poll_group_update_ns ns"
    using same by (simp add: poll_group_update_ns_def resv_same_def find_ptr_def fun_eq_iff cong: option.case_cong)
  then show ?thesis using sync by (simp add: in_sync_def)
qed

lemma poll_group_update_ok:
  assumes "resv_ok ns" and "length (registrants ns) \<le> MAX_NUM_REGISTRANTS"
  shows "\<exists>info. poll_group_update_ns ns old = Some (0, info)"
proof (cases "holder ns")
  case None
  then show ?thesis using assms(2) by (simp add: poll_group_update_ns_def Let_def)
next
  case (Some p)
  obtain h where "find_ptr ns (Some p) = Some h" by (rule find_ptr_holder [OF assms(1) Some])
  then show ?thesis using Some assms(2) by (simp add: poll_group_update_ns_def Let_def)
qed

lemma in_sync_fields:
  assumes "resv_ok ns" and "in_sync ns info" and "h \<noteq> 0"
  shows "p_rtype info = rtype ns" and "ctrlr_is_registrant info h \<longleftrightarrow> h \<in> hostid ` set (registrants ns)"
    and "rtype ns \<noteq> 0 \<Longrightarrow> \<not> all_type (rtype ns) \<Longrightarrow> p_holder_id info = h \<longleftrightarrow> a_holder (abs_ns ns) = Some h"
    and "all_type (rtype ns) \<Longrightarrow> p_holder_id info = h \<Longrightarrow> h \<in> hostid ` set (registrants ns)"
proof -
  obtain old :: pg_ns_info and hid where info: "info = \<lparr>p_crkey = crkey ns, p_rtype = rtype ns, p_holder_id = hid,
      p_reg_hostid = take MAX_NUM_REGISTRANTS (map hostid (registrants ns) @ replicate MAX_NUM_REGISTRANTS 0)\<rparr>"
    and few: "length (registrants ns) \<le> MAX_NUM_REGISTRANTS"
    and hid: "(case holder ns of None \<Rightarrow> Some (p_holder_id old)
        | Some p \<Rightarrow> (case find_ptr ns (Some p) of None \<Rightarrow> None | Some h \<Rightarrow> Some (hostid h))) = Some hid"
    using assms(2) unfolding in_sync_def poll_group_update_ns_def Let_def
    by (auto simp del: take_append split: if_splits Option.bind_splits)
  show "p_rtype info = rtype ns" by (simp add: info)
  show "ctrlr_is_registrant info h \<longleftrightarrow> h \<in> hostid ` set (registrants ns)"
    using few assms(3) by (auto simp: ctrlr_is_registrant_def info set_replicate_conv_if dest: in_set_takeD)
  have held: "\<exists>g \<in> set (registrants ns). holder ns = Some (ptr g) \<and> hid = hostid g" if "rtype ns \<noteq> 0"
  proof (cases "holder ns")
    case None
    then show ?thesis using assms(1) that by (simp add: resv_ok_def)
  next
    case (Some p)
    obtain g where "find_ptr ns (Some p) = Some g" "g \<in> set (registrants ns)" "ptr g = p"
      by (rule find_ptr_holder [OF assms(1) Some])
    then show ?thesis using Some hid by auto
  qed
  show "p_holder_id info = h \<longleftrightarrow> a_holder (abs_ns ns) = Some h" if "rtype ns \<noteq> 0" "\<not> all_type (rtype ns)"
    using held [OF that(1)] a_holder_abs [OF assms(1)] that(2) by (auto simp: info)
  show "h \<in> hostid ` set (registrants ns)" if "all_type (rtype ns)" "p_holder_id info = h"
    using held that by (auto simp: info all_type_def)
qed

text \<open>
  A poll group whose copy of the reservation is up to date decides every command of a host
  with a non-zero identifier as the reservation itself demands.
\<close>

lemma access_check_faithful:
  assumes "resv_ok ns" and "in_sync ns info" and "h \<noteq> 0"
  shows "reservation_request_check info h cmd =
    (if access_allowed (abs_ns ns) h cmd then SC_SUCCESS else SC_RESERVATION_CONFLICT)"
proof -
  note f = in_sync_fields [OF assms]
  have reg: "a_regs (abs_ns ns) h \<noteq> None \<longleftrightarrow> h \<in> hostid ` set (registrants ns)"
    using regs_map_dom [of "registrants ns" h] by (simp only: abs_ns_fields) blast
  have range: "rtype ns \<le> 6" using assms(1) by (simp add: resv_ok_def)
  have none: "all_type (rtype ns) \<Longrightarrow> a_holder (abs_ns ns) = None" by (simp add: abs_ns_def)
  let ?r = "h \<in> hostid ` set (registrants ns)" and ?p = "p_holder_id info = h"
  show ?thesis
  proof (cases "rtype ns = 0")
    case True
    then show ?thesis using f(1) by (simp add: reservation_request_check_def access_allowed_def Let_def)
  next
    case False
    show ?thesis
    proof (cases "all_type (rtype ns)")
      case True
      then show ?thesis using False f(1,2,4) reg none
        by (auto simp: reservation_request_check_def access_allowed_def Let_def all_type_def)
    next
      case single: False
      have "rtype ns \<in> {1, 2, 3, 4}" using False single range by (auto simp: all_type_def)
      then show ?thesis using False single f(1,2,3) reg
        by (auto simp: reservation_request_check_def access_allowed_def Let_def all_type_def)
    qed
  qed
qed

lemma demo_few: "length (registrants demo_ns) \<le> MAX_NUM_REGISTRANTS"
  by (simp add: demo_ns_def)

section \<open>Handing a change to the poll groups\<close>

text \<open>
  The groups are visited one after the other, the visit ends at the first that fails. A request
  that changed the reservation is answered after the visit; when the context of the visit cannot
  be allocated, it is answered at once and the groups keep their copies.
\<close>

primrec subsystem_update_ns :: "spdk_nvmf_ns \<Rightarrow> pg_ns_info list \<Rightarrow> pg_ns_info list option" where
  "subsystem_update_ns ns [] = Some []"
| "subsystem_update_ns ns (g # gs) = do {
     (rc, g) \<leftarrow> poll_group_update_ns ns g;
     gs \<leftarrow> (if rc \<noteq> 0 then Some gs else subsystem_update_ns ns gs);
     Some (g # gs)
   }"

definition reservation_round :: "(uuid \<Rightarrow> string) \<Rightarrow> (bool \<times> request) \<Rightarrow> resv_state \<times> pg_ns_info list \<Rightarrow> (resv_state \<times> pg_ns_info list) option" where
  "reservation_round fmt r sg = do {
     (s, status, upd) \<leftarrow> ns_reservation_request fmt (fst (snd r)) (fst (snd (snd r))) (snd (snd (snd r))) (fst sg);
     gs \<leftarrow> (if upd \<and> \<not> fst r then subsystem_update_ns (s_ns s) (snd sg) else Some (snd sg));
     Some (s, gs)
   }"

lemma subsystem_update_ns_ok:
  assumes "resv_ok ns" and "length (registrants ns) \<le> MAX_NUM_REGISTRANTS"
  shows "\<exists>gs'. subsystem_update_ns ns gs = Some gs' \<and> length gs' = length gs \<and> (\<forall>g \<in> set gs'. in_sync ns g)"
proof (induction gs)
  case (Cons g gs)
  obtain g' where "poll_group_update_ns ns g = Some (0, g')" using poll_group_update_ok [OF assms] by blast
  then show ?case using Cons by (auto simp: in_sync_def)
qed simp

section \<open>Surviving a power loss\<close>

primrec relabel :: "nat \<Rightarrow> spdk_nvmf_registrant list \<Rightarrow> spdk_nvmf_registrant list" where
  "relabel p [] = []"
| "relabel p (r # rs) = r\<lparr>ptr := p\<rparr> # relabel (p + 1) rs"

lemma relabel_hosts [simp]: "map hostid (relabel p rs) = map hostid rs"
  by (induction rs arbitrary: p) simp_all

lemma relabel_keys [simp]: "map rkey (relabel p rs) = map rkey rs"
  by (induction rs arbitrary: p) simp_all

lemma relabel_length [simp]: "length (relabel p rs) = length rs"
  by (induction rs arbitrary: p) simp_all

lemma relabel_ptrs [simp]: "map ptr (relabel p rs) = [p..<p + length rs]"
  by (induction rs arbitrary: p) (simp_all add: upt_conv_Cons del: upt_Suc)

lemma relabel_regs_map [simp]: "regs_map (relabel p rs) = regs_map rs"
proof
  show "regs_map (relabel p rs) h = regs_map rs h" for h
    by (induction rs arbitrary: p) (auto simp: regs_map_def)
qed

lemma relabel_sets [simp]: "hostid ` set (relabel p rs) = hostid ` set rs" "rkey ` set (relabel p rs) = rkey ` set rs"
  "ptr ` set (relabel p rs) = {p..<p + length rs}"
  by (simp_all flip: set_map)

lemma restore_regs_ok:
  assumes "\<And>u. parse (fmt u) = Some u" and "distinct (map hostid rs)"
  shows "restore_regs parse (\<lambda>_. False) k hu (map (\<lambda>r. (rkey r, fmt (hostid r))) rs) i h ns =
    (True, ns\<lparr>registrants := registrants ns @ relabel (next_ptr ns) rs, next_ptr := next_ptr ns + length rs\<rparr>,
     if k = 0 then h else case find_reg (\<lambda>r. hostid r = hu) (relabel (next_ptr ns) rs) of None \<Rightarrow> h | Some r \<Rightarrow> Some (ptr r))"
  using assms(2)
proof (induction rs arbitrary: i h ns)
  case (Cons r rs)
  have none: "find_reg (\<lambda>x. hostid x = hostid r) (relabel p rs) = None" for p
    using Cons.prems relabel_sets(1) [of p rs] by (simp del: relabel_sets) (metis image_eqI)
  show ?case using Cons by (auto simp: assms(1) Let_def none simp del: find_reg_None)
qed simp

text \<open>The namespace as it is opened again: the same block device, and no registrants yet.\<close>

definition reopened :: "spdk_nvmf_ns \<Rightarrow> bool" where
  "reopened ns \<longleftrightarrow> registrants ns = [] \<and> holder ns = None \<and> rtype ns = 0 \<and> crkey ns = 0"

lemma relabel_ok:
  assumes "resv_ok ns" and "registrants ns' = relabel p (registrants ns)" and "next_ptr ns' = p + length (registrants ns)"
    and "rtype ns' = rtype ns" and "holder ns' = None \<longrightarrow> rtype ns' = 0 \<and> crkey ns' = 0"
    and "\<forall>q. holder ns' = Some q \<longrightarrow> q \<in> ptr ` set (registrants ns')"
  shows "resv_ok ns'"
proof -
  have "ptr r < p + length (registrants ns)" "rkey r \<noteq> 0" if "r \<in> set (relabel p (registrants ns))" for r
  proof -
    have "ptr r \<in> {p..<p + length (registrants ns)}" "rkey r \<in> rkey ` set (registrants ns)"
      using imageI [OF that, of ptr] imageI [OF that, of rkey] by (simp_all only: relabel_sets)
    then show "ptr r < p + length (registrants ns)" "rkey r \<noteq> 0" using assms(1) by (auto simp: resv_ok_def)
  qed
  then show ?thesis using assms by (auto simp: resv_ok_def split: option.split simp del: relabel_sets)
qed

lemma restored_ok:
  assumes "resv_ok ns" and "registrants ns \<noteq> []" and "rtype ns = 0 \<longrightarrow> holder ns = None"
    and "registrants ns' = relabel p (registrants ns)" and "next_ptr ns' = p + length (registrants ns)"
    and "rtype ns' = rtype ns" and "crkey ns' = crkey ns"
    and "holder ns' = (if all_type (rtype ns) then Some p else if rtype ns = 0 then None
       else map_option ptr (find_reg (\<lambda>r. a_holder (abs_ns ns) = Some (hostid r)) (relabel p (registrants ns))))"
  shows "resv_ok ns' \<and> abs_ns ns' = abs_ns ns"
proof (cases "rtype ns = 0")
  case True
  then have none: "holder ns = None" "holder ns' = None" "crkey ns = 0" using assms(1,3,8) by (auto simp: resv_ok_def all_type_def)
  then have "resv_ok ns'" using relabel_ok [OF assms(1,4,5,6)] assms(6,7) True by simp
  then show ?thesis using none assms(4,6,7) True by (simp add: abs_ns_def find_ptr_def)
next
  case held: False
  then obtain q where q: "holder ns = Some q" using assms(1) by (auto simp: resv_ok_def split: option.splits)
  show ?thesis
  proof (cases "all_type (rtype ns)")
    case True
    then have "holder ns' = Some p" "p \<in> ptr ` set (registrants ns')" using assms(2,4,8) by (simp_all)
    then have "resv_ok ns'" using relabel_ok [OF assms(1,4,5,6)] by simp
    then show ?thesis using True q \<open>holder ns' = Some p\<close> assms(4,6,7) by (simp add: abs_ns_def)
  next
    case single: False
    obtain g where g: "g \<in> set (registrants ns)" "ptr g = q" using find_ptr_holder [OF assms(1) q] by blast
    have ah: "a_holder (abs_ns ns) = Some (hostid g)" using a_holder_abs [OF assms(1) _ g(1)] q g(2) single by simp
    have "hostid g \<in> hostid ` set (relabel p (registrants ns))" using g(1) by simp
    then have "find_reg (\<lambda>r. hostid g = hostid r) (relabel p (registrants ns)) \<noteq> None" by (auto simp del: relabel_sets)
    then obtain r where r: "find_reg (\<lambda>r. hostid g = hostid r) (relabel p (registrants ns)) = Some r" by (auto simp del: find_reg_None)
    note rd = find_reg_SomeD [OF r]
    have h': "holder ns' = Some (ptr r)" using assms(8) ah r held single by simp
    have ok: "resv_ok ns'" using relabel_ok [OF assms(1,4,5,6)] h' rd assms(4) by (simp del: relabel_sets)
    have "a_holder (abs_ns ns') = Some (hostid g)"
      using a_holder_abs [OF ok h'] rd assms(4,6) single by simp
    then show ?thesis using ok ah assms(4,6,7) h' q by (intro conjI resv_abs.equality) simp_all
  qed
qed

definition saved_holder :: "(uuid \<Rightarrow> string) \<Rightarrow> spdk_nvmf_ns \<Rightarrow> string" where
  "saved_holder fmt ns = (case a_holder (abs_ns ns) of None \<Rightarrow> [] | Some h \<Rightarrow> if rtype ns = 0 then [] else fmt h)"

lemma a_holder_held:
  assumes "resv_ok ns" and "rtype ns \<noteq> 0" and "\<not> all_type (rtype ns)"
  shows "\<exists>g. a_holder (abs_ns ns) = Some g"
proof -
  obtain q where q: "holder ns = Some q" using assms(1,2) by (auto simp: resv_ok_def split: option.splits)
  obtain g where "find_ptr ns (Some q) = Some g" using find_ptr_holder [OF assms(1) q] by blast
  then show ?thesis using q assms(3) by (simp add: abs_ns_def)
qed

lemma reservation_info_of_ok:
  assumes "resv_ok ns" and "length (registrants ns) \<le> MAX_NUM_REGISTRANTS"
  shows "reservation_info_of fmt b ns = Some \<lparr>i_crkey = (if rtype ns \<noteq> 0 then crkey ns else 0), i_rtype = rtype ns,
     i_ptpl_activated = ptpl_activated ns, i_bdev_uuid = fmt b, i_holder_uuid = saved_holder fmt ns,
     i_registrants = map (\<lambda>r. (rkey r, fmt (hostid r))) (registrants ns)\<rparr>"
proof (cases "rtype ns \<noteq> 0 \<and> \<not> all_type (rtype ns)")
  case True
  then obtain q where q: "holder ns = Some q" using assms(1) by (auto simp: resv_ok_def split: option.splits)
  obtain g where "find_ptr ns (Some q) = Some g" using find_ptr_holder [OF assms(1) q] by blast
  then show ?thesis using True q assms(2)
    by (simp add: reservation_info_of_def saved_holder_def abs_ns_def all_registrants_type_all)
next
  case False
  then show ?thesis using assms(2)
    by (auto simp: reservation_info_of_def saved_holder_def abs_ns_def all_registrants_type_all split: option.split)
qed

lemma reservation_restore_ok:
  assumes "\<And>u. parse (fmt u) = Some u" and "distinct (map hostid rs)" and "rs \<noteq> []"
    and "i_ptpl_activated info" and "i_registrants info = map (\<lambda>r. (rkey r, fmt (hostid r))) rs"
    and "i_crkey info \<noteq> 0 \<longrightarrow> i_crkey info \<in> rkey ` set rs" and "i_bdev_uuid info = fmt b"
    and "bdev ns0 = Some b" and "registrants ns0 = []"
  shows "reservation_restore parse junk (\<lambda>_. False) info ns0 = Some (0, ns0\<lparr>crkey := i_crkey info, rtype := i_rtype info,
     ptpl_activated := True, registrants := relabel (next_ptr ns0) rs, next_ptr := next_ptr ns0 + length rs,
     holder := (if all_type (i_rtype info) then Some (next_ptr ns0) else if i_crkey info = 0 then None
       else map_option ptr (find_reg (\<lambda>r. hostid r = (case parse (i_holder_uuid info) of None \<Rightarrow> snd junk | Some u \<Rightarrow> u)) (relabel (next_ptr ns0) rs)))\<rparr>)"
proof -
  have keys: "fst ` set (i_registrants info) = rkey ` set rs" by (force simp: assms(5))
  have first: "ptr (hd (relabel p rs)) = p" for p using assms(3) by (cases rs) simp_all
  show ?thesis using assms(3,4,6,7,8,9) keys
    by (auto simp: reservation_restore_def assms(1,5) restore_regs_ok [OF assms(1,2)] Let_def all_registrants_type_all first
        split: option.split)
qed


text \<open>UUIDs written in unary: a concrete pair of the text routines.\<close>

definition unary_fmt :: "uuid \<Rightarrow> string" where "unary_fmt u = replicate (u + 1) CHR ''a''"

definition unary_parse :: "string \<Rightarrow> uuid option" where "unary_parse s = (if s = [] then None else Some (length s - 1))"

definition empty_ns :: spdk_nvmf_ns where
  "empty_ns = demo_ns\<lparr>registrants := [], holder := None, rtype := 0, crkey := 0, ptpl_activated := False, next_ptr := 0\<rparr>"

lemma unary_ok: "unary_parse (unary_fmt u) = Some u" "unary_parse [] = None"
  by (simp_all add: unary_parse_def unary_fmt_def)


lemma get_registrant_in:
  assumes "resv_ok ns" and "r \<in> set (registrants ns)"
  shows "get_registrant ns (hostid r) = Some r"
  using find_reg_unique [of hostid "registrants ns" r] assms by (simp add: get_registrant_def resv_ok_def)

text \<open>
  C30. When the holder of a reservation replaces its key, the key recorded with the reservation
  stays the old one. The request succeeds and the file is written, but unless another registrant
  uses the old key, the saved reservation is refused when the namespace is opened again.
\<close>

theorem replaced_key_is_not_restored:
  assumes "resv_ok (s_ns s)" and "length (registrants (s_ns s)) \<le> MAX_NUM_REGISTRANTS" and "r \<in> set (registrants (s_ns s))"
    and "holder (s_ns s) = Some (ptr r)" and "rtype (s_ns s) \<noteq> 0" and "crkey (s_ns s) = rkey r"
    and "\<forall>x \<in> set (registrants (s_ns s)). rkey x = rkey r \<longrightarrow> x = r"
    and "ptpl_file (s_ns s)" and "ptpl_activated (s_ns s)" and "bdev (s_ns s) = Some b" and "put_file e = (\<lambda>_ new. (0, new))"
    and "opc cmd = OPC_RESERVATION_REGISTER" and "action cmd = 2" and "cptpl cmd = 0" and "keys cmd = Some (rkey r, nk)"
    and "nk \<noteq> 0" and "nk \<noteq> rkey r"
  shows "\<exists>s' info. ns_reservation_request fmt e (hostid r) cmd s = Some (s', SC_SUCCESS, True) \<and> s_file s' = Some info \<and>
           reservation_restore parse junk om info ns0 = Some (- EINVAL, ns0)"
proof -
  let ?ns = "replace_rkey r nk (s_ns s)"
  have cmd: "resv_command e (hostid r) cmd (s_ns s) (s_ctrlrs s) = Some (?ns, s_ctrlrs s, SC_SUCCESS, True)"
    using assms(12-17) by (simp add: resv_command_def ns_register_def set_ptpl_def replace_key_def get_registrant_in [OF assms(1,3)])
  have keys: "rkey r \<notin> rkey ` set (registrants ?ns)"
    using assms(7,17) resv_ok_distinct(1) [OF assms(1,3)] by (auto simp: replace_rkey_def)
  have ok: "resv_ok ?ns" using resv_ok_replace(1) [OF assms(1,3,16)] .
  have few: "length (registrants ?ns) \<le> MAX_NUM_REGISTRANTS" and same: "rtype ?ns = rtype (s_ns s)"
      "crkey ?ns = rkey r" "ptpl_activated ?ns" "ptpl_file ?ns" "bdev ?ns = Some b" "registrants ?ns \<noteq> []"
    using assms(2,3,5,6,8,9,10) by (auto simp: replace_rkey_def)
  obtain info where info: "reservation_info_of fmt b ?ns = Some info" "i_crkey info = rkey r" "i_ptpl_activated info"
    "i_registrants info = map (\<lambda>x. (rkey x, fmt (hostid x))) (registrants ?ns)"
    using reservation_info_of_ok [OF ok few, of fmt b] same assms(5) by simp
  have "fst ` set (i_registrants info) = rkey ` set (registrants ?ns)" by (force simp: info(4))
  moreover have "rkey r \<noteq> 0" using assms(1,3) by (simp add: resv_ok_def)
  ultimately have "reservation_restore parse junk om info ns0 = Some (- EINVAL, ns0)"
    using keys info same(6) by (simp add: reservation_restore_def)
  then show ?thesis using cmd info(1,3) same(3,4,5) assms(11,12)
    by (simp add: ns_reservation_request_def update_reservation_info_def reservation_update_json_def)
qed

theorem replaced_key_is_not_restored_witness:
  "\<exists>s' info. ns_reservation_request unary_fmt demo_env 11 (demo_cmd OPC_RESERVATION_REGISTER 2 100 150) demo_state = Some (s', SC_SUCCESS, True) \<and>
     s_file s' = Some info \<and> reservation_restore unary_parse (0, 0) (\<lambda>_. False) info empty_ns = Some (- EINVAL, empty_ns)"
  using replaced_key_is_not_restored [of demo_state "\<lparr>ptr = 0, hostid = 11, rkey = 100\<rparr>" 7 demo_env "demo_cmd OPC_RESERVATION_REGISTER 2 100 150" 150
      unary_fmt unary_parse "(0, 0)" "\<lambda>_. False" empty_ns] demo_ok
  by (simp add: demo_state_def demo_ns_def demo_env_def demo_cmd_def)

section \<open>The report\<close>

definition report_bytes :: "(uuid \<Rightarrow> u8 list) \<Rightarrow> spdk_nvmf_ns \<Rightarrow> u8 list" where
  "report_bytes ub ns = concat (status_bytes ns # map (registrant_bytes ub ns) (registrants ns))"

text \<open>
  C31. The reservation report fills the host's buffer, however it is cut into segments, with the
  header and one entry per registrant in order of registration. A buffer that is too short
  receives the beginning of the report, and no memory outside the buffer is written.
\<close>

theorem report_delivers:
  assumes "distinct (addrs vs)" and "vs \<noteq> []" and "eds cmd" and "64 \<le> (cdw10 cmd + 1) * 4"
  shows "\<exists>mem'. ns_report ub vs cmd ns mem = (mem', SC_SUCCESS) \<and>
     take (length (report_bytes ub ns)) (gather mem' vs) = take (vec_size vs) (report_bytes ub ns) \<and>
     (\<forall>a. a \<notin> set (addrs vs) \<longrightarrow> mem' a = mem a)"
proof -
  let ?bss = "status_bytes ns # map (registrant_bytes ub ns) (registrants ns)"
  let ?init = "(spdk_iov_xfer_init vs, mem)" and ?s = "foldl xfer_put (spdk_iov_xfer_init vs, mem) ?bss"
  have good: "xfer_good ?init" using assms(1) by simp
  have iovs: "ix_iovs (fst ?s) = vs" using xfer_put_all_iovs [OF good, of ?bss] by (simp add: spdk_iov_xfer_init_def)
  have room: "xfer_room ?s = vec_size vs - length (report_bytes ub ns)"
    using iov_sink.put_all_room [OF good, of ?bss] by (simp add: report_bytes_def)
  have cont: "xfer_contents ?s = take (vec_size vs) (report_bytes ub ns)"
    using iov_sink.put_all [OF good, of ?bss] by (simp add: report_bytes_def)
  have "xfer_contents ?s = take (vec_size vs - (vec_size vs - length (report_bytes ub ns))) (gather (snd ?s) vs)"
    unfolding xfer_contents_def iovs room by (simp add: gather_def take_map)
  then have "take (length (report_bytes ub ns)) (gather (snd ?s) vs) = take (vec_size vs) (report_bytes ub ns)"
    using cont by (cases "length (report_bytes ub ns) \<le> vec_size vs") (simp_all add: gather_def)
  moreover have "\<forall>a. a \<notin> set (addrs vs) \<longrightarrow> snd ?s a = mem a"
    using xfer_put_all_frame [OF good, of _ ?bss] by (simp add: spdk_iov_xfer_init_def)
  moreover have "ns_report ub vs cmd ns mem = (snd ?s, SC_SUCCESS)"
    using assms(2-4) by (simp add: ns_report_def not_less)
  ultimately show ?thesis by blast
qed

lemma demo_report: "take 5 (report_bytes ub demo_ns) = [3, 0, 0, 0, 1]"
  by (simp add: report_bytes_def status_bytes_def demo_ns_def le_bytes_def take_Cons' upt_rec)

theorem report_delivers_witness:
  "\<exists>mem'. ns_report (\<lambda>_. replicate 16 0) [\<lparr>seg_base = 0, seg_len = 2\<rparr>, \<lparr>seg_base = 10, seg_len = 3\<rparr>]
       (demo_cmd 14 0 0 0\<lparr>cdw10 := 15\<rparr>) demo_ns (\<lambda>_. 7) = (mem', SC_SUCCESS) \<and>
     gather mem' [\<lparr>seg_base = 0, seg_len = 2\<rparr>, \<lparr>seg_base = 10, seg_len = 3\<rparr>] = [3, 0, 0, 0, 1] \<and> mem' 13 = 7"
proof -
  let ?vs = "[\<lparr>seg_base = 0, seg_len = 2\<rparr>, \<lparr>seg_base = 10, seg_len = 3\<rparr>] :: segment list"
  let ?ub = "\<lambda>_. replicate 16 0 :: u8 list"
  have vs: "addrs ?vs = [0, 1, 10, 11, 12]" "vec_size ?vs = 5" by (simp_all add: seg_addrs_def vec_size_def upt_rec)
  have long: "5 \<le> length (report_bytes ?ub demo_ns)" by (simp add: report_bytes_def status_bytes_def)
  have ok: "64 \<le> (cdw10 (demo_cmd 14 0 0 0\<lparr>cdw10 := 15\<rparr>) + 1) * 4" "eds (demo_cmd 14 0 0 0\<lparr>cdw10 := 15\<rparr>)"
    by (simp_all add: demo_cmd_def)
  obtain mem' where m: "ns_report ?ub ?vs (demo_cmd 14 0 0 0\<lparr>cdw10 := 15\<rparr>) demo_ns (\<lambda>_. 7) = (mem', SC_SUCCESS)"
    "take (length (report_bytes ?ub demo_ns)) (gather mem' ?vs) = take 5 (report_bytes ?ub demo_ns)" "mem' 13 = 7"
    using report_delivers [of ?vs "demo_cmd 14 0 0 0\<lparr>cdw10 := 15\<rparr>" ?ub demo_ns "\<lambda>_. 7", OF _ _ ok(2,1)] unfolding vs by auto
  have "length (gather mem' ?vs) = 5" by (simp only: gather_def vs(1) length_map) simp
  then have "gather mem' ?vs = [3, 0, 0, 0, 1]" using m(2) long unfolding demo_report by simp
  then show ?thesis using m(1,3) by blast
qed

end
