(* ===== verification/Nvme_Request.thy ===== *)
theory Nvme_Request
  imports Nof_Prelude "HOL-Library.Multiset"
begin

text \<open>
  The requests of the NVMe driver and the pool of a queue pair they are taken from (the inline
  functions of \<open>src/lib/nvme/nvme_internal.h\<close>). A request that was split owns its children, so
  it is a tree; the parent pointer of a child is its place in the tree.
\<close>

section \<open>Requests\<close>

record spdk_nvme_cmd =
  c_opc :: u8
  c_fuse :: u32
  c_nsid :: u32
  c_lba :: u64
  c_cdw12 :: u32
  c_cdw13 :: u32
  c_cdw14 :: u32
  c_cdw15 :: u32

definition zero_cmd :: spdk_nvme_cmd where
  "zero_cmd = \<lparr>c_opc = 0, c_fuse = 0, c_nsid = 0, c_lba = 0, c_cdw12 = 0, c_cdw13 = 0, c_cdw14 = 0, c_cdw15 = 0\<rparr>"

text \<open>
  A scattered payload is read through two functions of the caller. \<open>sgl off i\<close> is the address and
  length that the \<open>i\<close>-th call of \<open>next_sge_fn\<close> reports after \<open>reset_sgl_fn\<close> with offset \<open>off\<close>.
\<close>

type_synonym sgl_fns = "u32 \<Rightarrow> nat \<Rightarrow> u64 \<times> u32"

record ext_io_opts =
  o_io_flags :: u32
  o_metadata :: u64
  o_apptag_mask :: u16
  o_apptag :: u16
  o_cdw13 :: u32
  o_accel_sequence :: bool

record nvme_payload =
  sgl :: "sgl_fns option"
  opts :: "ext_io_opts option"
  contig_or_cb_arg :: u64
  md :: u64

definition PAYLOAD_CONTIG :: "u64 \<Rightarrow> u64 \<Rightarrow> nvme_payload" where
  "PAYLOAD_CONTIG buf m = \<lparr>sgl = None, opts = None, contig_or_cb_arg = buf, md = m\<rparr>"

definition PAYLOAD_SGL :: "sgl_fns \<Rightarrow> u64 \<Rightarrow> u64 \<Rightarrow> nvme_payload" where
  "PAYLOAD_SGL f arg m = \<lparr>sgl = Some f, opts = None, contig_or_cb_arg = arg, md = m\<rparr>"

text \<open>The callback of a request: the caller's, or the one that reports to the parent.\<close>

datatype request_cb = User_cb u64 | Complete_child

record request_info =
  r_cmd :: spdk_nvme_cmd
  r_io_id :: u32
  r_ns_id :: u32
  r_payload :: nvme_payload
  r_payload_offset :: u32
  r_md_offset :: u32
  r_payload_size :: u32
  r_md_size :: u32
  r_cb :: request_cb
  r_accel :: bool

datatype nvme_request = Request (rq_id: nat) (rq_info: request_info) (rq_children: "nvme_request list")

fun on_info :: "(request_info \<Rightarrow> request_info) \<Rightarrow> nvme_request \<Rightarrow> nvme_request" where
  "on_info f (Request i r cs) = Request i (f r) cs"

section \<open>The pool\<close>

text \<open>
  A free request is its identity together with the namespace number left in it by its last use:
  allocation clears the fields before \<open>payload_size\<close> and sets most others, but not that one.
\<close>

record spdk_nvme_qpair =
  free_req :: "(nat \<times> u32) list"
  num_outstanding_reqs :: nat
  in_poll_group :: bool

definition nvme_allocate_request :: "spdk_nvme_qpair \<Rightarrow> nvme_payload \<Rightarrow> u32 \<Rightarrow> u32 \<Rightarrow> request_cb \<Rightarrow> (spdk_nvme_qpair \<times> nvme_request) option" where
  "nvme_allocate_request qp p len mlen cb = (case free_req qp of
     [] \<Rightarrow> None
   | (i, stale) # rest \<Rightarrow> Some
       (qp\<lparr>free_req := rest, num_outstanding_reqs := num_outstanding_reqs qp + 1\<rparr>,
        Request i \<lparr>r_cmd = zero_cmd, r_io_id = 0, r_ns_id = stale, r_payload = p, r_payload_offset = 0, r_md_offset = 0,
                   r_payload_size = len, r_md_size = mlen, r_cb = cb, r_accel = False\<rparr> []))"

definition nvme_free_request :: "nvme_request \<Rightarrow> spdk_nvme_qpair \<Rightarrow> spdk_nvme_qpair option" where
  "nvme_free_request req qp =
     (if rq_children req \<noteq> [] \<or> num_outstanding_reqs qp = 0 then None
      else Some (qp\<lparr>free_req := (rq_id req, r_ns_id (rq_info req)) # free_req qp,
                    num_outstanding_reqs := num_outstanding_reqs qp - 1\<rparr>))"

section \<open>Children\<close>

definition nvme_request_add_child :: "nvme_request \<Rightarrow> nvme_request \<Rightarrow> nvme_request option" where
  "nvme_request_add_child parent child =
     (if length (rq_children parent) = 65535 then None
      else Some (Request (rq_id parent) (rq_info parent) (rq_children parent @ [on_info (\<lambda>r. r\<lparr>r_cb := Complete_child\<rparr>) child])))"

lemma add_child_code [code]: "nvme_request_add_child parent child =
     (if int (length (rq_children parent)) = 65535 then None
      else Some (Request (rq_id parent) (rq_info parent) (rq_children parent @ [on_info (\<lambda>r. r\<lparr>r_cb := Complete_child\<rparr>) child])))"
  by (simp add: nvme_request_add_child_def)

text \<open>Each child is unlinked, its own children are freed, then the child itself.\<close>

fun free_requests :: "nvme_request list \<Rightarrow> spdk_nvme_qpair \<Rightarrow> spdk_nvme_qpair option" where
  "free_requests [] qp = Some qp"
| "free_requests (Request i r cs # ts) qp = do {
     qp \<leftarrow> free_requests cs qp;
     qp \<leftarrow> nvme_free_request (Request i r []) qp;
     free_requests ts qp
   }"

definition nvme_request_free_children :: "nvme_request \<Rightarrow> spdk_nvme_qpair \<Rightarrow> (nvme_request \<times> spdk_nvme_qpair) option" where
  "nvme_request_free_children req qp = do {
     qp \<leftarrow> free_requests (rq_children req) qp;
     Some (Request (rq_id req) (rq_info req) [], qp)
   }"

section \<open>Accounting\<close>

text \<open>The identities in use by a tree, and how the pool changes when they are taken or returned.\<close>

fun tree_ids :: "nvme_request \<Rightarrow> nat list" where
  "tree_ids (Request i r cs) = i # concat (map tree_ids cs)"

definition pool_ids :: "spdk_nvme_qpair \<Rightarrow> nat multiset" where
  "pool_ids qp = mset (map fst (free_req qp))"

definition holds :: "nat multiset \<Rightarrow> spdk_nvme_qpair \<Rightarrow> spdk_nvme_qpair \<Rightarrow> bool" where
  "holds used qp qp' \<longleftrightarrow> pool_ids qp = pool_ids qp' + used \<and>
     num_outstanding_reqs qp' = num_outstanding_reqs qp + size used \<and> in_poll_group qp' = in_poll_group qp"

lemma holds_refl [simp]: "holds {#} qp qp"
  by (simp add: holds_def)

lemma holds_trans: "holds a qp qp' \<Longrightarrow> holds b qp' qp'' \<Longrightarrow> holds (a + b) qp qp''"
  by (simp add: holds_def ac_simps)

lemma holds_size: "holds used qp qp' \<Longrightarrow> size used \<le> length (free_req qp)"
  by (auto simp: holds_def pool_ids_def dest: arg_cong [of _ _ size])

lemma allocate_holds:
  "nvme_allocate_request qp p len mlen cb = Some (qp', t) \<Longrightarrow> holds (mset (tree_ids t)) qp qp' \<and> rq_children t = []"
  by (auto simp: nvme_allocate_request_def holds_def pool_ids_def split: list.splits)

lemma allocate_fails: "nvme_allocate_request qp p len mlen cb = None \<longleftrightarrow> free_req qp = []"
  by (simp add: nvme_allocate_request_def split: list.splits prod.splits)

lemma tree_ids_on_info [simp]: "tree_ids (on_info f t) = tree_ids t"
  by (cases t) simp

lemma add_child_ids: "nvme_request_add_child p c = Some t \<Longrightarrow> mset (tree_ids t) = mset (tree_ids p) + mset (tree_ids c)"
  by (cases p) (auto simp: nvme_request_add_child_def split: if_splits)

lemma free_requests_holds:
  assumes "holds (u + mset (concat (map tree_ids ts))) qp0 qp"
  shows "\<exists>qp'. free_requests ts qp = Some qp' \<and> holds u qp0 qp'"
  using assms
proof (induction ts qp arbitrary: u rule: free_requests.induct)
  case (1 qp)
  then show ?case by simp
next
  case (2 i r cs ts qp)
  have "holds ((u + mset (concat (map tree_ids ts)) + {#i#}) + mset (concat (map tree_ids cs))) qp0 qp"
    using "2.prems" by (simp add: ac_simps)
  then obtain qp1 where 1: "free_requests cs qp = Some qp1" "holds (u + mset (concat (map tree_ids ts)) + {#i#}) qp0 qp1"
    using "2.IH"(1) by blast
  define qp2 where "qp2 = qp1\<lparr>free_req := (i, r_ns_id r) # free_req qp1, num_outstanding_reqs := num_outstanding_reqs qp1 - 1\<rparr>"
  have 2: "nvme_free_request (Request i r []) qp1 = Some qp2" "holds (u + mset (concat (map tree_ids ts))) qp0 qp2"
    using 1(2) by (auto simp: nvme_free_request_def qp2_def holds_def pool_ids_def ac_simps)
  then show ?case using 1(1) "2.IH"(2) [OF 1(1) 2(1) 2(2)] by simp
qed

end
