(* ===== verification/Nvme_Ns_Cmd.thy ===== *)
theory Nvme_Ns_Cmd
  imports Nvme_Request
begin

text \<open>
  Reads, writes, compares and zone appends of the NVMe driver (\<open>src/lib/nvme/nvme_ns_cmd.c\<close>): how a
  request is cut into children at stripe boundaries, at the largest transfer and at the elements
  of a scattered payload, and the calls built on it. The final hand-over to
  \<open>nvme_qpair_submit_request\<close> is the outcome \<open>Submit\<close>.

  A result is \<open>None\<close> when an assertion fails, a NULL pointer is followed or the call does not
  return; otherwise it is the queue pair with an error code or the request.
\<close>

section \<open>Namespace\<close>

text \<open>The fields of the namespace, its controller and the controller's options that the file reads.\<close>

record spdk_nvme_ns =
  ns_ident :: u32
  extended_lba_supported :: bool
  dps_pi_supported :: bool
  pi_type :: nat
  md_size :: u32
  sector_size :: u32
  extended_lba_size :: u32
  sectors_per_max_io :: u32
  sectors_per_max_io_no_md :: u32
  sectors_per_stripe :: u32
  is_zns :: bool
  sgl_supported :: bool
  accel_supported :: bool
  zone_append_supported :: bool
  max_sges :: u16
  page_size :: u32
  max_zone_append_size :: u32
  io_queue_requests :: u32

abbreviation NVM_WRITE :: u8 where "NVM_WRITE \<equiv> 1"
abbreviation NVM_READ :: u8 where "NVM_READ \<equiv> 2"
abbreviation NVM_WRITE_UNCORRECTABLE :: u8 where "NVM_WRITE_UNCORRECTABLE \<equiv> 4"
abbreviation NVM_COMPARE :: u8 where "NVM_COMPARE \<equiv> 5"
abbreviation NVM_WRITE_ZEROES :: u8 where "NVM_WRITE_ZEROES \<equiv> 8"
abbreviation NVM_VERIFY :: u8 where "NVM_VERIFY \<equiv> 12"
abbreviation NVM_ZONE_APPEND :: u8 where "NVM_ZONE_APPEND \<equiv> 125"

abbreviation FLAGS_VALID_MASK :: u32 where "FLAGS_VALID_MASK \<equiv> 0xFFFF0003"
abbreviation FLAGS_CDW12_MASK :: u32 where "FLAGS_CDW12_MASK \<equiv> 0xFFFF0000"
abbreviation FLAGS_FUSE_MASK :: u32 where "FLAGS_FUSE_MASK \<equiv> 3"

definition nvme_ns_check_request_length :: "u32 \<Rightarrow> u32 \<Rightarrow> u32 \<Rightarrow> u32 \<Rightarrow> bool" where
  "nvme_ns_check_request_length lba_count per_max_io per_stripe qdepth =
     (let child_per_io = (if per_stripe > 0 then (lba_count + per_stripe - 1) div per_stripe
                          else if per_max_io > 0 then (lba_count + per_max_io - 1) div per_max_io
                          else 0xFFFFFFFF)
      in child_per_io \<ge> qdepth)"

definition nvme_ns_map_failure_rc :: "u32 \<Rightarrow> u32 \<Rightarrow> u32 \<Rightarrow> u32 \<Rightarrow> int \<Rightarrow> int option" where
  "nvme_ns_map_failure_rc lba_count per_max_io per_stripe qdepth rc =
     (if rc = 0 then None
      else if rc = - ENOMEM \<and> nvme_ns_check_request_length lba_count per_max_io per_stripe qdepth then Some (- EINVAL)
      else Some rc)"

definition md_excluded_from_xfer :: "spdk_nvme_ns \<Rightarrow> u32 \<Rightarrow> bool" where
  "md_excluded_from_xfer ns io_flags \<longleftrightarrow> bit io_flags 29 \<and> extended_lba_supported ns \<and> dps_pi_supported ns \<and> md_size ns = 8"

definition host_buffer_sector_size :: "spdk_nvme_ns \<Rightarrow> u32 \<Rightarrow> u32" where
  "host_buffer_sector_size ns io_flags = (if md_excluded_from_xfer ns io_flags then sector_size ns else extended_lba_size ns)"

definition get_sectors_per_max_io :: "spdk_nvme_ns \<Rightarrow> u32 \<Rightarrow> u32" where
  "get_sectors_per_max_io ns io_flags = (if md_excluded_from_xfer ns io_flags then sectors_per_max_io_no_md ns else sectors_per_max_io ns)"

definition is_io_flags_valid :: "u32 \<Rightarrow> bool" where
  "is_io_flags_valid io_flags \<longleftrightarrow> io_flags AND NOT FLAGS_VALID_MASK = 0"

definition is_accel_sequence_valid :: "spdk_nvme_ns \<Rightarrow> spdk_nvme_qpair \<Rightarrow> bool \<Rightarrow> bool" where
  "is_accel_sequence_valid ns qp seq \<longleftrightarrow> \<not> seq \<or> (accel_supported ns \<and> in_poll_group qp)"

definition is_page_aligned :: "u64 \<Rightarrow> u32 \<Rightarrow> bool" where
  "is_page_aligned address page_sz \<longleftrightarrow> address AND (ucast page_sz - 1) = 0"

section \<open>Splitting\<close>

text \<open>What stays the same for all children of a request.\<close>

record rw_args =
  a_payload :: nvme_payload
  a_cb :: request_cb
  a_opc :: u8
  a_flags :: u32
  a_mask :: u16
  a_apptag :: u16
  a_cdw13 :: u32

type_synonym rw_result = "(spdk_nvme_qpair \<times> (int + nvme_request)) option"

definition setup_request :: "spdk_nvme_ns \<Rightarrow> rw_args \<Rightarrow> u64 \<Rightarrow> u32 \<Rightarrow> nvme_request \<Rightarrow> nvme_request option" where
  "setup_request ns A lba lba_count req =
     (if \<not> is_io_flags_valid (a_flags A) then None
      else Some (on_info (\<lambda>r. r\<lparr>r_cmd := \<lparr>c_opc = a_opc A, c_fuse = a_flags A AND FLAGS_FUSE_MASK, c_nsid = ns_ident ns, c_lba = lba,
             c_cdw12 = (lba_count - 1) OR (a_flags A AND FLAGS_CDW12_MASK), c_cdw13 = a_cdw13 A,
             c_cdw14 = (if dps_pi_supported ns \<and> pi_type ns \<in> {1, 2} then ucast lba else 0),
             c_cdw15 = push_bit 16 (ucast (a_mask A)) OR ucast (a_apptag A)\<rparr>\<rparr>) req))"

definition add_child_request :: "rw_result \<Rightarrow> nvme_request \<Rightarrow> rw_result" where
  "add_child_request made parent = (case made of
     None \<Rightarrow> None
   | Some (qp, Inl rc) \<Rightarrow> do {
       (parent, qp) \<leftarrow> nvme_request_free_children parent qp;
       qp \<leftarrow> nvme_free_request parent qp;
       Some (qp, Inl rc)
     }
   | Some (qp, Inr child) \<Rightarrow> do {
       parent \<leftarrow> nvme_request_add_child parent child;
       Some (qp, Inr parent)
     })"

text \<open>
  The three loops call \<open>mk\<close>, which builds one child from its payload offset, metadata offset,
  first block and number of blocks.
\<close>

type_synonym make_child = "u32 \<Rightarrow> u32 \<Rightarrow> u64 \<Rightarrow> u32 \<Rightarrow> spdk_nvme_qpair \<Rightarrow> rw_result"

partial_function (option) split_loop ::
  "make_child \<Rightarrow> u32 \<Rightarrow> u32 \<Rightarrow> u32 \<Rightarrow> u32 \<Rightarrow> u32 \<Rightarrow> u32 \<Rightarrow> u64 \<Rightarrow> u32 \<Rightarrow> nvme_request \<Rightarrow> spdk_nvme_qpair \<Rightarrow> rw_result" where
  "split_loop mk sec_size md_sz max_sectors sector_mask po mo lba remaining req qp =
     (if remaining = 0 then Some (qp, Inr req)
      else let lba_count = min remaining (max_sectors - ucast (lba AND ucast sector_mask))
           in do {
             (qp, res) \<leftarrow> add_child_request (mk po mo lba lba_count qp) req;
             (case res of
                Inl rc \<Rightarrow> Some (qp, Inl rc)
              | Inr req \<Rightarrow> split_loop mk sec_size md_sz max_sectors sector_mask (po + lba_count * sec_size)
                  (mo + lba_count * md_sz) (lba + ucast lba_count) (remaining - lba_count) req qp)
           })"

text \<open>The loop as case distinctions, which a witness can evaluate step by step.\<close>

lemma split_loop_code [code]:
  "split_loop mk sec_size md_sz max_sectors sector_mask po mo lba remaining req qp =
     (if remaining = 0 then Some (qp, Inr req)
      else case add_child_request (mk po mo lba (min remaining (max_sectors - ucast (lba AND ucast sector_mask))) qp) req of
          None \<Rightarrow> None
        | Some r \<Rightarrow> case snd r of
            Inl rc \<Rightarrow> Some (fst r, Inl rc)
          | Inr req \<Rightarrow> (case min remaining (max_sectors - ucast (lba AND ucast sector_mask)) of n \<Rightarrow>
                split_loop mk sec_size md_sz max_sectors sector_mask (po + n * sec_size)
                  (mo + n * md_sz) (lba + ucast n) (remaining - n) req (fst r)))"
  by (subst split_loop.simps) (auto simp: Let_def split: option.splits prod.splits sum.splits)

definition split_request :: "make_child \<Rightarrow> spdk_nvme_ns \<Rightarrow> u32 \<Rightarrow> bool \<Rightarrow> u32 \<Rightarrow> u32 \<Rightarrow> u32 \<Rightarrow> u32 \<Rightarrow> u64 \<Rightarrow> u32 \<Rightarrow> nvme_request \<Rightarrow> spdk_nvme_qpair \<Rightarrow> rw_result" where
  "split_request mk ns io_flags accel max_sectors sector_mask po mo lba lba_count req qp =
     (if accel then Some (qp, Inl (- EINVAL))
      else split_loop mk (host_buffer_sector_size ns io_flags) (md_size ns) max_sectors sector_mask po mo lba lba_count req qp)"

text \<open>
  A child of a scattered payload: its length must be a multiple of the block size, and the
  request must not carry an accel sequence.
\<close>

definition sge_child :: "make_child \<Rightarrow> spdk_nvme_ns \<Rightarrow> bool \<Rightarrow> u32 \<Rightarrow> u32 \<Rightarrow> u64 \<Rightarrow> u32 \<Rightarrow> nvme_request \<Rightarrow> spdk_nvme_qpair \<Rightarrow> rw_result" where
  "sge_child mk ns accel po mo child_lba child_length req qp =
     (if extended_lba_size ns = 0 then None
      else if child_length mod extended_lba_size ns \<noteq> 0 \<or> accel then Some (qp, Inl (- EINVAL))
      else add_child_request (mk po mo child_lba (child_length div extended_lba_size ns) qp) req)"

text \<open>
  The local variables of the two loops over the elements: the current element, the number fetched,
  the number in the child being collected, the lengths and the position of the child.
\<close>

record sge_walk =
  w_address :: u64
  w_length :: u32
  w_fetched :: nat
  w_num_sges :: u16
  w_child_length :: u32
  w_cur :: u32
  w_po :: u32
  w_mo :: u32
  w_lba :: u64

definition child_done :: "spdk_nvme_ns \<Rightarrow> sge_walk \<Rightarrow> sge_walk" where
  "child_done ns w = (let n = w_child_length w div extended_lba_size ns
     in w\<lparr>w_po := w_po w + w_child_length w, w_mo := w_mo w + n * md_size ns, w_lba := w_lba w + ucast n,
          w_child_length := 0, w_num_sges := 0\<rparr>)"

definition clip_sge :: "u32 \<Rightarrow> u32 \<Rightarrow> u32 \<Rightarrow> u32" where
  "clip_sge psize cur len = (if cur + len > psize then psize - cur else len)"

text \<open>
  Without hardware scatter lists, every element of a child but the first must start on a page
  and every one but the last must end on one. The step says whether the child ends here.
\<close>

definition prp_step :: "spdk_nvme_ns \<Rightarrow> (nat \<Rightarrow> u64 \<times> u32) \<Rightarrow> u32 \<Rightarrow> sge_walk \<Rightarrow> bool \<times> sge_walk" where
  "prp_step ns sges psize w =
     (let len = clip_sge psize (w_cur w) (w_length w);
          start_valid = (w_child_length w = 0 \<or> is_page_aligned (w_address w) (page_size ns));
          last_sge = (w_cur w + len = psize);
          end_valid = (last_sge \<or> is_page_aligned (w_address w + ucast len) (page_size ns));
          child_equals_parent = (w_child_length w + len = psize);
          w1 = (if start_valid then w\<lparr>w_length := len, w_child_length := w_child_length w + len, w_cur := w_cur w + len\<rparr>
                else w\<lparr>w_length := len\<rparr>);
          fetch = (start_valid \<and> w_cur w1 < psize);
          w2 = (if fetch then w1\<lparr>w_address := fst (sges (w_fetched w1)), w_length := snd (sges (w_fetched w1)), w_fetched := w_fetched w1 + 1\<rparr>
                else w1);
          start_valid2 = (if fetch then is_page_aligned (w_address w2) (page_size ns) else start_valid)
      in (\<not> (start_valid2 \<and> end_valid \<and> \<not> last_sge) \<and> \<not> child_equals_parent, w2))"

type_synonym walk_result = "(sge_walk \<times> spdk_nvme_qpair \<times> (int + nvme_request)) option"

partial_function (option) prp_loop ::
  "make_child \<Rightarrow> spdk_nvme_ns \<Rightarrow> bool \<Rightarrow> (nat \<Rightarrow> u64 \<times> u32) \<Rightarrow> u32 \<Rightarrow> sge_walk \<Rightarrow> nvme_request \<Rightarrow> spdk_nvme_qpair \<Rightarrow> walk_result" where
  "prp_loop mk ns accel sges psize w req qp =
     (if \<not> w_cur w < psize then Some (w, qp, Inr req)
      else if w_length w = 0 then prp_loop mk ns accel sges psize w req qp
      else let (split, w) = prp_step ns sges psize w
           in if \<not> split then prp_loop mk ns accel sges psize w req qp
              else do {
                (qp, res) \<leftarrow> sge_child mk ns accel (w_po w) (w_mo w) (w_lba w) (w_child_length w) req qp;
                (case res of
                   Inl rc \<Rightarrow> Some (w, qp, Inl rc)
                 | Inr req \<Rightarrow> prp_loop mk ns accel sges psize (child_done ns w) req qp)
              })"

text \<open>With hardware scatter lists, a child holds at most \<open>max_sges\<close> elements.\<close>

definition sgl_step :: "spdk_nvme_ns \<Rightarrow> (nat \<Rightarrow> u64 \<times> u32) \<Rightarrow> u32 \<Rightarrow> sge_walk \<Rightarrow> bool \<times> sge_walk" where
  "sgl_step ns sges psize w =
     (let len = clip_sge psize (w_cur w) (snd (sges (w_fetched w)));
          w1 = w\<lparr>w_address := fst (sges (w_fetched w)), w_length := len, w_fetched := w_fetched w + 1,
                 w_child_length := w_child_length w + len, w_cur := w_cur w + len, w_num_sges := w_num_sges w + 1\<rparr>
      in (\<not> (w_num_sges w1 < max_sges ns \<and> w_cur w1 < psize) \<and> w_child_length w1 \<noteq> psize, w1))"

partial_function (option) sgl_loop ::
  "make_child \<Rightarrow> spdk_nvme_ns \<Rightarrow> bool \<Rightarrow> (nat \<Rightarrow> u64 \<times> u32) \<Rightarrow> u32 \<Rightarrow> sge_walk \<Rightarrow> nvme_request \<Rightarrow> spdk_nvme_qpair \<Rightarrow> walk_result" where
  "sgl_loop mk ns accel sges psize w req qp =
     (if \<not> w_cur w < psize then Some (w, qp, Inr req)
      else let (split, w) = sgl_step ns sges psize w
           in if \<not> split then sgl_loop mk ns accel sges psize w req qp
              else do {
                (qp, res) \<leftarrow> sge_child mk ns accel (w_po w) (w_mo w) (w_lba w) (w_child_length w) req qp;
                (case res of
                   Inl rc \<Rightarrow> Some (w, qp, Inl rc)
                 | Inr req \<Rightarrow> sgl_loop mk ns accel sges psize (child_done ns w) req qp)
              })"

lemma sgl_loop_code [code]:
  "sgl_loop mk ns accel sges psize w req qp =
     (if \<not> w_cur w < psize then Some (w, qp, Inr req)
      else case sgl_step ns sges psize w of (split, w) \<Rightarrow>
        if \<not> split then sgl_loop mk ns accel sges psize w req qp
        else case sge_child mk ns accel (w_po w) (w_mo w) (w_lba w) (w_child_length w) req qp of
            None \<Rightarrow> None
          | Some (qp, Inl rc) \<Rightarrow> Some (w, qp, Inl rc)
          | Some (qp, Inr req) \<Rightarrow> sgl_loop mk ns accel sges psize (child_done ns w) req qp)"
  by (subst sgl_loop.simps) (auto simp: Let_def split: option.split sum.split prod.split)

text \<open>After either loop, a payload that needed no split is sent as one request.\<close>

definition finish_sges :: "spdk_nvme_ns \<Rightarrow> rw_args \<Rightarrow> u64 \<Rightarrow> u32 \<Rightarrow> u32 \<Rightarrow> walk_result \<Rightarrow> rw_result" where
  "finish_sges ns A lba lba_count psize r = (case r of
     None \<Rightarrow> None
   | Some (_, qp, Inl rc) \<Rightarrow> Some (qp, Inl rc)
   | Some (w, qp, Inr req) \<Rightarrow>
       if w_child_length w = psize then do { req \<leftarrow> setup_request ns A lba lba_count req; Some (qp, Inr req) }
       else Some (qp, Inr req))"

definition start_walk :: "u32 \<Rightarrow> u32 \<Rightarrow> u64 \<Rightarrow> sge_walk" where
  "start_walk po mo lba = \<lparr>w_address = 0, w_length = 0, w_fetched = 0, w_num_sges = 0, w_child_length = 0, w_cur = 0,
     w_po = po, w_mo = mo, w_lba = lba\<rparr>"

definition split_request_prp :: "make_child \<Rightarrow> spdk_nvme_ns \<Rightarrow> rw_args \<Rightarrow> bool \<Rightarrow> sgl_fns \<Rightarrow> u32 \<Rightarrow> u32 \<Rightarrow> u64 \<Rightarrow> u32 \<Rightarrow> nvme_request \<Rightarrow> spdk_nvme_qpair \<Rightarrow> rw_result" where
  "split_request_prp mk ns A accel f po mo lba lba_count req qp =
     (let psize = r_payload_size (rq_info req); sges = f po;
          w = (start_walk po mo lba)\<lparr>w_address := fst (sges 0), w_length := snd (sges 0), w_fetched := 1\<rparr>
      in finish_sges ns A lba lba_count psize (prp_loop mk ns accel sges psize w req qp))"

definition split_request_sgl :: "make_child \<Rightarrow> spdk_nvme_ns \<Rightarrow> rw_args \<Rightarrow> bool \<Rightarrow> sgl_fns \<Rightarrow> u32 \<Rightarrow> u32 \<Rightarrow> u64 \<Rightarrow> u32 \<Rightarrow> nvme_request \<Rightarrow> spdk_nvme_qpair \<Rightarrow> rw_result" where
  "split_request_sgl mk ns A accel f po mo lba lba_count req qp =
     (let psize = r_payload_size (rq_info req)
      in finish_sges ns A lba lba_count psize (sgl_loop mk ns accel (f po) psize (start_walk po mo lba) req qp))"

text \<open>
  Building a request. The first argument bounds the nesting of children: a stripe split, a split
  at the largest transfer and one at the elements can nest, so four levels are enough.
\<close>

primrec ns_cmd_rw :: "nat \<Rightarrow> spdk_nvme_ns \<Rightarrow> rw_args \<Rightarrow> bool \<Rightarrow> bool \<Rightarrow> make_child" where
  "ns_cmd_rw 0 ns A check_sgl accel po mo lba lba_count qp = None"
| "ns_cmd_rw (Suc n) ns A check_sgl accel po mo lba lba_count qp =
     (let stripe = (if a_opc A = NVM_ZONE_APPEND then 0 else sectors_per_stripe ns);
          max_io = get_sectors_per_max_io ns (a_flags A)
      in case nvme_allocate_request qp (a_payload A) (lba_count * host_buffer_sector_size ns (a_flags A)) (lba_count * md_size ns) (a_cb A) of
           None \<Rightarrow> Some (qp, Inl (- ENOMEM))
         | Some (qp, req) \<Rightarrow>
             let req = on_info (\<lambda>r. r\<lparr>r_payload_offset := po, r_md_offset := mo, r_accel := accel\<rparr>) req
             in if a_opc A = NVM_ZONE_APPEND \<and> \<not> is_zns ns then None
                else if stripe > 0 \<and> (lba AND ucast (stripe - 1)) + ucast lba_count > ucast stripe
                then split_request (ns_cmd_rw n ns A True False) ns (a_flags A) accel stripe (stripe - 1) po mo lba lba_count req qp
                else if lba_count > max_io
                then split_request (ns_cmd_rw n ns A True False) ns (a_flags A) accel max_io 0 po mo lba lba_count req qp
                else case (if check_sgl then sgl (a_payload A) else None) of
                    Some f \<Rightarrow> if sgl_supported ns then split_request_sgl (ns_cmd_rw n ns A False False) ns A accel f po mo lba lba_count req qp
                              else split_request_prp (ns_cmd_rw n ns A False False) ns A accel f po mo lba lba_count req qp
                  | None \<Rightarrow> do { req \<leftarrow> setup_request ns A lba lba_count req; Some (qp, Inr req) })"

section \<open>The calls\<close>

text \<open>
  Each call checks its arguments, builds the request and hands it to
  \<open>nvme_qpair_submit_request\<close> (\<open>Submit\<close>), or returns an error. The pair of functions of a scattered payload
  is \<open>None\<close> when one of the two pointers is NULL.
\<close>

datatype rw_outcome = Submit nvme_request | Fail int

type_synonym ns_cmd_result = "(spdk_nvme_qpair \<times> rw_outcome) option"

definition build :: "spdk_nvme_ns \<Rightarrow> spdk_nvme_qpair \<Rightarrow> nvme_payload \<Rightarrow> u64 \<Rightarrow> u32 \<Rightarrow> u64 \<Rightarrow> u8 \<Rightarrow> u32 \<Rightarrow> u16 \<Rightarrow> u16 \<Rightarrow> u32 \<Rightarrow> bool \<Rightarrow> bool \<Rightarrow> rw_result" where
  "build ns qp p lba lba_count cb op io_flags apptag_mask apptag cdw13 check_sgl accel =
     ns_cmd_rw 4 ns \<lparr>a_payload = p, a_cb = User_cb cb, a_opc = op, a_flags = io_flags, a_mask = apptag_mask, a_apptag = apptag, a_cdw13 = cdw13\<rparr>
       check_sgl accel 0 0 lba lba_count qp"

definition submit_or_fail :: "spdk_nvme_ns \<Rightarrow> u32 \<Rightarrow> rw_result \<Rightarrow> ns_cmd_result" where
  "submit_or_fail ns lba_count r = (case r of
     None \<Rightarrow> None
   | Some (qp, Inr req) \<Rightarrow> Some (qp, Submit req)
   | Some (qp, Inl rc) \<Rightarrow> do {
       rc \<leftarrow> nvme_ns_map_failure_rc lba_count (sectors_per_max_io ns) (sectors_per_stripe ns) (io_queue_requests ns) rc;
       Some (qp, Fail rc)
     })"

definition contig_io :: "u8 \<Rightarrow> spdk_nvme_ns \<Rightarrow> spdk_nvme_qpair \<Rightarrow> u64 \<Rightarrow> u64 \<Rightarrow> u64 \<Rightarrow> u32 \<Rightarrow> u64 \<Rightarrow> u32 \<Rightarrow> u16 \<Rightarrow> u16 \<Rightarrow> rw_result" where
  "contig_io op ns qp buffer metadata lba lba_count cb io_flags apptag_mask apptag =
     build ns qp (PAYLOAD_CONTIG buffer metadata) lba lba_count cb op io_flags apptag_mask apptag 0 False False"

definition vector_io :: "u8 \<Rightarrow> spdk_nvme_ns \<Rightarrow> spdk_nvme_qpair \<Rightarrow> u64 \<Rightarrow> u32 \<Rightarrow> u64 \<Rightarrow> u32 \<Rightarrow> sgl_fns \<Rightarrow> u64 \<Rightarrow> u16 \<Rightarrow> u16 \<Rightarrow> rw_result" where
  "vector_io op ns qp lba lba_count cb io_flags f metadata apptag_mask apptag =
     build ns qp (PAYLOAD_SGL f cb metadata) lba lba_count cb op io_flags apptag_mask apptag 0 True False"

definition invalid :: "spdk_nvme_qpair \<Rightarrow> ns_cmd_result" where
  "invalid qp = Some (qp, Fail (- EINVAL))"

text \<open>Numbers added to the request for the latency log, before the request is known to exist.\<close>

definition tag_request :: "(request_info \<Rightarrow> request_info) \<Rightarrow> rw_result \<Rightarrow> rw_result" where
  "tag_request f r = (case r of Some (qp, Inr req) \<Rightarrow> Some (qp, Inr (on_info f req)) | _ \<Rightarrow> None)"

definition spdk_nvme_ns_cmd_compare where
  "spdk_nvme_ns_cmd_compare ns qp buffer lba lba_count cb io_flags =
     (if \<not> is_io_flags_valid io_flags then invalid qp
      else submit_or_fail ns lba_count (contig_io NVM_COMPARE ns qp buffer 0 lba lba_count cb io_flags 0 0))"

definition spdk_nvme_ns_cmd_compare_with_md where
  "spdk_nvme_ns_cmd_compare_with_md ns qp buffer metadata lba lba_count cb io_flags apptag_mask apptag =
     (if \<not> is_io_flags_valid io_flags then invalid qp
      else submit_or_fail ns lba_count (contig_io NVM_COMPARE ns qp buffer metadata lba lba_count cb io_flags apptag_mask apptag))"

definition spdk_nvme_ns_cmd_comparev where
  "spdk_nvme_ns_cmd_comparev ns qp lba lba_count cb io_flags fns =
     (if \<not> is_io_flags_valid io_flags then invalid qp
      else case fns of None \<Rightarrow> invalid qp
         | Some f \<Rightarrow> submit_or_fail ns lba_count (vector_io NVM_COMPARE ns qp lba lba_count cb io_flags f 0 0 0))"

definition spdk_nvme_ns_cmd_comparev_with_md where
  "spdk_nvme_ns_cmd_comparev_with_md ns qp lba lba_count cb io_flags fns metadata apptag_mask apptag =
     (if \<not> is_io_flags_valid io_flags then invalid qp
      else case fns of None \<Rightarrow> invalid qp
         | Some f \<Rightarrow> submit_or_fail ns lba_count (vector_io NVM_COMPARE ns qp lba lba_count cb io_flags f metadata apptag_mask apptag))"

definition spdk_nvme_ns_cmd_read where
  "spdk_nvme_ns_cmd_read ns qp buffer lba lba_count cb io_flags =
     (if \<not> is_io_flags_valid io_flags then invalid qp
      else submit_or_fail ns lba_count (contig_io NVM_READ ns qp buffer 0 lba lba_count cb io_flags 0 0))"

definition spdk_nvme_ns_cmd_read_with_md where
  "spdk_nvme_ns_cmd_read_with_md ns qp buffer metadata lba lba_count cb io_flags apptag_mask apptag =
     (if \<not> is_io_flags_valid io_flags then invalid qp
      else submit_or_fail ns lba_count (contig_io NVM_READ ns qp buffer metadata lba lba_count cb io_flags apptag_mask apptag))"

definition spdk_nvme_ns_cmd_read_with_md_io_id where
  "spdk_nvme_ns_cmd_read_with_md_io_id ns qp buffer metadata lba lba_count cb io_id io_flags apptag_mask apptag =
     (if \<not> is_io_flags_valid io_flags then invalid qp
      else submit_or_fail ns lba_count (tag_request (\<lambda>r. r\<lparr>r_io_id := io_id\<rparr>)
             (contig_io NVM_READ ns qp buffer metadata lba lba_count cb io_flags apptag_mask apptag)))"

definition spdk_nvme_ns_cmd_read_with_md_ns_id where
  "spdk_nvme_ns_cmd_read_with_md_ns_id ns qp buffer metadata lba lba_count cb ns_id io_flags apptag_mask apptag =
     (if \<not> is_io_flags_valid io_flags then invalid qp
      else submit_or_fail ns lba_count (tag_request (\<lambda>r. r\<lparr>r_ns_id := ns_id\<rparr>)
             (contig_io NVM_READ ns qp buffer metadata lba lba_count cb io_flags apptag_mask apptag)))"

definition nvme_ns_cmd_rw_ext where
  "nvme_ns_cmd_rw_ext ns qp buffer lba lba_count cb xo op =
     (if op \<notin> {NVM_READ, NVM_WRITE} then None
      else if \<not> is_io_flags_valid (o_io_flags xo) then invalid qp
      else if \<not> is_accel_sequence_valid ns qp (o_accel_sequence xo) then invalid qp
      else submit_or_fail ns lba_count (build ns qp ((PAYLOAD_CONTIG buffer (o_metadata xo))\<lparr>opts := Some xo\<rparr>) lba lba_count cb op
             (o_io_flags xo) (o_apptag_mask xo) (o_apptag xo) 0 False (o_accel_sequence xo)))"

definition spdk_nvme_ns_cmd_read_ext where
  "spdk_nvme_ns_cmd_read_ext ns qp buffer lba lba_count cb xo = nvme_ns_cmd_rw_ext ns qp buffer lba lba_count cb xo NVM_READ"

definition spdk_nvme_ns_cmd_readv where
  "spdk_nvme_ns_cmd_readv ns qp lba lba_count cb io_flags fns =
     (if \<not> is_io_flags_valid io_flags then invalid qp
      else case fns of None \<Rightarrow> invalid qp
         | Some f \<Rightarrow> submit_or_fail ns lba_count (vector_io NVM_READ ns qp lba lba_count cb io_flags f 0 0 0))"

definition spdk_nvme_ns_cmd_readv_with_md where
  "spdk_nvme_ns_cmd_readv_with_md ns qp lba lba_count cb io_flags fns metadata apptag_mask apptag =
     (if \<not> is_io_flags_valid io_flags then invalid qp
      else case fns of None \<Rightarrow> invalid qp
         | Some f \<Rightarrow> submit_or_fail ns lba_count (vector_io NVM_READ ns qp lba lba_count cb io_flags f metadata apptag_mask apptag))"

definition spdk_nvme_ns_cmd_readv_with_md_io_id where
  "spdk_nvme_ns_cmd_readv_with_md_io_id ns qp lba lba_count cb io_id io_flags fns metadata apptag_mask apptag =
     (if \<not> is_io_flags_valid io_flags then invalid qp
      else case fns of None \<Rightarrow> invalid qp
         | Some f \<Rightarrow> submit_or_fail ns lba_count (tag_request (\<lambda>r. r\<lparr>r_io_id := io_id\<rparr>)
             (vector_io NVM_READ ns qp lba lba_count cb io_flags f metadata apptag_mask apptag)))"

definition spdk_nvme_ns_cmd_readv_with_md_ns_id where
  "spdk_nvme_ns_cmd_readv_with_md_ns_id ns qp lba lba_count cb ns_id io_flags fns metadata apptag_mask apptag =
     (if \<not> is_io_flags_valid io_flags then invalid qp
      else case fns of None \<Rightarrow> invalid qp
         | Some f \<Rightarrow> submit_or_fail ns lba_count (tag_request (\<lambda>r. r\<lparr>r_ns_id := ns_id\<rparr>)
             (vector_io NVM_READ ns qp lba lba_count cb io_flags f metadata apptag_mask apptag)))"

definition nvme_ns_cmd_rwv_ext where
  "nvme_ns_cmd_rwv_ext ns qp lba lba_count cb fns xopt op =
     (if op \<notin> {NVM_READ, NVM_WRITE} then None
      else case fns of None \<Rightarrow> invalid qp
         | Some f \<Rightarrow> (case xopt of
             None \<Rightarrow> submit_or_fail ns lba_count (build ns qp (PAYLOAD_SGL f cb 0) lba lba_count cb op 0 0 0 0 True False)
           | Some xo \<Rightarrow>
               if \<not> is_io_flags_valid (o_io_flags xo) then invalid qp
               else if \<not> is_accel_sequence_valid ns qp (o_accel_sequence xo) then invalid qp
               else submit_or_fail ns lba_count (build ns qp ((PAYLOAD_SGL f cb (o_metadata xo))\<lparr>opts := Some xo\<rparr>) lba lba_count cb op
                      (o_io_flags xo) (o_apptag_mask xo) (o_apptag xo) (o_cdw13 xo) True (o_accel_sequence xo))))"

definition spdk_nvme_ns_cmd_readv_ext where
  "spdk_nvme_ns_cmd_readv_ext ns qp lba lba_count cb fns xopt = nvme_ns_cmd_rwv_ext ns qp lba lba_count cb fns xopt NVM_READ"

definition spdk_nvme_ns_cmd_write where
  "spdk_nvme_ns_cmd_write ns qp buffer lba lba_count cb io_flags =
     (if \<not> is_io_flags_valid io_flags then invalid qp
      else submit_or_fail ns lba_count (contig_io NVM_WRITE ns qp buffer 0 lba lba_count cb io_flags 0 0))"

definition nvme_ns_cmd_check_zone_append :: "spdk_nvme_ns \<Rightarrow> u32 \<Rightarrow> u32 \<Rightarrow> int" where
  "nvme_ns_cmd_check_zone_append ns lba_count io_flags =
     (if \<not> zone_append_supported ns then - EINVAL
      else if lba_count * host_buffer_sector_size ns io_flags > max_zone_append_size ns then - EINVAL
      else 0)"

text \<open>A zone append cannot be split: a request with children is given back.\<close>

definition unsplit_or_fail :: "spdk_nvme_ns \<Rightarrow> u32 \<Rightarrow> rw_result \<Rightarrow> ns_cmd_result" where
  "unsplit_or_fail ns lba_count r = (case r of
     Some (qp, Inr req) \<Rightarrow>
       if rq_children req \<noteq> [] then do {
         (req, qp) \<leftarrow> nvme_request_free_children req qp;
         qp \<leftarrow> nvme_free_request req qp;
         invalid qp
       }
       else Some (qp, Submit req)
   | _ \<Rightarrow> submit_or_fail ns lba_count r)"

definition nvme_ns_cmd_zone_append_with_md where
  "nvme_ns_cmd_zone_append_with_md ns qp buffer metadata zslba lba_count cb io_flags apptag_mask apptag =
     (let rc = nvme_ns_cmd_check_zone_append ns lba_count io_flags;
          r = contig_io NVM_ZONE_APPEND ns qp buffer metadata zslba lba_count cb io_flags apptag_mask apptag
      in if \<not> is_io_flags_valid io_flags then invalid qp
         else if rc \<noteq> 0 then Some (qp, Fail rc)
         else case r of
             Some (qp, Inr req) \<Rightarrow> if rq_children req \<noteq> [] then None else unsplit_or_fail ns lba_count r
           | _ \<Rightarrow> unsplit_or_fail ns lba_count r)"

definition nvme_ns_cmd_zone_appendv_with_md where
  "nvme_ns_cmd_zone_appendv_with_md ns qp zslba lba_count cb io_flags fns metadata apptag_mask apptag =
     (let rc = nvme_ns_cmd_check_zone_append ns lba_count io_flags
      in if \<not> is_io_flags_valid io_flags then invalid qp
         else case fns of None \<Rightarrow> invalid qp
            | Some f \<Rightarrow> if rc \<noteq> 0 then Some (qp, Fail rc)
                else unsplit_or_fail ns lba_count (vector_io NVM_ZONE_APPEND ns qp zslba lba_count cb io_flags f metadata apptag_mask apptag))"

definition spdk_nvme_ns_cmd_write_with_md where
  "spdk_nvme_ns_cmd_write_with_md ns qp buffer metadata lba lba_count cb io_flags apptag_mask apptag =
     (if \<not> is_io_flags_valid io_flags then invalid qp
      else submit_or_fail ns lba_count (contig_io NVM_WRITE ns qp buffer metadata lba lba_count cb io_flags apptag_mask apptag))"

definition spdk_nvme_ns_cmd_write_with_md_io_id where
  "spdk_nvme_ns_cmd_write_with_md_io_id ns qp buffer metadata lba lba_count cb io_id io_flags apptag_mask apptag =
     (if \<not> is_io_flags_valid io_flags then invalid qp
      else submit_or_fail ns lba_count (tag_request (\<lambda>r. r\<lparr>r_io_id := io_id\<rparr>)
             (contig_io NVM_WRITE ns qp buffer metadata lba lba_count cb io_flags apptag_mask apptag)))"

definition spdk_nvme_ns_cmd_write_with_md_ns_id where
  "spdk_nvme_ns_cmd_write_with_md_ns_id ns qp buffer metadata lba lba_count cb ns_id io_flags apptag_mask apptag =
     (if \<not> is_io_flags_valid io_flags then invalid qp
      else submit_or_fail ns lba_count (tag_request (\<lambda>r. r\<lparr>r_ns_id := ns_id\<rparr>)
             (contig_io NVM_WRITE ns qp buffer metadata lba lba_count cb io_flags apptag_mask apptag)))"

definition spdk_nvme_ns_cmd_write_ext where
  "spdk_nvme_ns_cmd_write_ext ns qp buffer lba lba_count cb xo = nvme_ns_cmd_rw_ext ns qp buffer lba lba_count cb xo NVM_WRITE"

definition spdk_nvme_ns_cmd_writev where
  "spdk_nvme_ns_cmd_writev ns qp lba lba_count cb io_flags fns =
     (if \<not> is_io_flags_valid io_flags then invalid qp
      else case fns of None \<Rightarrow> invalid qp
         | Some f \<Rightarrow> submit_or_fail ns lba_count (vector_io NVM_WRITE ns qp lba lba_count cb io_flags f 0 0 0))"

definition spdk_nvme_ns_cmd_writev_with_md where
  "spdk_nvme_ns_cmd_writev_with_md ns qp lba lba_count cb io_flags fns metadata apptag_mask apptag =
     (if \<not> is_io_flags_valid io_flags then invalid qp
      else case fns of None \<Rightarrow> invalid qp
         | Some f \<Rightarrow> submit_or_fail ns lba_count (vector_io NVM_WRITE ns qp lba lba_count cb io_flags f metadata apptag_mask apptag))"

definition spdk_nvme_ns_cmd_writev_with_md_io_id where
  "spdk_nvme_ns_cmd_writev_with_md_io_id ns qp lba lba_count cb io_id io_flags fns metadata apptag_mask apptag =
     (if \<not> is_io_flags_valid io_flags then invalid qp
      else case fns of None \<Rightarrow> invalid qp
         | Some f \<Rightarrow> submit_or_fail ns lba_count (tag_request (\<lambda>r. r\<lparr>r_io_id := io_id\<rparr>)
             (vector_io NVM_WRITE ns qp lba lba_count cb io_flags f metadata apptag_mask apptag)))"

definition spdk_nvme_ns_cmd_writev_with_md_ns_id where
  "spdk_nvme_ns_cmd_writev_with_md_ns_id ns qp lba lba_count cb ns_id io_flags fns metadata apptag_mask apptag =
     (if \<not> is_io_flags_valid io_flags then invalid qp
      else case fns of None \<Rightarrow> invalid qp
         | Some f \<Rightarrow> submit_or_fail ns lba_count (tag_request (\<lambda>r. r\<lparr>r_ns_id := ns_id\<rparr>)
             (vector_io NVM_WRITE ns qp lba lba_count cb io_flags f metadata apptag_mask apptag)))"

definition spdk_nvme_ns_cmd_writev_ext where
  "spdk_nvme_ns_cmd_writev_ext ns qp lba lba_count cb fns xopt = nvme_ns_cmd_rwv_ext ns qp lba lba_count cb fns xopt NVM_WRITE"

text \<open>Commands without data: one request, at most 65536 blocks.\<close>

definition no_data_cmd :: "spdk_nvme_ns \<Rightarrow> spdk_nvme_qpair \<Rightarrow> u8 \<Rightarrow> u64 \<Rightarrow> u32 \<Rightarrow> u64 \<Rightarrow> u32 \<Rightarrow> ns_cmd_result" where
  "no_data_cmd ns qp op lba lba_count cb io_flags =
     (if lba_count = 0 \<or> lba_count > 65536 then invalid qp
      else case nvme_allocate_request qp (PAYLOAD_CONTIG 0 0) 0 0 (User_cb cb) of
          None \<Rightarrow> Some (qp, Fail (- ENOMEM))
        | Some (qp, req) \<Rightarrow> Some (qp, Submit (on_info (\<lambda>r. r\<lparr>r_cmd := zero_cmd\<lparr>c_opc := op, c_nsid := ns_ident ns, c_lba := lba,
            c_cdw12 := (lba_count - 1) OR (io_flags AND FLAGS_CDW12_MASK), c_fuse := io_flags AND FLAGS_FUSE_MASK\<rparr>\<rparr>) req)))"

definition spdk_nvme_ns_cmd_write_zeroes where
  "spdk_nvme_ns_cmd_write_zeroes ns qp lba lba_count cb io_flags =
     (if \<not> is_io_flags_valid io_flags then invalid qp else no_data_cmd ns qp NVM_WRITE_ZEROES lba lba_count cb io_flags)"

definition spdk_nvme_ns_cmd_verify where
  "spdk_nvme_ns_cmd_verify ns qp lba lba_count cb io_flags =
     (if \<not> is_io_flags_valid io_flags then invalid qp else no_data_cmd ns qp NVM_VERIFY lba lba_count cb io_flags)"

definition spdk_nvme_ns_cmd_write_uncorrectable where
  "spdk_nvme_ns_cmd_write_uncorrectable ns qp lba lba_count cb = no_data_cmd ns qp NVM_WRITE_UNCORRECTABLE lba lba_count cb 0"

end
