(* ===== verification/Nvme_Split.thy ===== *)
theory Nvme_Split
  imports Nvme_Ns_Cmd
begin

text \<open>
  Splitting a read or write covers exactly the blocks and the bytes that were asked for, respects
  the limits of the device, comes to an end and gives every request back when it runs out of them.
\<close>

section \<open>What a request stands for\<close>

text \<open>The commands that reach the device are the leaves of the tree.\<close>

fun leaves :: "nvme_request \<Rightarrow> request_info list" where
  "leaves (Request i r cs) = (if cs = [] then [r] else concat (map leaves cs))"

definition child_leaves :: "nvme_request \<Rightarrow> request_info list" where
  "child_leaves t = concat (map leaves (rq_children t))"

text \<open>The number of blocks is in the lower half of a command's twelfth word, less one.\<close>

definition nlb :: "request_info \<Rightarrow> nat" where
  "nlb r = unat (c_cdw12 (r_cmd r) AND 0xFFFF) + 1"

definition leaf_blocks :: "request_info \<Rightarrow> nat list" where
  "leaf_blocks r = [unat (c_lba (r_cmd r))..<unat (c_lba (r_cmd r)) + nlb r]"

definition leaf_bytes :: "request_info \<Rightarrow> nat list" where
  "leaf_bytes r = [unat (r_payload_offset r)..<unat (r_payload_offset r) + unat (r_payload_size r)]"

lemma leaves_children: "rq_children t \<noteq> [] \<Longrightarrow> leaves t = child_leaves t"
  by (cases t) (simp add: child_leaves_def)

definition view :: "request_info \<Rightarrow> u8 \<times> nat list \<times> nat list \<times> u64 \<times> nat" where
  "view r = (c_opc (r_cmd r), leaf_blocks r, leaf_bytes r, c_lba (r_cmd r), nlb r)"

lemma leaves_cb [simp]: "map view (leaves (on_info (\<lambda>r. r\<lparr>r_cb := cb\<rparr>) t)) = map view (leaves t)"
  by (cases t) (simp add: view_def leaf_blocks_def leaf_bytes_def nlb_def)

lemma child_leaves_fresh [simp]: "rq_children t = [] \<Longrightarrow> child_leaves t = []"
  by (simp add: child_leaves_def)

lemma child_leaves_add:
  "nvme_request_add_child p c = Some t \<Longrightarrow> map view (child_leaves t) = map view (child_leaves p) @ map view (leaves c) \<and> rq_children t \<noteq> []"
  by (auto simp: nvme_request_add_child_def child_leaves_def split: if_splits)

text \<open>
  A list of commands that covers a range of blocks and the bytes for them in order, each within
  the largest transfer and inside one stripe.
\<close>

definition stripe_of :: "spdk_nvme_ns \<Rightarrow> rw_args \<Rightarrow> u32" where
  "stripe_of ns A = (if a_opc A = NVM_ZONE_APPEND then 0 else sectors_per_stripe ns)"

definition fits_stripe :: "u32 \<Rightarrow> nat \<Rightarrow> nat \<Rightarrow> bool" where
  "fits_stripe stripe lba n \<longleftrightarrow> stripe = 0 \<or> lba mod unat stripe + n \<le> unat stripe"

definition leaf_ok :: "spdk_nvme_ns \<Rightarrow> rw_args \<Rightarrow> u8 \<times> nat list \<times> nat list \<times> u64 \<times> nat \<Rightarrow> bool" where
  "leaf_ok ns A v = (case v of (op, _, _, lba, n) \<Rightarrow> op = a_opc A \<and> n \<le> unat (get_sectors_per_max_io ns (a_flags A)) \<and>
     fits_stripe (stripe_of ns A) (unat lba) n)"

definition covers :: "spdk_nvme_ns \<Rightarrow> rw_args \<Rightarrow> nat list \<Rightarrow> nat list \<Rightarrow> (u8 \<times> nat list \<times> nat list \<times> u64 \<times> nat) list \<Rightarrow> bool" where
  "covers ns A bs ys vs \<longleftrightarrow> concat (map (\<lambda>v. fst (snd v)) vs) = bs \<and> concat (map (\<lambda>v. fst (snd (snd v))) vs) = ys \<and> (\<forall>v \<in> set vs. leaf_ok ns A v)"

lemma covers_Nil [simp]: "covers ns A [] [] []"
  by (simp add: covers_def)

lemma covers_append: "covers ns A bs ys vs \<Longrightarrow> covers ns A bs' ys' vs' \<Longrightarrow> covers ns A (bs @ bs') (ys @ ys') (vs @ vs')"
  by (auto simp: covers_def)

section \<open>Results of building a request\<close>

text \<open>
  Started on the queue pair \<open>qp\<close>, the construction returns. It runs out of requests and has given
  all of them back, or it rejects the payload, or it holds exactly the requests of its tree.
\<close>

definition built :: "bool \<Rightarrow> (nvme_request \<Rightarrow> bool) \<Rightarrow> spdk_nvme_qpair \<Rightarrow> rw_result \<Rightarrow> bool" where
  "built rejects P qp r \<longleftrightarrow>
     (\<exists>qp'. r = Some (qp', Inl (- ENOMEM)) \<and> holds {#} qp qp') \<or>
     (\<exists>qp' u. rejects \<and> r = Some (qp', Inl (- EINVAL)) \<and> holds u qp qp') \<or>
     (\<exists>qp' t. r = Some (qp', Inr t) \<and> holds (mset (tree_ids t)) qp qp' \<and> P t)"

lemma built_cases:
  assumes "built rejects P qp r"
  obtains qp' where "r = Some (qp', Inl (- ENOMEM))" "holds {#} qp qp'"
  | qp' u where "rejects" "r = Some (qp', Inl (- EINVAL))" "holds u qp qp'"
  | qp' t where "r = Some (qp', Inr t)" "holds (mset (tree_ids t)) qp qp'" "P t"
  using assms by (auto simp: built_def)

lemma built_mono: "built rejects P qp r \<Longrightarrow> (rejects \<Longrightarrow> rejects') \<Longrightarrow> (\<And>t. P t \<Longrightarrow> Q t) \<Longrightarrow> built rejects' Q qp r"
  by (auto simp: built_def)

lemma holds_length: "holds u qp qp' \<Longrightarrow> length (free_req qp) = length (free_req qp') + size u"
proof -
  assume "holds u qp qp'"
  then have "size (pool_ids qp) = size (pool_ids qp' + u)" by (simp add: holds_def)
  then show ?thesis by (simp add: pool_ids_def)
qed

lemma tree_ids_children: "length (rq_children t) < length (tree_ids t)"
proof (cases t)
  case (Request i r cs)
  have "length cs \<le> length (concat (map tree_ids cs))"
  proof (induction cs)
    case (Cons c cs)
    then show ?case by (cases c) simp
  qed simp
  then show ?thesis by (simp add: Request)
qed

text \<open>One child more: the parent was taken from \<open>qp0\<close>, the child is taken from what is left.\<close>

lemma add_child_built:
  assumes "holds (mset (tree_ids req)) qp0 qp" and "length (free_req qp0) < 65535" and "built rejects P qp r"
  shows "(\<exists>qp' rc. add_child_request r req = Some (qp', Inl rc) \<and> (\<forall>Q. built rejects Q qp0 (Some (qp', Inl rc)))) \<or>
    (\<exists>qp' c t. add_child_request r req = Some (qp', Inr t) \<and> holds (mset (tree_ids t)) qp0 qp' \<and> P c \<and>
       nvme_request_add_child req c = Some t \<and> length (free_req qp') < length (free_req qp))"
  using assms(3)
proof (cases rule: built_cases)
  case (1 qp')
  have "holds ({#} + {#rq_id req#} + mset (concat (map tree_ids (rq_children req)))) qp0 qp'"
    using holds_trans [OF assms(1) 1(2)] by (cases req) simp
  then obtain qp1 where "free_requests (rq_children req) qp' = Some qp1" "holds ({#} + {#rq_id req#}) qp0 qp1"
    using free_requests_holds by (metis (no_types, lifting))
  moreover obtain qp2 where "nvme_free_request (Request (rq_id req) (rq_info req) []) qp1 = Some qp2" "holds {#} qp0 qp2"
    using free_requests_holds [of "{#}" "[Request (rq_id req) (rq_info req) []]" qp0 qp1] calculation(2) by auto
  ultimately show ?thesis using 1(1) by (simp add: add_child_request_def nvme_request_free_children_def built_def)
next
  case (2 qp' u)
  have "holds (u + {#rq_id req#} + mset (concat (map tree_ids (rq_children req)))) qp0 qp'"
    using holds_trans [OF assms(1) 2(3)] by (cases req) (simp add: ac_simps)
  then obtain qp1 where "free_requests (rq_children req) qp' = Some qp1" "holds (u + {#rq_id req#}) qp0 qp1"
    using free_requests_holds by (metis (no_types, lifting))
  moreover obtain qp2 where "nvme_free_request (Request (rq_id req) (rq_info req) []) qp1 = Some qp2" "holds u qp0 qp2"
    using free_requests_holds [of u "[Request (rq_id req) (rq_info req) []]" qp0 qp1] calculation(2) by auto
  ultimately show ?thesis using 2(1,2) by (auto simp: add_child_request_def nvme_request_free_children_def built_def)
next
  case (3 qp' c)
  have "length (rq_children req) < 65535"
    using tree_ids_children [of req] holds_size [OF assms(1)] assms(2) by simp
  then obtain t where t: "nvme_request_add_child req c = Some t" by (simp add: nvme_request_add_child_def)
  have "holds (mset (tree_ids t)) qp0 qp'" using holds_trans [OF assms(1) 3(2)] add_child_ids [OF t] by simp
  moreover have "length (free_req qp') < length (free_req qp)"
    using holds_length [OF 3(2)] by (cases c) simp
  ultimately show ?thesis using 3(1,3) t by (auto simp: add_child_request_def)
qed

text \<open>
  What is claimed of a tree built for \<open>cnt\<close> blocks from \<open>lba\<close> at the byte offset \<open>po\<close>: on a device
  with a largest transfer of 1 to 65536 blocks, a non-empty request is covered by its commands,
  as long as the byte offsets do not overflow.
\<close>

definition usable :: "spdk_nvme_ns \<Rightarrow> rw_args \<Rightarrow> bool" where
  "usable ns A \<longleftrightarrow> 0 < unat (get_sectors_per_max_io ns (a_flags A)) \<and> unat (get_sectors_per_max_io ns (a_flags A)) \<le> 65536"

definition byte_end :: "spdk_nvme_ns \<Rightarrow> rw_args \<Rightarrow> u32 \<Rightarrow> u32 \<Rightarrow> nat" where
  "byte_end ns A po cnt = unat po + unat cnt * unat (host_buffer_sector_size ns (a_flags A))"

definition made :: "spdk_nvme_ns \<Rightarrow> rw_args \<Rightarrow> u32 \<Rightarrow> u64 \<Rightarrow> u32 \<Rightarrow> nvme_request \<Rightarrow> bool" where
  "made ns A po lba cnt t \<longleftrightarrow> (usable ns A \<longrightarrow> cnt \<noteq> 0 \<longrightarrow> byte_end ns A po cnt < 2 ^ 32 \<longrightarrow>
     covers ns A [unat lba..<unat lba + unat cnt] [unat po..<byte_end ns A po cnt] (map view (leaves t)))"

section \<open>Splitting by number of blocks\<close>

lemma unat_min: "unat (min a b) = min (unat a) (unat b)"
  by (simp add: min_def word_le_nat_alt)

text \<open>The loop variables after a child of \<open>n\<close> blocks.\<close>

lemma advance_blocks:
  fixes lba :: u64 and rem n :: u32
  assumes "n \<le> rem" and "n \<noteq> rem" and "unat lba + unat rem \<le> 2 ^ 64"
  shows "unat (lba + ucast n) = unat lba + unat n"
proof -
  have "unat n < unat rem" using assms(1,2) by (metis le_neq_trans word_less_nat_alt)
  then have "unat lba + unat n < 2 ^ 64" using assms(3) by simp
  then show ?thesis by (simp add: unat_word_ariths)
qed

lemma advance_bytes:
  assumes "unat n \<le> unat (rem :: u32)" and "byte_end ns A po rem < 2 ^ 32"
  shows "unat (po + n * host_buffer_sector_size ns (a_flags A)) = byte_end ns A po n"
    and "byte_end ns A (po + n * host_buffer_sector_size ns (a_flags A)) (rem - n) = byte_end ns A po rem"
    and "byte_end ns A po n \<le> byte_end ns A po rem"
proof -
  let ?s = "host_buffer_sector_size ns (a_flags A)"
  show le: "byte_end ns A po n \<le> byte_end ns A po rem" using assms(1) by (simp add: byte_end_def)
  then have "unat po + unat n * unat ?s < 2 ^ 32" using assms(2) unfolding byte_end_def by linarith
  then show po: "unat (po + n * ?s) = byte_end ns A po n" by (simp add: unat_word_ariths byte_end_def)
  have "unat (rem - n) = unat rem - unat n" using assms(1) by (simp add: unat_sub word_le_nat_alt)
  then show "byte_end ns A (po + n * ?s) (rem - n) = byte_end ns A po rem"
    using assms(1) po by (simp add: byte_end_def diff_mult_distrib mult_le_mono1)
qed

lemma split_loop_built:
  assumes mk: "\<And>po mo lba cnt qp. G lba cnt \<Longrightarrow> length (free_req qp) < 65535 \<Longrightarrow> built rejects (made ns A po lba cnt) qp (mk po mo lba cnt qp)"
    and G: "\<And>lba rem. lo \<le> unat lba \<Longrightarrow> unat lba + unat rem = hi \<Longrightarrow> rem \<noteq> 0 \<Longrightarrow> G lba (min rem (maxs - ucast (lba AND ucast msk)))"
    and pos: "\<And>lba :: u64. nice \<Longrightarrow> maxs - ucast (lba AND ucast msk) \<noteq> 0"
    and nice: "nice \<Longrightarrow> usable ns A \<and> Y < 2 ^ 32"
    and "hi \<le> 2 ^ 64" and few: "length (free_req qp0) < 65535" and ss: "ss = host_buffer_sector_size ns (a_flags A)"
    and "holds (mset (tree_ids req)) qp0 qp" and "rem \<noteq> 0 \<longrightarrow> lo \<le> unat lba \<and> unat lba + unat rem = hi"
    and "nice \<longrightarrow> byte_end ns A po rem = Y \<and> covers ns A bs ys (map view (child_leaves req))"
    and "rem = 0 \<longrightarrow> rq_children req \<noteq> []"
  shows "built rejects (\<lambda>t. rq_children t \<noteq> [] \<and> (nice \<longrightarrow>
      covers ns A (bs @ (if rem = 0 then [] else [unat lba..<hi])) (ys @ [unat po..<Y]) (map view (child_leaves t)))) qp0
    (split_loop mk ss mdsz maxs msk po mo lba rem req qp)"
  using assms(8-)
proof (induction "length (free_req qp)" arbitrary: po mo lba rem req qp bs ys rule: less_induct)
  case less
  show ?case
  proof (cases "rem = 0")
    case True
    then have "unat po = Y" if nice using less.prems(3) that by (simp add: byte_end_def)
    then show ?thesis using True less.prems by (auto simp: split_loop.simps built_def)
  next
    case False
    define n where "n = min rem (maxs - ucast (lba AND ucast msk))"
    have le: "n \<le> rem" by (simp add: n_def)
    let ?po = "po + n * ss" and ?lba = "lba + ucast n" and ?rem = "rem - n"
    have lo: "lo \<le> unat lba" "unat lba + unat rem = hi" using less.prems(2) False by blast+
    have fewq: "length (free_req qp) < 65535" using holds_length [OF less.prems(1)] few by simp
    have "G lba n" using G [OF lo False] by (simp add: n_def)
    note step = add_child_built [OF less.prems(1) few mk [OF this fewq, of po mo]]
    have unfold: "split_loop mk ss mdsz maxs msk po mo lba rem req qp =
        Option.bind (add_child_request (mk po mo lba n qp) req) (\<lambda>(qp, res). case res of Inl rc \<Rightarrow> Some (qp, Inl rc)
          | Inr req \<Rightarrow> split_loop mk ss mdsz maxs msk ?po (mo + n * mdsz) ?lba ?rem req qp)"
      using False by (subst split_loop.simps) (simp add: Let_def n_def)
    from step show ?thesis
    proof (elim disjE exE conjE)
      fix qp' rc
      assume "add_child_request (mk po mo lba n qp) req = Some (qp', Inl rc)"
        and "\<forall>Q. built rejects Q qp0 (Some (qp', Inl rc))"
      then show ?thesis unfolding unfold by simp
    next
      fix qp' c t
      assume add: "add_child_request (mk po mo lba n qp) req = Some (qp', Inr t)" and t: "holds (mset (tree_ids t)) qp0 qp'"
        and c: "made ns A po lba n c" and ct: "nvme_request_add_child req c = Some t" and len: "length (free_req qp') < length (free_req qp)"
      have blk: "unat ?rem = unat rem - unat n" "unat n \<le> unat rem" "?rem \<noteq> 0 \<Longrightarrow> unat ?lba = unat lba + unat n"
        using advance_blocks [OF le, of lba] lo(2) assms(5) le by (auto simp: unat_sub word_le_nat_alt)
      have "next": "?rem \<noteq> 0 \<longrightarrow> lo \<le> unat ?lba \<and> unat ?lba + unat ?rem = hi" using blk lo by auto
      have bytes: "unat ?po = byte_end ns A po n" "byte_end ns A ?po ?rem = Y" "byte_end ns A po n \<le> Y" if nice
        using advance_bytes [OF blk(2), of ns A po] less.prems(3) nice that by (auto simp: ss)
      have "covers ns A [unat lba..<unat lba + unat n] [unat po..<byte_end ns A po n] (map view (leaves c))" if nice
        using c nice [OF that] bytes(3) [OF that] pos [OF that, of lba] False by (auto simp: made_def n_def min_def)
      then have cov: "nice \<longrightarrow> byte_end ns A ?po ?rem = Y \<and>
          covers ns A (bs @ [unat lba..<unat lba + unat n]) (ys @ [unat po..<byte_end ns A po n]) (map view (child_leaves t))"
        using bytes(2) less.prems(3) child_leaves_add [OF ct] by (simp add: covers_append)
      have kids: "rq_children t \<noteq> []" using child_leaves_add [OF ct] by blast
      have "built rejects (\<lambda>t. rq_children t \<noteq> [] \<and> (nice \<longrightarrow>
          covers ns A ((bs @ [unat lba..<unat lba + unat n]) @ (if ?rem = 0 then [] else [unat ?lba..<hi]))
            ((ys @ [unat po..<byte_end ns A po n]) @ [unat ?po..<Y]) (map view (child_leaves t)))) qp0
        (split_loop mk ss mdsz maxs msk ?po (mo + n * mdsz) ?lba ?rem t qp')"
        by (rule less.hyps [OF len t "next" cov]) (simp add: kids)
      moreover have "[unat lba..<unat lba + unat n] @ (if ?rem = 0 then [] else [unat ?lba..<hi]) = [unat lba..<hi]"
        using blk lo(2) upt_add_eq_append [of "unat lba" "unat lba + unat n" "unat rem - unat n"] by auto
      moreover have "[unat po..<byte_end ns A po n] @ [unat ?po..<Y] = [unat po..<Y]" if nice
        using bytes(1,3) [OF that] upt_add_eq_append [of "unat po" "byte_end ns A po n" "Y - byte_end ns A po n"]
        by (simp add: byte_end_def)
      ultimately have "built rejects (\<lambda>t. rq_children t \<noteq> [] \<and> (nice \<longrightarrow>
          covers ns A (bs @ (if rem = 0 then [] else [unat lba..<hi])) (ys @ [unat po..<Y]) (map view (child_leaves t)))) qp0
        (split_loop mk ss mdsz maxs msk ?po (mo + n * mdsz) ?lba ?rem t qp')"
        using False by (elim built_mono) auto
      then show ?thesis unfolding unfold add by simp
    qed
  qed
qed

section \<open>The stripe test\<close>

definition stripe_ok :: "spdk_nvme_ns \<Rightarrow> bool" where
  "stripe_ok ns \<longleftrightarrow> sectors_per_stripe ns = 0 \<or> (\<exists>k < 32. sectors_per_stripe ns = 2 ^ k)"

lemma stripe_of_ok: "stripe_ok ns \<Longrightarrow> stripe_of ns A = 0 \<or> (\<exists>k < 32. stripe_of ns A = 2 ^ k)"
  by (auto simp: stripe_ok_def stripe_of_def)

lemma unat_pow2: "k < LENGTH('a) \<Longrightarrow> unat (2 ^ k :: 'a :: len word) = 2 ^ k"
proof -
  assume "k < LENGTH('a)"
  then have "(2 :: nat) ^ k < 2 ^ LENGTH('a)" by simp
  then have "unat (of_nat (2 ^ k) :: 'a word) = 2 ^ k" by (simp only: unsigned_of_nat take_bit_nat_eq_self of_nat_id)
  then show ?thesis by simp
qed

lemma stripe_mask:
  fixes s :: u32 and lba :: u64
  assumes "s = 2 ^ k" and "k < 32"
  shows "unat (lba AND ucast (s - 1)) = unat lba mod unat s"
proof -
  have "s - 1 = mask k" using assms(1) by (simp add: mask_eq_exp_minus_1)
  then have "ucast (s - 1) = (mask k :: u64)" using assms(2) by (simp add: ucast_mask_eq min_def)
  then have "lba AND ucast (s - 1) = take_bit k lba" by (simp add: take_bit_eq_mask)
  moreover have "unat s = 2 ^ k" using assms by (simp add: unat_pow2)
  ultimately show ?thesis by (simp add: unsigned_take_bit_eq flip: take_bit_eq_mod)
qed

lemma stripe_test:
  fixes lba :: u64 and cnt s :: u32
  assumes "s = 0 \<or> (\<exists>k < 32. s = 2 ^ k)"
  shows "(s > 0 \<and> (lba AND ucast (s - 1)) + ucast cnt > ucast s) \<longleftrightarrow> \<not> fits_stripe s (unat lba) (unat cnt)"
proof (cases "s = 0")
  case False
  then obtain k where k: "k < 32" "s = 2 ^ k" using assms by blast
  have m: "unat (lba AND ucast (s - 1)) = unat lba mod unat s" using stripe_mask [OF k(2,1)] .
  have "0 < unat s" using False by (simp add: unat_gt_0)
  then have "unat lba mod unat s + unat cnt < 2 ^ 64"
    using mod_less_divisor [of "unat s" "unat lba"] unat_u32_lt [of s] unat_u32_lt [of cnt] by (simp del: mod_less_divisor)
  then have "unat ((lba AND ucast (s - 1)) + ucast cnt) = unat lba mod unat s + unat cnt" by (simp add: unat_word_ariths m)
  then show ?thesis using False by (auto simp: fits_stripe_def word_less_nat_alt word_neq_0_conv)
qed (simp add: fits_stripe_def)

lemma stripe_chunk:
  fixes lba :: u64 and s :: u32
  assumes "s = 2 ^ k" and "k < 32"
  shows "unat (s - ucast (lba AND ucast (s - 1))) = unat s - unat lba mod unat s" and "s - ucast (lba AND ucast (s - 1)) \<noteq> 0"
proof -
  have s: "0 < unat s" using assms by (simp add: unat_pow2)
  have m: "unat (lba AND ucast (s - 1)) = unat lba mod unat s" using stripe_mask [OF assms] .
  have lt: "unat lba mod unat s < unat s" using s by simp
  have c: "unat (ucast (lba AND ucast (s - 1)) :: u32) = unat lba mod unat s"
    using m lt unat_u32_lt [of s] by (simp add: unsigned_ucast_eq take_bit_nat_eq_self)
  then show e: "unat (s - ucast (lba AND ucast (s - 1))) = unat s - unat lba mod unat s"
    using lt by (simp add: unat_sub word_le_nat_alt)
  then show "s - ucast (lba AND ucast (s - 1)) \<noteq> 0" using lt by (metis diff_is_0_eq leD unsigned_0)
qed

text \<open>A part of a range that lies inside one stripe lies inside one stripe.\<close>

lemma fits_stripe_sub:
  assumes "fits_stripe s lo (hi - lo)" and "lo \<le> lba" and "lba + n \<le> hi"
  shows "fits_stripe s lba n"
proof (cases "s = 0")
  case False
  have "lba mod unat s \<le> lo mod unat s + (lba - lo)"
    using assms(2) by (metis le_add_diff_inverse mod_add_left_eq mod_less_eq_dividend)
  then show ?thesis using assms False by (auto simp: fits_stripe_def)
qed (simp add: fits_stripe_def)

section \<open>One command\<close>

lemma cdw12_blocks:
  fixes cnt f :: u32
  assumes "cnt \<noteq> 0" and "unat cnt \<le> 65536"
  shows "unat ((cnt - 1 OR (f AND FLAGS_CDW12_MASK)) AND 0xFFFF) + 1 = unat cnt"
proof -
  have lt: "unat (cnt - 1) < 65536" using assms by (simp add: unat_minus_one)
  have "(f AND FLAGS_CDW12_MASK) AND 0xFFFF = 0" by (simp add: and.assoc)
  then have "(cnt - 1 OR (f AND FLAGS_CDW12_MASK)) AND 0xFFFF = (cnt - 1) AND 0xFFFF" by (simp add: bit.conj_disj_distrib2)
  also have "\<dots> = (cnt - 1) AND mask 16" by (simp add: mask_eq_exp_minus_1)
  also have "(cnt - 1) AND mask 16 = cnt - 1" using lt
    by (simp add: word_unat_eq_iff unsigned_take_bit_eq take_bit_nat_eq_self flip: take_bit_eq_mask)
  finally show ?thesis using assms by (simp add: unat_minus_one unat_gt_0 Suc_leI)
qed

definition args_ok :: "spdk_nvme_ns \<Rightarrow> rw_args \<Rightarrow> bool" where
  "args_ok ns A \<longleftrightarrow> is_io_flags_valid (a_flags A) \<and> (a_opc A = NVM_ZONE_APPEND \<longrightarrow> is_zns ns) \<and> stripe_ok ns"

declare ns_cmd_rw.simps [simp del]

lemma rw_cases:
  assumes "args_ok ns A"
  obtains (none) "ns_cmd_rw (Suc n) ns A check accel po mo lba cnt qp = Some (qp, Inl (- ENOMEM))"
  | (some) qp' req where "holds (mset (tree_ids req)) qp qp'" "rq_children req = []"
      "r_payload_offset (rq_info req) = po" "r_payload_size (rq_info req) = cnt * host_buffer_sector_size ns (a_flags A)"
      "ns_cmd_rw (Suc n) ns A check accel po mo lba cnt qp =
        (if \<not> fits_stripe (stripe_of ns A) (unat lba) (unat cnt)
         then split_request (ns_cmd_rw n ns A True False) ns (a_flags A) accel (stripe_of ns A) (stripe_of ns A - 1) po mo lba cnt req qp'
         else if cnt > get_sectors_per_max_io ns (a_flags A)
         then split_request (ns_cmd_rw n ns A True False) ns (a_flags A) accel (get_sectors_per_max_io ns (a_flags A)) 0 po mo lba cnt req qp'
         else case (if check then sgl (a_payload A) else None) of
             Some f \<Rightarrow> if sgl_supported ns then split_request_sgl (ns_cmd_rw n ns A False False) ns A accel f po mo lba cnt req qp'
                       else split_request_prp (ns_cmd_rw n ns A False False) ns A accel f po mo lba cnt req qp'
           | None \<Rightarrow> Option.bind (setup_request ns A lba cnt req) (\<lambda>req. Some (qp', Inr req)))"
proof (cases "nvme_allocate_request qp (a_payload A) (cnt * host_buffer_sector_size ns (a_flags A)) (cnt * md_size ns) (a_cb A)")
  case None
  then show ?thesis using none by (simp add: Let_def ns_cmd_rw.simps)
next
  case (Some a)
  obtain qp' t where a: "a = (qp', t)" by (cases a)
  let ?req = "on_info (\<lambda>r. r\<lparr>r_payload_offset := po, r_md_offset := mo, r_accel := accel\<rparr>) t"
  have t: "holds (mset (tree_ids ?req)) qp qp'" "rq_children ?req = []" using allocate_holds [OF Some [unfolded a]] by (cases t, simp)+
  have f: "r_payload_offset (rq_info ?req) = po" "r_payload_size (rq_info ?req) = cnt * host_buffer_sector_size ns (a_flags A)"
    using Some a by (auto simp: nvme_allocate_request_def split: list.splits)
  have z: "(a_opc A = NVM_ZONE_APPEND \<and> \<not> is_zns ns) = False" and "stripe_ok ns" using assms by (auto simp: args_ok_def)
  note test = stripe_test [OF stripe_of_ok [OF this(2)], of A lba cnt]
  show ?thesis
    by (rule some [OF t f]) (simp only: ns_cmd_rw.simps Let_def Some a option.case prod.case z test if_False not_not flip: stripe_of_def)
qed

lemma setup_made:
  assumes "args_ok ns A" and "fits_stripe (stripe_of ns A) (unat lba) (unat cnt)" and "cnt \<le> get_sectors_per_max_io ns (a_flags A)"
    and "rq_children req = []" and "r_payload_offset (rq_info req) = po"
    and "r_payload_size (rq_info req) = cnt * host_buffer_sector_size ns (a_flags A)"
  shows "\<exists>t. setup_request ns A lba cnt req = Some t \<and> tree_ids t = tree_ids req \<and> made ns A po lba cnt t"
proof -
  obtain i r where req: "req = Request i r []" using assms(4) by (cases req) simp
  obtain t where t: "setup_request ns A lba cnt req = Some t" using assms(1) by (simp add: setup_request_def args_ok_def)
  have "made ns A po lba cnt t" unfolding made_def
  proof (intro impI)
    assume u: "usable ns A" and c: "cnt \<noteq> 0" and y: "byte_end ns A po cnt < 2 ^ 32"
    have "unat cnt \<le> 65536" using u assms(3) by (simp add: usable_def word_le_nat_alt)
    note n = cdw12_blocks [OF c this]
    have "unat (cnt * host_buffer_sector_size ns (a_flags A)) = unat cnt * unat (host_buffer_sector_size ns (a_flags A))"
      using y by (simp add: byte_end_def unat_word_ariths)
    then show "covers ns A [unat lba..<unat lba + unat cnt] [unat po..<byte_end ns A po cnt] (map view (leaves t))"
      using t assms(2,3,5,6) n unfolding setup_request_def req
      by (auto simp: covers_def view_def leaf_ok_def leaf_blocks_def leaf_bytes_def nlb_def byte_end_def word_le_nat_alt split: if_splits)
  qed
  then show ?thesis using t by (auto simp: setup_request_def split: if_splits)
qed

lemma rw_leaf:
  assumes "args_ok ns A" and "fits_stripe (stripe_of ns A) (unat lba) (unat cnt)" and "cnt \<le> get_sectors_per_max_io ns (a_flags A)"
    and "\<not> check \<or> sgl (a_payload A) = None"
  shows "built rejects (made ns A po lba cnt) qp (ns_cmd_rw (Suc n) ns A check accel po mo lba cnt qp)"
  using assms(1)
proof (cases rule: rw_cases [where n = n and check = check and accel = accel and po = po and mo = mo and lba = lba and cnt = cnt and qp = qp])
  case none
  then show ?thesis by (simp only:) (simp add: built_def)
next
  case (some qp' req)
  obtain t where t: "setup_request ns A lba cnt req = Some t" "tree_ids t = tree_ids req" "made ns A po lba cnt t"
    using setup_made [OF assms(1-3) some(2-4)] by blast
  have "ns_cmd_rw (Suc n) ns A check accel po mo lba cnt qp = Some (qp', Inr t)"
    unfolding some(5) using assms(2,3,4) t(1) by auto
  then show ?thesis using some(1) t(2,3) by (simp add: built_def del: ns_cmd_rw.simps)
qed

text \<open>Inside one stripe, but larger than the largest transfer.\<close>

lemma rw_fitting:
  assumes "args_ok ns A" and "fits_stripe (stripe_of ns A) (unat lba) (unat cnt)" and "unat lba + unat cnt \<le> 2 ^ 64"
    and small: "\<And>po mo lba cnt qp. fits_stripe (stripe_of ns A) (unat lba) (unat cnt) \<Longrightarrow> cnt \<le> get_sectors_per_max_io ns (a_flags A) \<Longrightarrow>
      unat lba + unat cnt \<le> 2 ^ 64 \<Longrightarrow> length (free_req qp) < 65535 \<Longrightarrow> built rejects (made ns A po lba cnt) qp (ns_cmd_rw n ns A True False po mo lba cnt qp)"
    and "cnt > get_sectors_per_max_io ns (a_flags A)" and "length (free_req qp) < 65535"
  shows "built rejects (made ns A po lba cnt) qp (ns_cmd_rw (Suc n) ns A check False po mo lba cnt qp)"
  using assms(1)
proof (cases rule: rw_cases [where n = n and check = check and accel = False and po = po and mo = mo and lba = lba and cnt = cnt and qp = qp])
  case none
  then show ?thesis by (simp only:) (simp add: built_def)
next
  case (some qp' req)
  let ?max = "get_sectors_per_max_io ns (a_flags A)" and ?ss = "host_buffer_sector_size ns (a_flags A)"
  let ?G = "\<lambda>lba n. fits_stripe (stripe_of ns A) (unat lba) (unat n) \<and> n \<le> ?max \<and> unat lba + unat n \<le> 2 ^ 64"
  let ?nice = "usable ns A \<and> byte_end ns A po cnt < 2 ^ 32"
  have c0: "cnt \<noteq> 0" using assms(5) by auto
  have "built rejects (\<lambda>t. rq_children t \<noteq> [] \<and> (?nice \<longrightarrow>
      covers ns A ([] @ (if cnt = 0 then [] else [unat lba..<unat lba + unat cnt])) ([] @ [unat po..<byte_end ns A po cnt]) (map view (child_leaves t)))) qp
    (split_loop (ns_cmd_rw n ns A True False) ?ss (md_size ns) ?max 0 po mo lba cnt req qp')"
  proof (rule split_loop_built [where G = ?G and lo = "unat lba"])
    fix lba' :: u64 and rem :: u32
    assume "unat lba \<le> unat lba'" and "unat lba' + unat rem = unat lba + unat cnt"
    then show "?G lba' (min rem (?max - ucast (lba' AND ucast (0 :: u32))))"
      using fits_stripe_sub [of "stripe_of ns A" "unat lba" "unat lba + unat cnt" "unat lba'"] assms(2,3) by (simp add: unat_min)
  qed (use small some(1,2) assms(3,6) c0 in \<open>auto simp: usable_def\<close>)
  then show ?thesis
    unfolding some(5) using assms(2,5) c0 by (auto simp: split_request_def made_def leaves_children elim: built_mono)
qed

text \<open>Across a stripe boundary.\<close>

lemma rw_crossing:
  assumes "args_ok ns A" and "\<not> fits_stripe (stripe_of ns A) (unat lba) (unat cnt)" and "unat lba + unat cnt \<le> 2 ^ 64"
    and inner: "\<And>po mo lba cnt qp. fits_stripe (stripe_of ns A) (unat lba) (unat cnt) \<Longrightarrow>
      unat lba + unat cnt \<le> 2 ^ 64 \<Longrightarrow> length (free_req qp) < 65535 \<Longrightarrow> built rejects (made ns A po lba cnt) qp (ns_cmd_rw n ns A True False po mo lba cnt qp)"
    and "length (free_req qp) < 65535"
  shows "built rejects (made ns A po lba cnt) qp (ns_cmd_rw (Suc n) ns A check False po mo lba cnt qp)"
  using assms(1)
proof (cases rule: rw_cases [where n = n and check = check and accel = False and po = po and mo = mo and lba = lba and cnt = cnt and qp = qp])
  case none
  then show ?thesis by (simp only:) (simp add: built_def)
next
  case (some qp' req)
  let ?s = "stripe_of ns A" and ?ss = "host_buffer_sector_size ns (a_flags A)"
  let ?G = "\<lambda>lba n. fits_stripe ?s (unat lba) (unat n) \<and> unat lba + unat n \<le> 2 ^ 64"
  let ?nice = "usable ns A \<and> byte_end ns A po cnt < 2 ^ 32"
  have s0: "?s \<noteq> 0" using assms(2) by (auto simp: fits_stripe_def)
  then obtain k where k: "k < 32" "?s = 2 ^ k" using stripe_of_ok assms(1) by (auto simp: args_ok_def)
  have "0 < unat ?s" using s0 by (simp add: unat_gt_0)
  then have c0: "cnt \<noteq> 0" using assms(2) by (auto simp: fits_stripe_def intro: less_imp_le)
  have "built rejects (\<lambda>t. rq_children t \<noteq> [] \<and> (?nice \<longrightarrow>
      covers ns A ([] @ (if cnt = 0 then [] else [unat lba..<unat lba + unat cnt])) ([] @ [unat po..<byte_end ns A po cnt]) (map view (child_leaves t)))) qp
    (split_loop (ns_cmd_rw n ns A True False) ?ss (md_size ns) ?s (?s - 1) po mo lba cnt req qp')"
  proof (rule split_loop_built [where G = ?G and lo = "unat lba"])
    fix lba' :: u64 and rem :: u32
    assume "unat lba' + unat rem = unat lba + unat cnt"
    moreover have "fits_stripe ?s (unat lba') (unat (min rem (?s - ucast (lba' AND ucast (?s - 1)))))"
      using stripe_chunk(1) [OF k(2,1), of lba'] mod_less_divisor [OF \<open>0 < unat ?s\<close>, of "unat lba'"]
      by (simp only: unat_min fits_stripe_def) (intro disjI2, linarith)
    ultimately show "?G lba' (min rem (?s - ucast (lba' AND ucast (?s - 1))))" using assms(3) by (simp add: unat_min)
  qed (use inner some(1,2) assms(3,5) c0 stripe_chunk(2) [OF k(2,1)] in auto)
  then show ?thesis
    unfolding some(5) using assms(2) c0 by (auto simp: split_request_def made_def leaves_children elim: built_mono)
qed

text \<open>Two levels above the one where requests need no split by number of blocks.\<close>

lemma rw_levels:
  assumes "args_ok ns A" and "unat lba + unat cnt \<le> 2 ^ 64" and "length (free_req qp) < 65535"
    and small: "\<And>m check po mo lba cnt qp. n \<le> m \<Longrightarrow> fits_stripe (stripe_of ns A) (unat lba) (unat cnt) \<Longrightarrow>
      cnt \<le> get_sectors_per_max_io ns (a_flags A) \<Longrightarrow> unat lba + unat cnt \<le> 2 ^ 64 \<Longrightarrow> length (free_req qp) < 65535 \<Longrightarrow>
      built rejects (made ns A po lba cnt) qp (ns_cmd_rw m ns A check False po mo lba cnt qp)"
  shows "built rejects (made ns A po lba cnt) qp (ns_cmd_rw (Suc (Suc n)) ns A check False po mo lba cnt qp)"
proof -
  have fitting: "built rejects (made ns A po lba cnt) qp (ns_cmd_rw (Suc m) ns A check False po mo lba cnt qp)"
    if "n \<le> m" "fits_stripe (stripe_of ns A) (unat lba) (unat cnt)" "unat lba + unat cnt \<le> 2 ^ 64" "length (free_req qp) < 65535"
    for m check po mo lba cnt qp
  proof (cases "cnt \<le> get_sectors_per_max_io ns (a_flags A)")
    case True
    show ?thesis by (rule small [OF _ that(2) True that(3,4)]) (use that(1) in simp)
  next
    case False
    show ?thesis by (rule rw_fitting [OF assms(1) that(2,3) _ _ that(4)]) (use small that(1) False in auto)
  qed
  show ?thesis
  proof (cases "fits_stripe (stripe_of ns A) (unat lba) (unat cnt)")
    case True
    show ?thesis by (rule fitting [OF _ True assms(2,3)]) simp
  next
    case False
    show ?thesis by (rule rw_crossing [OF assms(1) False assms(2) fitting assms(3)]) auto
  qed
qed

lemma rw_contig:
  assumes "args_ok ns A" and "sgl (a_payload A) = None" and "unat lba + unat cnt \<le> 2 ^ 64" and "length (free_req qp) < 65535"
  shows "built False (made ns A po lba cnt) qp (ns_cmd_rw (Suc (Suc (Suc n))) ns A check False po mo lba cnt qp)"
proof (rule rw_levels [OF assms(1,3,4)])
  fix m check po mo cnt and lba :: u64 and qp :: spdk_nvme_qpair
  assume "Suc n \<le> m" "fits_stripe (stripe_of ns A) (unat lba) (unat cnt)" "cnt \<le> get_sectors_per_max_io ns (a_flags A)"
  then show "built False (made ns A po lba cnt) qp (ns_cmd_rw m ns A check False po mo lba cnt qp)"
    using rw_leaf [OF assms(1), of lba cnt check False po qp "m - 1" False mo] assms(2) by (cases m) auto
qed

section \<open>Splitting by elements\<close>

text \<open>
  Between two elements, \<open>k\<close> blocks have been given to children and the bytes collected since then
  are waiting for the next one.
\<close>

definition walk_inv :: "spdk_nvme_ns \<Rightarrow> rw_args \<Rightarrow> u32 \<Rightarrow> u64 \<Rightarrow> u32 \<Rightarrow> u32 \<Rightarrow> request_info \<Rightarrow> sge_walk \<Rightarrow> nvme_request \<Rightarrow> bool" where
  "walk_inv ns A po lba cnt psize ri w req \<longleftrightarrow> rq_info req = ri \<and> unat (w_cur w) \<le> unat psize \<and>
     (\<exists>k. unat (w_cur w) = k * unat (extended_lba_size ns) + unat (w_child_length w) \<and> w_lba w = lba + of_nat k \<and>
          w_po w = po + of_nat (k * unat (extended_lba_size ns)) \<and> (k = 0 \<longleftrightarrow> rq_children req = []) \<and>
          (usable ns A \<and> byte_end ns A po cnt < 2 ^ 32 \<longrightarrow>
             covers ns A [unat lba..<unat lba + k] [unat po..<unat po + k * unat (extended_lba_size ns)] (map view (child_leaves req))))"

text \<open>The setting: block-sized elements of a request that fits, and a way to build the children.\<close>

definition walk_pre :: "spdk_nvme_ns \<Rightarrow> rw_args \<Rightarrow> make_child \<Rightarrow> u64 \<Rightarrow> u32 \<Rightarrow> u32 \<Rightarrow> bool" where
  "walk_pre ns A mk lba cnt psize \<longleftrightarrow> extended_lba_size ns \<noteq> 0 \<and> host_buffer_sector_size ns (a_flags A) = extended_lba_size ns \<and>
     psize = cnt * extended_lba_size ns \<and> unat lba + unat cnt \<le> 2 ^ 64 \<and>
     (\<forall>po mo lba' n qp. unat lba \<le> unat lba' \<longrightarrow> unat lba' + unat n \<le> unat lba + unat cnt \<longrightarrow> n \<noteq> 0 \<longrightarrow> length (free_req qp) < 65535 \<longrightarrow>
        built True (made ns A po lba' n) qp (mk po mo lba' n qp))"

lemma walk_range:
  assumes "walk_pre ns A mk lba cnt psize" and "k * unat (extended_lba_size ns) + m \<le> unat psize"
  shows "k + m div unat (extended_lba_size ns) \<le> unat cnt"
proof -
  let ?E = "unat (extended_lba_size ns)"
  have E: "0 < ?E" and "unat psize \<le> unat cnt * ?E" using assms(1) by (simp_all add: walk_pre_def unat_gt_0 unat_word_ariths)
  then have "k * ?E + m \<le> unat cnt * ?E" using assms(2) by simp
  then have "(k * ?E + m) div ?E \<le> unat cnt * ?E div ?E" by (rule div_le_mono)
  then show ?thesis using E by simp
qed

lemma walk_child_position:
  assumes "walk_pre ns A mk lba cnt psize" and "k < unat cnt"
  shows "unat (lba + of_nat k) = unat lba + k"
proof -
  have "unat lba + k < 2 ^ 64" using assms by (simp add: walk_pre_def)
  then show ?thesis by (simp add: unat_word_ariths unsigned_of_nat take_bit_nat_eq_self)
qed

lemma child_bytes:
  assumes "walk_pre ns A mk lba cnt psize" and "byte_end ns A po cnt < 2 ^ 32" and "k + n \<le> unat cnt"
  shows "unat (po + of_nat (k * unat (extended_lba_size ns))) = unat po + k * unat (extended_lba_size ns)"
    and "unat po + (k + n) * unat (extended_lba_size ns) \<le> byte_end ns A po cnt"
proof -
  let ?E = "unat (extended_lba_size ns)"
  have "(k + n) * ?E \<le> unat cnt * ?E" using assms(3) by (rule mult_le_mono1)
  then show le: "unat po + (k + n) * ?E \<le> byte_end ns A po cnt" using assms(1) by (simp add: byte_end_def walk_pre_def)
  have "unat po + k * ?E < 2 ^ 32" using le assms(2) by (simp add: distrib_right)
  then show "unat (po + of_nat (k * ?E)) = unat po + k * ?E"
    by (simp add: unat_word_ariths unsigned_of_nat take_bit_nat_eq_self del: of_nat_mult)
qed

lemma child_done_inv:
  assumes pre: "walk_pre ns A mk lba cnt psize"
    and k: "unat (w_cur w) = k * unat (extended_lba_size ns) + unat (w_child_length w)" "w_lba w = lba + of_nat k"
      "w_po w = po + of_nat (k * unat (extended_lba_size ns))" "k = 0 \<longleftrightarrow> rq_children req = []"
      "usable ns A \<and> byte_end ns A po cnt < 2 ^ 32 \<longrightarrow> covers ns A [unat lba..<unat lba + k]
         [unat po..<unat po + k * unat (extended_lba_size ns)] (map view (child_leaves req))"
    and cur: "unat (w_cur w) \<le> unat psize" and info: "rq_info req = ri"
    and mult: "unat (w_child_length w) = unat n * unat (extended_lba_size ns)" and n: "n = w_child_length w div extended_lba_size ns" "n \<noteq> 0"
    and kn: "k + unat n \<le> unat cnt" and pos: "unat (w_lba w) = unat lba + k"
    and c: "made ns A (w_po w) (w_lba w) n c" and ct: "nvme_request_add_child req c = Some t"
  shows "walk_inv ns A po lba cnt psize ri (child_done ns w) t"
proof -
  let ?E = "unat (extended_lba_size ns)" and ?k = "k + unat n"
  have "w_child_length w = of_nat (unat n * ?E)" using mult by (metis of_nat_unat ucast_id)
  then have po: "w_po w + w_child_length w = po + of_nat (?k * ?E)" using k(3) by (simp add: algebra_simps)
  have cov: "covers ns A [unat lba..<unat lba + ?k] [unat po..<unat po + ?k * ?E] (map view (child_leaves t))"
    if nice: "usable ns A" "byte_end ns A po cnt < 2 ^ 32"
  proof -
    note b = child_bytes [OF pre nice(2) kn]
    have e: "byte_end ns A (w_po w) n = unat po + ?k * ?E"
      using b(1) k(3) pre by (simp add: byte_end_def walk_pre_def distrib_right)
    then have "covers ns A [unat lba + k..<unat lba + ?k] [unat po + k * ?E..<unat po + ?k * ?E] (map view (leaves c))"
      using c nice b n(2) k(3) pos by (simp add: made_def add.assoc)
    then show ?thesis
      using covers_append [of ns A _ _ "map view (child_leaves req)"] k(5) nice child_leaves_add [OF ct]
        upt_add_eq_append [of "unat lba" "unat lba + k" "unat n"] upt_add_eq_append [of "unat po" "unat po + k * ?E" "unat n * ?E"]
      by (simp add: add.assoc distrib_right)
  qed
  have "rq_children t \<noteq> []" "rq_info t = rq_info req" using child_leaves_add [OF ct] ct by (auto simp: nvme_request_add_child_def split: if_splits)
  moreover have "?k \<noteq> 0" using n(2) by (simp add: unat_eq_0)
  ultimately show ?thesis
    unfolding walk_inv_def child_done_def Let_def n(1) [symmetric] using po cov cur info k(1,2) mult
    by (intro conjI exI [of _ ?k]) (auto simp: distrib_right)
qed

lemma sge_child_built:
  assumes pre: "walk_pre ns A mk lba cnt psize" and inv: "walk_inv ns A po lba cnt psize ri w req" and "w_child_length w \<noteq> 0"
    and "holds (mset (tree_ids req)) qp0 qp" and "length (free_req qp0) < 65535"
  shows "(\<exists>qp' rc. sge_child mk ns False (w_po w) (w_mo w) (w_lba w) (w_child_length w) req qp = Some (qp', Inl rc) \<and>
       (\<forall>Q. built True Q qp0 (Some (qp', Inl rc)))) \<or>
    (\<exists>qp' t. sge_child mk ns False (w_po w) (w_mo w) (w_lba w) (w_child_length w) req qp = Some (qp', Inr t) \<and>
       holds (mset (tree_ids t)) qp0 qp' \<and> walk_inv ns A po lba cnt psize ri (child_done ns w) t)"
proof -
  let ?E = "unat (extended_lba_size ns)" and ?n = "w_child_length w div extended_lba_size ns"
  obtain k where k: "unat (w_cur w) = k * ?E + unat (w_child_length w)" "w_lba w = lba + of_nat k" "w_po w = po + of_nat (k * ?E)"
    "k = 0 \<longleftrightarrow> rq_children req = []"
    "usable ns A \<and> byte_end ns A po cnt < 2 ^ 32 \<longrightarrow> covers ns A [unat lba..<unat lba + k] [unat po..<unat po + k * ?E] (map view (child_leaves req))"
    and cur: "unat (w_cur w) \<le> unat psize" and info: "rq_info req = ri"
    using inv by (auto simp: walk_inv_def)
  have E: "0 < ?E" "extended_lba_size ns \<noteq> 0" using pre by (simp_all add: walk_pre_def unat_gt_0)
  show ?thesis
  proof (cases "w_child_length w mod extended_lba_size ns = 0")
    case False
    then show ?thesis using E assms(4) by (auto simp: sge_child_def built_def)
  next
    case True
    then have mult: "unat (w_child_length w) = unat ?n * ?E"
      by (metis add.right_neutral mult.commute mult_div_mod_eq unat_div unat_mod unsigned_0)
    have n0: "?n \<noteq> 0" using mult assms(3) by (metis mult_zero_left unat_eq_zero unsigned_0)
    have kn: "k + unat ?n \<le> unat cnt" using walk_range [OF pre, of k "unat (w_child_length w)"] cur k(1) by (simp add: unat_div)
    then have pos: "unat (w_lba w) = unat lba + k"
      using walk_child_position [OF pre, of k] n0 k(2) by (metis add_lessD1 le_neq_implies_less less_add_same_cancel1 unat_gt_0)
    have few: "length (free_req qp) < 65535" using holds_length [OF assms(4)] assms(5) by simp
    have "built True (made ns A (w_po w) (w_lba w) ?n) qp (mk (w_po w) (w_mo w) (w_lba w) ?n qp)"
      using pre few kn pos n0 unfolding walk_pre_def by simp
    note step = add_child_built [OF assms(4,5) this]
    have unfold: "sge_child mk ns False (w_po w) (w_mo w) (w_lba w) (w_child_length w) req qp =
        add_child_request (mk (w_po w) (w_mo w) (w_lba w) ?n qp) req" using True E by (simp add: sge_child_def)
    from step show ?thesis
    proof (elim disjE exE conjE)
      fix qp' c t
      assume add: "add_child_request (mk (w_po w) (w_mo w) (w_lba w) ?n qp) req = Some (qp', Inr t)"
        and t: "holds (mset (tree_ids t)) qp0 qp'" and c: "made ns A (w_po w) (w_lba w) ?n c" and ct: "nvme_request_add_child req c = Some t"
      have "walk_inv ns A po lba cnt psize ri (child_done ns w) t"
        using child_done_inv [OF pre k cur info mult refl n0 kn pos c ct] .
      then show ?thesis unfolding unfold using add t by blast
    qed (unfold unfold, blast)
  qed
qed

text \<open>Elements of a sensible length.\<close>

definition elements_ok :: "u32 \<Rightarrow> (nat \<Rightarrow> u64 \<times> u32) \<Rightarrow> bool" where
  "elements_ok psize sges \<longleftrightarrow> (\<forall>i. snd (sges i) \<noteq> 0 \<and> unat (snd (sges i)) + unat psize < 2 ^ 32)"

lemma clip_sge_unat:
  assumes "unat len + unat psize < 2 ^ 32" and "cur < psize" and "len \<noteq> 0"
  shows "unat (cur + clip_sge psize cur len) = unat cur + unat (clip_sge psize cur len)"
    and "unat cur + unat (clip_sge psize cur len) \<le> unat psize" and "0 < unat (clip_sge psize cur len)"
proof -
  have lt: "unat cur < unat psize" using assms(2) by (simp add: word_less_nat_alt)
  have sum: "unat (cur + len) = unat cur + unat len" using assms(1) lt by (simp add: unat_word_ariths)
  have "unat (psize - cur) = unat psize - unat cur" using lt by (simp add: unat_sub word_le_nat_alt)
  then have c: "unat (clip_sge psize cur len) = min (unat len) (unat psize - unat cur)"
    using lt by (auto simp: clip_sge_def word_less_nat_alt sum)
  then show "unat cur + unat (clip_sge psize cur len) \<le> unat psize" using lt by simp
  then show "unat (cur + clip_sge psize cur len) = unat cur + unat (clip_sge psize cur len)"
    using unat_u32_lt [of psize] by (simp add: unat_word_ariths)
  have "0 < unat len" using assms(3) by (simp add: unat_gt_0)
  then show "0 < unat (clip_sge psize cur len)" using c lt by simp
qed

lemma collect_inv:
  assumes "walk_inv ns A po lba cnt psize ri w req" and "unat (w_cur w + len) = unat (w_cur w) + unat len" and "unat (w_cur w) + unat len \<le> unat psize"
    and "w_cur w' = w_cur w + len" and "w_child_length w' = w_child_length w + len" and "w_lba w' = w_lba w" and "w_po w' = w_po w"
  shows "walk_inv ns A po lba cnt psize ri w' req" and "unat (w_child_length w') = unat (w_child_length w) + unat len"
proof -
  obtain k where "unat (w_cur w) = k * unat (extended_lba_size ns) + unat (w_child_length w)" using assms(1) by (auto simp: walk_inv_def)
  then have "unat (w_child_length w) + unat len < 2 ^ 32" using assms(3) unat_u32_lt [of psize] by simp
  then show c: "unat (w_child_length w') = unat (w_child_length w) + unat len" using assms(5) by (simp add: unat_word_ariths)
  show "walk_inv ns A po lba cnt psize ri w' req"
    using assms(1) unfolding walk_inv_def assms(4,6,7) c assms(2) using assms(3) by auto
qed

text \<open>How a walk over the elements ends.\<close>

definition walked :: "spdk_nvme_ns \<Rightarrow> rw_args \<Rightarrow> u32 \<Rightarrow> u64 \<Rightarrow> u32 \<Rightarrow> u32 \<Rightarrow> request_info \<Rightarrow> spdk_nvme_qpair \<Rightarrow> walk_result \<Rightarrow> bool" where
  "walked ns A po lba cnt psize ri qp0 r \<longleftrightarrow>
     (\<exists>w qp' rc. r = Some (w, qp', Inl rc) \<and> (\<forall>Q. built True Q qp0 (Some (qp', Inl rc)))) \<or>
     (\<exists>w qp' t. r = Some (w, qp', Inr t) \<and> holds (mset (tree_ids t)) qp0 qp' \<and> walk_inv ns A po lba cnt psize ri w t \<and>
        w_cur w = psize \<and> (w_child_length w = 0 \<or> w_child_length w = psize))"

lemma walk_split:
  assumes "walk_pre ns A mk lba cnt psize" and "walk_inv ns A po lba cnt psize ri w req" and "w_child_length w \<noteq> 0"
    and "holds (mset (tree_ids req)) qp0 qp" and "length (free_req qp0) < 65535"
    and "\<And>t qp'. holds (mset (tree_ids t)) qp0 qp' \<Longrightarrow> walk_inv ns A po lba cnt psize ri (child_done ns w) t \<Longrightarrow>
      walked ns A po lba cnt psize ri qp0 (K t qp')"
  shows "walked ns A po lba cnt psize ri qp0
    (Option.bind (sge_child mk ns False (w_po w) (w_mo w) (w_lba w) (w_child_length w) req qp)
      (\<lambda>(qp, res). case res of Inl rc \<Rightarrow> Some (w, qp, Inl rc) | Inr req \<Rightarrow> K req qp))"
  using sge_child_built [OF assms(1-5)]
proof (elim disjE exE conjE)
  fix qp' rc
  assume "sge_child mk ns False (w_po w) (w_mo w) (w_lba w) (w_child_length w) req qp = Some (qp', Inl rc)"
    "\<forall>Q. built True Q qp0 (Some (qp', Inl rc))"
  then show ?thesis by (simp add: walked_def)
qed (use assms(6) in simp)

lemma walk_end:
  assumes "walk_inv ns A po lba cnt psize ri w req" and "\<not> w_cur w < psize"
  shows "w_cur w = psize"
  using assms by (simp add: walk_inv_def word_less_nat_alt word_unat_eq_iff)

lemma sgl_loop_walked:
  assumes pre: "walk_pre ns A mk lba cnt psize" and el: "elements_ok psize sges" and few: "length (free_req qp0) < 65535"
    and "walk_inv ns A po lba cnt psize ri w req" and "holds (mset (tree_ids req)) qp0 qp"
    and "w_cur w = psize \<longrightarrow> w_child_length w = 0 \<or> w_child_length w = psize"
  shows "walked ns A po lba cnt psize ri qp0 (sgl_loop mk ns False sges psize w req qp)"
  using assms(4-)
proof (induction "unat psize - unat (w_cur w)" arbitrary: w req qp rule: less_induct)
  case less
  show ?case
  proof (cases "w_cur w < psize")
    case False
    then show ?thesis using less.prems walk_end [OF less.prems(1) False] by (subst sgl_loop.simps) (simp add: walked_def)
  next
    case True
    obtain split w1 where st: "sgl_step ns sges psize w = (split, w1)" by (cases "sgl_step ns sges psize w")
    let ?len = "clip_sge psize (w_cur w) (snd (sges (w_fetched w)))"
    have len: "unat (w_cur w + ?len) = unat (w_cur w) + unat ?len" "unat (w_cur w) + unat ?len \<le> unat psize" "0 < unat ?len"
      using clip_sge_unat [of "snd (sges (w_fetched w))" psize "w_cur w"] el True by (auto simp: elements_ok_def)
    have w1: "w_cur w1 = w_cur w + ?len" "w_child_length w1 = w_child_length w + ?len" "w_lba w1 = w_lba w" "w_po w1 = w_po w"
      using st by (auto simp: sgl_step_def Let_def)
    have "split = (\<not> (w_num_sges w1 < max_sges ns \<and> w_cur w1 < psize) \<and> w_child_length w1 \<noteq> psize)"
      using st unfolding sgl_step_def Let_def by (elim Pair_inject) (hypsubst, rule refl)
    then have stop: "\<not> split \<Longrightarrow> w_cur w1 = psize \<Longrightarrow> w_child_length w1 = psize" by auto
    note inv = collect_inv [OF less.prems(1) len(1,2) w1]
    have meas: "unat psize - unat (w_cur w1) < unat psize - unat (w_cur w)"
      using len True w1(1) by (simp add: word_less_nat_alt)
    have c0: "w_child_length w1 \<noteq> 0" using inv(2) len(3) by auto
    show ?thesis
    proof (cases split)
      case False
      have "walked ns A po lba cnt psize ri qp0 (sgl_loop mk ns False sges psize w1 req qp)"
        using less.hyps [OF meas inv(1) less.prems(2)] stop [OF False] by blast
      then show ?thesis using True False st by (subst sgl_loop.simps) simp
    next
      case split: True
      have "walked ns A po lba cnt psize ri qp0
          (Option.bind (sge_child mk ns False (w_po w1) (w_mo w1) (w_lba w1) (w_child_length w1) req qp)
            (\<lambda>(qp, res). case res of Inl rc \<Rightarrow> Some (w1, qp, Inl rc) | Inr req \<Rightarrow> sgl_loop mk ns False sges psize (child_done ns w1) req qp))"
        by (rule walk_split [OF pre inv(1) c0 less.prems(2) few], rule less.hyps) (use meas in \<open>auto simp: child_done_def Let_def\<close>)
      then show ?thesis using True split st by (subst sgl_loop.simps) simp
    qed
  qed
qed

text \<open>The step from a state where the current element may be added to the child.\<close>

lemma prp_step_start:
  assumes "w_child_length w = 0 \<or> is_page_aligned (w_address w) (page_size ns)" and "prp_step ns sges psize w = (split, w1)"
  defines "len \<equiv> clip_sge psize (w_cur w) (w_length w)"
  shows "w_cur w1 = w_cur w + len" and "w_child_length w1 = w_child_length w + len" and "w_lba w1 = w_lba w" and "w_po w1 = w_po w"
    and "w_cur w1 < psize \<Longrightarrow> w_length w1 = snd (sges (w_fetched w)) \<and> w_address w1 = fst (sges (w_fetched w))"
    and "w_cur w1 < psize \<Longrightarrow> \<not> is_page_aligned (w_address w1) (page_size ns) \<Longrightarrow> w_child_length w1 \<noteq> psize \<Longrightarrow> split"
    and "w_cur w1 = psize \<Longrightarrow> w_child_length w1 \<noteq> psize \<Longrightarrow> split"
proof -
  have sv: "(w_child_length w = 0 \<or> is_page_aligned (w_address w) (page_size ns)) = True" using assms(1) by blast
  note st = assms(2) [unfolded prp_step_def Let_def sv if_True simp_thms, folded len_def]
  show cur: "w_cur w1 = w_cur w + len" and cl: "w_child_length w1 = w_child_length w + len" and "w_lba w1 = w_lba w" "w_po w1 = w_po w"
    using st by (auto split: if_splits)
  show next1: "w_length w1 = snd (sges (w_fetched w)) \<and> w_address w1 = fst (sges (w_fetched w))" if "w_cur w1 < psize"
    using st that [unfolded cur] by auto
  show split if "w_cur w1 < psize" "\<not> is_page_aligned (w_address w1) (page_size ns)" "w_child_length w1 \<noteq> psize"
    using st that next1 [OF that(1)] by (auto simp: cur cl split: if_splits)
  show split if "w_cur w1 = psize" "w_child_length w1 \<noteq> psize"
    using st that by (auto simp: cur cl)
qed

lemma prp_step_facts:
  assumes "walk_inv ns A po lba cnt psize ri w req" and "w_cur w < psize" and "elements_ok psize sges"
    and "w_length w \<noteq> 0" and "unat (w_length w) + unat psize < 2 ^ 32"
    and "w_child_length w = 0 \<or> is_page_aligned (w_address w) (page_size ns)" and "prp_step ns sges psize w = (split, w1)"
  shows "walk_inv ns A po lba cnt psize ri w1 req" and "unat psize - unat (w_cur w1) < unat psize - unat (w_cur w)" and "w_child_length w1 \<noteq> 0"
    and "w_cur w1 < psize \<longrightarrow> w_length w1 \<noteq> 0 \<and> unat (w_length w1) + unat psize < 2 ^ 32 \<and> (split \<or> is_page_aligned (w_address w1) (page_size ns))"
    and "w_cur w1 = psize \<longrightarrow> split \<or> w_child_length w1 = psize"
proof -
  let ?len = "clip_sge psize (w_cur w) (w_length w)"
  have len: "unat (w_cur w + ?len) = unat (w_cur w) + unat ?len" "unat (w_cur w) + unat ?len \<le> unat psize" "0 < unat ?len"
    using clip_sge_unat [OF assms(5,2,4)] by blast+
  have w1: "w_cur w1 = w_cur w + ?len" "w_child_length w1 = w_child_length w + ?len" "w_lba w1 = w_lba w" "w_po w1 = w_po w"
    using prp_step_start [OF assms(6,7)] by blast+
  note inv = collect_inv [OF assms(1) len(1,2) w1]
  show "walk_inv ns A po lba cnt psize ri w1 req" by (rule inv(1))
  show "unat psize - unat (w_cur w1) < unat psize - unat (w_cur w)" using len assms(2) w1(1) by (simp add: word_less_nat_alt)
  show "w_child_length w1 \<noteq> 0" using inv(2) len(3) by auto
  have "unat (w_child_length w1) \<le> unat (w_cur w1)" using inv(1) by (auto simp: walk_inv_def)
  then have whole: "w_child_length w1 = psize \<Longrightarrow> \<not> w_cur w1 < psize" by (auto simp: word_less_nat_alt)
  show "w_cur w1 < psize \<longrightarrow> w_length w1 \<noteq> 0 \<and> unat (w_length w1) + unat psize < 2 ^ 32 \<and> (split \<or> is_page_aligned (w_address w1) (page_size ns))"
    using prp_step_start(5,6) [OF assms(6,7)] assms(3) whole by (auto simp: elements_ok_def)
  show "w_cur w1 = psize \<longrightarrow> split \<or> w_child_length w1 = psize"
    using prp_step_start(7) [OF assms(6,7)] by blast
qed

lemma prp_loop_walked:
  assumes pre: "walk_pre ns A mk lba cnt psize" and el: "elements_ok psize sges" and few: "length (free_req qp0) < 65535"
    and "walk_inv ns A po lba cnt psize ri w req" and "holds (mset (tree_ids req)) qp0 qp"
    and "w_cur w = psize \<longrightarrow> w_child_length w = 0 \<or> w_child_length w = psize"
    and "w_cur w < psize \<longrightarrow> w_length w \<noteq> 0 \<and> unat (w_length w) + unat psize < 2 ^ 32 \<and>
      (w_child_length w = 0 \<or> is_page_aligned (w_address w) (page_size ns))"
  shows "walked ns A po lba cnt psize ri qp0 (prp_loop mk ns False sges psize w req qp)"
  using assms(4-)
proof (induction "unat psize - unat (w_cur w)" arbitrary: w req qp rule: less_induct)
  case less
  show ?case
  proof (cases "w_cur w < psize")
    case False
    then show ?thesis using less.prems walk_end [OF less.prems(1) False] by (subst prp_loop.simps) (simp add: walked_def)
  next
    case True
    obtain split w1 where st: "prp_step ns sges psize w = (split, w1)" by (cases "prp_step ns sges psize w")
    have w: "w_length w \<noteq> 0" "unat (w_length w) + unat psize < 2 ^ 32" "w_child_length w = 0 \<or> is_page_aligned (w_address w) (page_size ns)"
      using less.prems(4) True by blast+
    note f = prp_step_facts [OF less.prems(1) True el w st]
    show ?thesis
    proof (cases split)
      case False
      have "walked ns A po lba cnt psize ri qp0 (prp_loop mk ns False sges psize w1 req qp)"
        using less.hyps [OF f(2,1) less.prems(2)] f(4,5) False by blast
      then show ?thesis using True False st w(1) by (subst prp_loop.simps) simp
    next
      case split: True
      have "walked ns A po lba cnt psize ri qp0
          (Option.bind (sge_child mk ns False (w_po w1) (w_mo w1) (w_lba w1) (w_child_length w1) req qp)
            (\<lambda>(qp, res). case res of Inl rc \<Rightarrow> Some (w1, qp, Inl rc) | Inr req \<Rightarrow> prp_loop mk ns False sges psize (child_done ns w1) req qp))"
        by (rule walk_split [OF pre f(1,3) less.prems(2) few], rule less.hyps) (use f(2,4) in \<open>auto simp: child_done_def Let_def\<close>)
      then show ?thesis using True split st w(1) by (subst prp_loop.simps) simp
    qed
  qed
qed

lemma finish_built:
  assumes pre: "walk_pre ns A mk lba cnt psize" and "args_ok ns A" and "fits_stripe (stripe_of ns A) (unat lba) (unat cnt)"
    and "cnt \<le> get_sectors_per_max_io ns (a_flags A)" and "r_payload_offset ri = po" and "r_payload_size ri = psize"
    and "walked ns A po lba cnt psize ri qp0 r"
  shows "built True (made ns A po lba cnt) qp0 (finish_sges ns A lba cnt psize r)"
proof (cases "\<exists>w qp' rc. r = Some (w, qp', Inl rc) \<and> (\<forall>Q. built True Q qp0 (Some (qp', Inl rc)))")
  case True
  then show ?thesis by (auto simp: finish_sges_def)
next
  case False
  let ?E = "unat (extended_lba_size ns)"
  have E: "0 < ?E" and ss: "host_buffer_sector_size ns (a_flags A) = extended_lba_size ns" "psize = cnt * extended_lba_size ns"
    using pre by (simp_all add: walk_pre_def unat_gt_0)
  from False obtain w qp' t where r: "r = Some (w, qp', Inr t)" and t: "holds (mset (tree_ids t)) qp0 qp'"
    and inv: "walk_inv ns A po lba cnt psize ri w t" and cur: "w_cur w = psize" and child: "w_child_length w = 0 \<or> w_child_length w = psize"
    using assms(7) unfolding walked_def by blast
  obtain k where k: "unat psize = k * ?E + unat (w_child_length w)" "k = 0 \<longleftrightarrow> rq_children t = []" and info: "rq_info t = ri"
    "usable ns A \<and> byte_end ns A po cnt < 2 ^ 32 \<longrightarrow> covers ns A [unat lba..<unat lba + k] [unat po..<unat po + k * ?E] (map view (child_leaves t))"
    using inv cur by (auto simp: walk_inv_def)
  show ?thesis
  proof (cases "w_child_length w = psize")
    case True
    then have "rq_children t = []" using k E by simp
    then obtain t' where "setup_request ns A lba cnt t = Some t'" "tree_ids t' = tree_ids t" "made ns A po lba cnt t'"
      using setup_made [OF assms(2,3,4), of t po] assms(5,6) info ss by auto
    then show ?thesis using r t True by (simp add: finish_sges_def built_def)
  next
    case False
    then have w0: "w_child_length w = 0" "unat psize \<noteq> 0" using child by (auto simp: unat_eq_0)
    have "made ns A po lba cnt t" unfolding made_def
    proof (intro impI)
      assume n: "usable ns A" "cnt \<noteq> 0" "byte_end ns A po cnt < 2 ^ 32"
      have "unat psize = unat cnt * ?E" using n(3) ss by (simp add: byte_end_def unat_word_ariths)
      then have "k = unat cnt" using k(1) w0 E by simp
      then show "covers ns A [unat lba..<unat lba + unat cnt] [unat po..<byte_end ns A po cnt] (map view (leaves t))"
        using info(2) n k w0 leaves_children [of t] by (auto simp: byte_end_def ss)
    qed
    then show ?thesis using r t False by (simp add: finish_sges_def built_def)
  qed
qed

definition sgl_ok :: "spdk_nvme_ns \<Rightarrow> rw_args \<Rightarrow> bool" where
  "sgl_ok ns A \<longleftrightarrow> extended_lba_size ns \<noteq> 0 \<and> \<not> md_excluded_from_xfer ns (a_flags A) \<and>
     (\<forall>f po i. sgl (a_payload A) = Some f \<longrightarrow> snd (f po i) \<noteq> 0 \<and>
        unat (snd (f po i)) + unat (get_sectors_per_max_io ns (a_flags A)) * unat (extended_lba_size ns) < 2 ^ 32)"

lemma rw_elements:
  assumes "args_ok ns A" and "sgl_ok ns A" and "fits_stripe (stripe_of ns A) (unat lba) (unat cnt)"
    and "cnt \<le> get_sectors_per_max_io ns (a_flags A)" and "unat lba + unat cnt \<le> 2 ^ 64" and "length (free_req qp) < 65535"
  shows "built True (made ns A po lba cnt) qp (ns_cmd_rw (Suc (Suc n)) ns A check False po mo lba cnt qp)"
proof (cases "if check then sgl (a_payload A) else None")
  case None
  then show ?thesis using rw_leaf [OF assms(1,3,4)] by (auto split: if_splits)
next
  case (Some f)
  let ?mk = "ns_cmd_rw (Suc n) ns A False False" and ?E = "extended_lba_size ns"
  have small: "built True (made ns A po lba' m) qp (?mk po mo lba' m qp)"
    if "unat lba \<le> unat lba'" "unat lba' + unat m \<le> unat lba + unat cnt" for po mo lba' m qp
  proof (rule rw_leaf [OF assms(1)])
    show "fits_stripe (stripe_of ns A) (unat lba') (unat m)"
      using fits_stripe_sub [of "stripe_of ns A" "unat lba" "unat lba + unat cnt"] assms(3) that by simp
    show "m \<le> get_sectors_per_max_io ns (a_flags A)" using that assms(4) by (simp add: word_le_nat_alt)
  qed simp
  have ss: "host_buffer_sector_size ns (a_flags A) = ?E" using assms(2) by (simp add: host_buffer_sector_size_def sgl_ok_def)
  have pre: "walk_pre ns A ?mk lba cnt (cnt * ?E)" using small ss assms(2,5) by (simp add: walk_pre_def sgl_ok_def)
  have "unat (cnt * ?E) \<le> unat (get_sectors_per_max_io ns (a_flags A)) * unat ?E"
    using assms(4) by (simp add: unat_word_ariths word_le_nat_alt) (meson le_trans mod_less_eq_dividend mult_le_mono1)
  moreover have "snd (f po i) \<noteq> 0 \<and> unat (snd (f po i)) + unat (get_sectors_per_max_io ns (a_flags A)) * unat ?E < 2 ^ 32" for i
    using assms(2) Some unfolding sgl_ok_def by (metis option.distinct(1))
  ultimately have el: "elements_ok (cnt * ?E) (f po)" unfolding elements_ok_def by (meson add_le_cancel_left le_less_trans)
  show ?thesis using assms(1)
  proof (cases rule: rw_cases [where n = "Suc n" and check = check and accel = False and po = po and mo = mo and lba = lba and cnt = cnt and qp = qp])
    case none
    then show ?thesis by (simp only:) (simp add: built_def)
  next
    case (some qp' req)
    have inv: "walk_inv ns A po lba cnt (cnt * ?E) (rq_info req) w req" if "w_cur w = 0" "w_child_length w = 0" "w_lba w = lba" "w_po w = po" for w
      using that some(2) by (auto simp: walk_inv_def intro!: exI [of _ 0])
    have fin: "built True (made ns A po lba cnt) qp (finish_sges ns A lba cnt (cnt * ?E) r)"
      if "walked ns A po lba cnt (cnt * ?E) (rq_info req) qp r" for r
      using finish_built [OF pre assms(1,3,4) some(3) _ that] some(4) ss by simp
    have "walked ns A po lba cnt (cnt * ?E) (rq_info req) qp (sgl_loop ?mk ns False (f po) (cnt * ?E) (start_walk po mo lba) req qp')"
      by (rule sgl_loop_walked [OF pre el assms(6) inv some(1)]) (simp_all add: start_walk_def)
    moreover have "walked ns A po lba cnt (cnt * ?E) (rq_info req) qp (prp_loop ?mk ns False (f po) (cnt * ?E)
        ((start_walk po mo lba)\<lparr>w_address := fst (f po 0), w_length := snd (f po 0), w_fetched := 1\<rparr>) req qp')"
      by (rule prp_loop_walked [OF pre el assms(6) inv some(1)]) (use el in \<open>simp_all add: start_walk_def elements_ok_def\<close>)
    moreover have "\<not> get_sectors_per_max_io ns (a_flags A) < cnt" using assms(4) by simp
    ultimately show ?thesis unfolding some(5) using assms(3) Some fin some(4) ss
      by (simp add: split_request_sgl_def split_request_prp_def Let_def not_less [symmetric])
  qed
qed

end
