(* ===== verification/Nvme_Io.thy ===== *)
theory Nvme_Io
  imports Nvme_Split
begin

text \<open>
  Properties of the driver's read and write calls: what reaches the device, that the calls
  return, and the cases in which they lose requests, hang or go wrong.
\<close>

text \<open>
  The arguments of a call, and the conditions under which its payload can be walked: a contiguous
  buffer, or elements that are neither empty nor so long that the lengths overflow.
\<close>

definition args_of :: "nvme_payload \<Rightarrow> u64 \<Rightarrow> u8 \<Rightarrow> u32 \<Rightarrow> u16 \<Rightarrow> u16 \<Rightarrow> u32 \<Rightarrow> rw_args" where
  "args_of p cb op io_flags mk tag cdw13 =
     \<lparr>a_payload = p, a_cb = User_cb cb, a_opc = op, a_flags = io_flags, a_mask = mk, a_apptag = tag, a_cdw13 = cdw13\<rparr>"

lemma build_rw: "build ns qp p lba cnt cb op io_flags mk tag cdw13 check accel =
    ns_cmd_rw 4 ns (args_of p cb op io_flags mk tag cdw13) check accel 0 0 lba cnt qp"
  by (simp add: build_def args_of_def)

lemma four: "(4 :: nat) = Suc (Suc (Suc 1))" "(4 :: nat) = Suc (Suc 2)"
  by simp_all

lemma rw_any:
  assumes "args_ok ns A" and "sgl (a_payload A) = None \<or> sgl_ok ns A" and "unat lba + unat cnt \<le> 2 ^ 64" and "length (free_req qp) < 65535"
  shows "built (sgl (a_payload A) \<noteq> None) (made ns A po lba cnt) qp (ns_cmd_rw 4 ns A check False po mo lba cnt qp)"
proof (cases "sgl (a_payload A) = None")
  case True
  then show ?thesis using rw_contig [OF assms(1) True assms(3,4), of po 1 check mo] unfolding four(1) by (simp only: simp_thms)
next
  case False
  with assms(2) have ok: "sgl_ok ns A" by simp
  have "built True (made ns A po lba cnt) qp (ns_cmd_rw (Suc (Suc 2)) ns A check False po mo lba cnt qp)"
  proof (rule rw_levels [OF assms(1,3,4)])
    fix m :: nat and check po mo cnt and lba :: u64 and qp :: spdk_nvme_qpair
    assume "2 \<le> m" and a: "fits_stripe (stripe_of ns A) (unat lba) (unat cnt)" "cnt \<le> get_sectors_per_max_io ns (a_flags A)"
      "unat lba + unat cnt \<le> 2 ^ 64" "length (free_req qp) < 65535"
    then have "m = Suc (Suc (m - 2))" by arith
    then show "built True (made ns A po lba cnt) qp (ns_cmd_rw m ns A check False po mo lba cnt qp)"
      using rw_elements [OF assms(1) ok a, of po "m - 2" check mo] by (simp only:)
  qed
  then show ?thesis using False unfolding four(2) by (simp only: not_False_eq_True)
qed



text \<open>A device with 512-byte blocks, transfers of at most 4 blocks and stripes of 8, and a pool of 9 requests.\<close>

definition demo_nvme :: spdk_nvme_ns where
  "demo_nvme = \<lparr>ns_ident = 1, extended_lba_supported = False, dps_pi_supported = False, pi_type = 0, md_size = 0,
     sector_size = 512, extended_lba_size = 512, sectors_per_max_io = 4, sectors_per_max_io_no_md = 4, sectors_per_stripe = 8,
     is_zns = True, sgl_supported = False, accel_supported = True, zone_append_supported = True, max_sges = 2, page_size = 4096,
     max_zone_append_size = 2048, io_queue_requests = 9\<rparr>"

definition demo_qpair :: spdk_nvme_qpair where
  "demo_qpair = \<lparr>free_req = map (\<lambda>i. (i, 7)) [0..<9], num_outstanding_reqs = 0, in_poll_group = True\<rparr>"

lemma demo_nvme_ok: "op \<noteq> NVM_ZONE_APPEND \<Longrightarrow> args_ok demo_nvme (args_of p cb op 0 mk tag cdw13)"
    "usable demo_nvme (args_of p cb op 0 mk tag cdw13)" "host_buffer_sector_size demo_nvme 0 = 512" "get_sectors_per_max_io demo_nvme 0 = 4"
  by (auto simp: args_ok_def args_of_def usable_def demo_nvme_def is_io_flags_valid_def stripe_ok_def get_sectors_per_max_io_def
      md_excluded_from_xfer_def host_buffer_sector_size_def intro!: exI [of _ 3])

lemma demo_pool: "length (free_req demo_qpair) < 65535"
  by (simp add: demo_qpair_def)

text \<open>Twelve blocks from block 6 take four commands, of two, four, four and two blocks, and two parents.\<close>

lemma demo_build: "case build demo_nvme demo_qpair (PAYLOAD_CONTIG 4096 0) 6 12 1 NVM_WRITE 0 0 0 0 False False of
    Some (qp, Inr t) \<Rightarrow> length (tree_ids t) = 6 \<and> map nlb (leaves t) = [2, 4, 4, 2] | _ \<Rightarrow> False"
  by code_simp



section \<open>Zone append\<close>

text \<open>
  C21. A contiguous zone append, whose data must stay in one command, is never split and never
  fails the assertion that guards this, as long as the append limit of the device is not above its
  transfer limit and the size in bytes fits in 32 bits. It is sent as one command, or rejected.
\<close>

theorem zone_append_is_one_command:
  assumes "is_zns ns" and "unat (max_zone_append_size ns) \<le> unat (get_sectors_per_max_io ns io_flags) * unat (host_buffer_sector_size ns io_flags)"
    and "host_buffer_sector_size ns io_flags \<noteq> 0" and "unat cnt * unat (host_buffer_sector_size ns io_flags) < 2 ^ 32"
  shows "\<exists>qp' out. nvme_ns_cmd_zone_append_with_md ns qp buf mdata zslba cnt cb io_flags mk tag = Some (qp', out) \<and>
    (\<forall>req. out = Submit req \<longrightarrow> leaves req = [rq_info req] \<and> c_opc (r_cmd (rq_info req)) = NVM_ZONE_APPEND \<and>
       unat cnt * unat (host_buffer_sector_size ns io_flags) \<le> unat (max_zone_append_size ns))"
proof (cases "is_io_flags_valid io_flags \<and> nvme_ns_cmd_check_zone_append ns cnt io_flags = 0")
  case True
  then have "unat (cnt * host_buffer_sector_size ns io_flags) \<le> unat (max_zone_append_size ns)"
    by (simp add: nvme_ns_cmd_check_zone_append_def not_less word_le_nat_alt split: if_splits)
  then have le: "unat cnt * unat (host_buffer_sector_size ns io_flags) \<le> unat (max_zone_append_size ns)"
    using assms(4) by (simp add: unat_word_ariths)
  then have "unat cnt * unat (host_buffer_sector_size ns io_flags) \<le> unat (get_sectors_per_max_io ns io_flags) * unat (host_buffer_sector_size ns io_flags)"
    using assms(2) by (rule le_trans)
  then have "cnt \<le> get_sectors_per_max_io ns io_flags" using assms(3) by (auto simp: word_le_nat_alt unat_gt_0)
  then show ?thesis using True le assms(1)
    by (auto simp: nvme_ns_cmd_zone_append_with_md_def contig_io_def build_def four(1) ns_cmd_rw.simps nvme_allocate_request_def Let_def
        unsplit_or_fail_def submit_or_fail_def nvme_ns_map_failure_rc_def setup_request_def PAYLOAD_CONTIG_def split: list.splits)
next
  case False
  then show ?thesis by (auto simp: nvme_ns_cmd_zone_append_with_md_def invalid_def Let_def)
qed

theorem zone_append_is_one_command_witness:
  "\<exists>qp' out. nvme_ns_cmd_zone_append_with_md demo_nvme demo_qpair 4096 0 64 3 1 0 0 0 = Some (qp', out) \<and>
    (\<forall>req. out = Submit req \<longrightarrow> leaves req = [rq_info req])"
  using zone_append_is_one_command [where ns = demo_nvme and io_flags = 0 and cnt = 3 and qp = demo_qpair and buf = 4096 and mdata = 0
      and zslba = 64 and cb = 1 and mk = 0 and tag = 0]
  by (auto simp: demo_nvme_ok) (auto simp: demo_nvme_def)

section \<open>Failures\<close>

text \<open>
  C22. A request with an accel sequence that is too large for one command is refused, but the entry
  taken for it is not put back: every such call shrinks the pool by one.
\<close>

theorem accel_split_leaks:
  assumes "free_req qp = (i, stale) # rest" and "op \<noteq> NVM_ZONE_APPEND" and "get_sectors_per_max_io ns io_flags < cnt"
  shows "\<exists>qp'. build ns qp p lba cnt cb op io_flags mk tag cdw13 check True = Some (qp', Inl (- EINVAL)) \<and> holds {#i#} qp qp'"
  unfolding build_def four(1) using assms
  by (simp add: ns_cmd_rw.simps nvme_allocate_request_def Let_def split_request_def holds_def pool_ids_def)

theorem accel_split_leaks_witness:
  "\<exists>qp'. build demo_nvme demo_qpair (PAYLOAD_CONTIG 4096 0) 6 12 1 NVM_WRITE 0 0 0 0 False True = Some (qp', Inl (- EINVAL)) \<and> holds {#0#} demo_qpair qp'"
  by (rule accel_split_leaks) (simp_all add: demo_qpair_def upt_rec demo_nvme_ok)

text \<open>
  C23. The variants of the calls that label a request with a namespace number write the label
  through the request pointer before they look at it: with no entry left in the pool they follow
  NULL, where the plain call reports that memory ran out.
\<close>

theorem labelled_write_follows_null:
  assumes "free_req qp = []" and "is_io_flags_valid io_flags"
  shows "spdk_nvme_ns_cmd_write_with_md_ns_id ns qp buf mdata lba cnt cb ns_id io_flags mk tag = None \<and>
    (\<exists>rc. spdk_nvme_ns_cmd_write_with_md ns qp buf mdata lba cnt cb io_flags mk tag = Some (qp, Fail rc))"
  using assms
  by (simp add: spdk_nvme_ns_cmd_write_with_md_ns_id_def spdk_nvme_ns_cmd_write_with_md_def contig_io_def build_def four(1) ns_cmd_rw.simps
      nvme_allocate_request_def tag_request_def submit_or_fail_def nvme_ns_map_failure_rc_def Let_def)

theorem labelled_write_follows_null_witness:
  "spdk_nvme_ns_cmd_write_with_md_ns_id demo_nvme (demo_qpair\<lparr>free_req := []\<rparr>) 4096 0 8 4 1 2 0 0 0 = None"
  using labelled_write_follows_null [where qp = "demo_qpair\<lparr>free_req := []\<rparr>" and io_flags = 0] by (simp add: is_io_flags_valid_def)

lemma prp_loop_stuck: "prp_loop mk ns accel sges psize w req qp = Some r \<Longrightarrow> \<not> (w_cur w < psize \<and> w_length w = 0)"
  by (erule prp_loop.raw_induct [rotated]) (auto split: if_splits)

lemma prp_loop_hangs: "w_cur w < psize \<Longrightarrow> w_length w = 0 \<Longrightarrow> prp_loop mk ns accel sges psize w req qp = None"
  using prp_loop_stuck [of mk ns accel sges psize w req qp] by (cases "prp_loop mk ns accel sges psize w req qp") auto

text \<open>
  C24. A scattered write that goes through page lists and whose first element is empty never
  returns: the loop over the elements starts again at the same element for ever.
\<close>

theorem empty_element_hangs:
  assumes "free_req qp \<noteq> []" and "is_io_flags_valid io_flags" and "\<not> sgl_supported ns" and "sectors_per_stripe ns = 0"
    and "cnt \<le> get_sectors_per_max_io ns io_flags" and "cnt * host_buffer_sector_size ns io_flags \<noteq> 0" and "snd (f 0 0) = 0"
  shows "spdk_nvme_ns_cmd_writev ns qp lba cnt cb io_flags (Some f) = None"
proof -
  obtain i stale rest where "free_req qp = (i, stale) # rest" using assms(1) by (cases "free_req qp") auto
  moreover have "\<not> get_sectors_per_max_io ns io_flags < cnt" using assms(5) by simp
  moreover have "0 < cnt * host_buffer_sector_size ns io_flags" using assms(6) by (simp only: word_gt_0 not_False_eq_True)
  ultimately show ?thesis using assms(2-4,7)
    by (simp add: spdk_nvme_ns_cmd_writev_def vector_io_def build_def four(1) ns_cmd_rw.simps nvme_allocate_request_def submit_or_fail_def
        PAYLOAD_SGL_def split_request_prp_def Let_def start_walk_def prp_loop_hangs finish_sges_def)
qed

theorem empty_element_hangs_witness:
  "spdk_nvme_ns_cmd_writev (demo_nvme\<lparr>sectors_per_stripe := 0\<rparr>) demo_qpair 8 2 1 0 (Some (\<lambda>po i. if i = 0 then (4096, 0) else (8192, 1024))) = None"
  by (rule empty_element_hangs) (simp_all add: demo_qpair_def demo_nvme_def is_io_flags_valid_def get_sectors_per_max_io_def
      md_excluded_from_xfer_def host_buffer_sector_size_def)

text \<open>
  C0. The cut at stripe boundaries masks the block number with the stripe size less one, which is the position in
  the stripe only when the size is a power of two. The size is taken unchecked from the namespace data. When it is not
  a power of two, a command of one stripe's length can be sent whole although it crosses a boundary.
\<close>

theorem odd_stripe_is_crossed:
  assumes "free_req qp \<noteq> []" and "is_io_flags_valid io_flags" and "op \<noteq> NVM_ZONE_APPEND" and "sgl p = None"
    and "lba AND ucast (sectors_per_stripe ns - 1) = 0" and "\<not> unat (sectors_per_stripe ns) dvd unat lba" and "sectors_per_stripe ns \<noteq> 0"
    and "sectors_per_stripe ns \<le> get_sectors_per_max_io ns io_flags" and "get_sectors_per_max_io ns io_flags \<le> 65536"
  shows "\<exists>qp' t. build ns qp p lba (sectors_per_stripe ns) cb op io_flags mk tag dw check False = Some (qp', Inr t) \<and>
    leaves t = [rq_info t] \<and> c_lba (r_cmd (rq_info t)) = lba \<and> nlb (rq_info t) = unat (sectors_per_stripe ns) \<and>
    \<not> fits_stripe (sectors_per_stripe ns) (unat lba) (nlb (rq_info t))"
proof -
  let ?s = "sectors_per_stripe ns"
  obtain i stale rest where "free_req qp = (i, stale) # rest" using assms(1) by (cases "free_req qp") auto
  moreover have "\<not> get_sectors_per_max_io ns io_flags < ?s" using assms(8) by simp
  moreover have "unat ((?s - 1 OR (io_flags AND FLAGS_CDW12_MASK)) AND 0xFFFF) + 1 = unat ?s"
    by (rule cdw12_blocks) (use assms(7-9) in \<open>auto simp: word_le_nat_alt\<close>)
  moreover have "\<not> fits_stripe ?s (unat lba) (unat ?s)" using assms(6,7) by (auto simp: fits_stripe_def dvd_eq_mod_eq_0)
  ultimately show ?thesis using assms(2-5)
    by (simp add: build_def four(1) ns_cmd_rw.simps nvme_allocate_request_def Let_def setup_request_def nlb_def)
qed

definition odd_nvme :: spdk_nvme_ns where
  "odd_nvme = demo_nvme\<lparr>sectors_per_stripe := 6, sectors_per_max_io := 8\<rparr>"

theorem odd_stripe_is_crossed_witness:
  "\<exists>qp' t. build odd_nvme demo_qpair (PAYLOAD_CONTIG 4096 0) 2 6 1 NVM_WRITE 0 0 0 0 False False = Some (qp', Inr t) \<and>
    leaves t = [rq_info t] \<and> c_lba (r_cmd (rq_info t)) = 2 \<and> nlb (rq_info t) = 6 \<and> \<not> fits_stripe 6 2 (nlb (rq_info t))"
proof -
  have s: "sectors_per_stripe odd_nvme = 6" "get_sectors_per_max_io odd_nvme 0 = 8"
    by (simp_all add: odd_nvme_def demo_nvme_def get_sectors_per_max_io_def md_excluded_from_xfer_def)
  from odd_stripe_is_crossed [where ns = odd_nvme and qp = demo_qpair and p = "PAYLOAD_CONTIG 4096 0" and lba = 2 and io_flags = 0 and op = NVM_WRITE
      and cb = 1 and mk = 0 and tag = 0 and dw = 0 and check = False]
  show ?thesis by (simp add: s demo_qpair_def is_io_flags_valid_def PAYLOAD_CONTIG_def)
qed

text \<open>A device whose 512-byte blocks carry 8 bytes of protection information, taking one scatter element per command.\<close>

definition pract_nvme :: spdk_nvme_ns where
  "pract_nvme = demo_nvme\<lparr>extended_lba_supported := True, dps_pi_supported := True, pi_type := 1, md_size := 8, extended_lba_size := 520,
     sectors_per_max_io := 252, sectors_per_max_io_no_md := 256, sectors_per_stripe := 0, sgl_supported := True, max_sges := 1\<rparr>"

text \<open>
  C0. With the PRACT flag the device inserts the protection information itself, so the caller's buffer has 512 bytes
  per block; the cut at scatter elements still counts 520 bytes per block. A write of 130 blocks in two elements
  of 65 blocks each is sent as two commands of 64 blocks: the second lands one block too early on the device, the last
  two blocks are not written and 512 bytes after each command's data are skipped.
\<close>

theorem scattered_pract_loses_blocks:
  "case spdk_nvme_ns_cmd_writev pract_nvme demo_qpair 0 130 1 0x20000000 (Some (\<lambda>po i. (0x10000 * word_of_nat i, 33280))) of
     Some (qp, Submit t) \<Rightarrow> map leaf_blocks (leaves t) = [[0..<64], [64..<128]] \<and>
       map (\<lambda>r. (r_payload_offset r, r_payload_size r)) (leaves t) = [(0, 32768), (33280, 32768)]
   | _ \<Rightarrow> False"
  by code_simp

end
