(* ===== verification/Nvme_Qpair.thy ===== *)
theory Nvme_Qpair
  imports Nvme_Ns_Cmd
begin

text \<open>
  Submission and completion of requests on an I/O queue pair of the NVMe driver (\<open>src/lib/nvme/nvme_qpair.c\<close>
  and the inline functions of \<open>nvme_internal.h\<close>): children of a split request, requests queued while
  the transport is busy, injected errors, aborts, and the states of the connection.

  Requests are nodes of a heap, linked to parent and children as in C. The transport, the clock and the
  controller's reconnect functions are arguments (\<open>qp_env\<close>). Callbacks of the user are recorded
  in \<open>trace\<close>; they do not call back into the queue pair.
\<close>

section \<open>State\<close>

datatype nvme_qpair_state = DISCONNECTED | DISCONNECTING | CONNECTING | CONNECTED | ENABLING | ENABLED | DESTROYING

datatype failure_reason = FAILURE_NONE | FAILURE_LOCAL | FAILURE_REMOTE | FAILURE_RESET | FAILURE_UNKNOWN

record cpl_status =
  st_sct :: nat
  st_sc :: nat
  st_dnr :: bool

definition status_ok :: cpl_status where
  "status_ok = \<lparr>st_sct = 0, st_sc = 0, st_dnr = False\<rparr>"

definition status_is_error :: "cpl_status \<Rightarrow> bool" where
  "status_is_error st \<longleftrightarrow> st_sc st \<noteq> 0 \<or> st_sct st \<noteq> 0"

record req_node =
  n_opc :: u8
  n_cb :: request_cb
  n_parent :: "nat option"
  n_children :: "nat list"
  n_parent_status :: cpl_status
  n_cpl :: cpl_status
  n_queued :: bool
  n_timed_out :: bool
  n_submit_tick :: u64
  n_timeout_tsc :: u64
  n_accel :: bool

record nvme_error_cmd =
  do_not_submit :: bool
  ec_timeout_tsc :: u64
  err_count :: nat
  ec_opc :: u8
  ec_sct :: nat
  ec_sc :: nat

text \<open>A finished access to a controller register, for the process that asked for it.\<close>

record nvme_register_completion =
  rg_pid :: nat
  rg_cb :: "u64 option"
  rg_value :: u64
  rg_cpl :: cpl_status

datatype qp_event = Sent nat | Callback u64 cpl_status | Abort_sequence nat | Register_done u64 u64 cpl_status

record io_qpair =
  nodes :: "nat \<Rightarrow> req_node"
  free_list :: "nat list"
  outstanding :: nat
  reserved_req :: nat
  queued_req :: "nat list"
  aborting_queued_req :: "nat list"
  err_cmd_head :: "nvme_error_cmd list"
  err_req_head :: "nat list"
  qp_state :: nvme_qpair_state
  is_new_qpair :: bool
  abort_dnr :: bool
  transport_failure_reason :: failure_reason
  ctrlr_is_failed :: bool
  ctrlr_is_removed :: bool
  ctrlr_is_resetting :: bool
  timeout_enabled :: bool
  is_pcie :: bool
  is_admin :: bool
  register_operations :: "nvme_register_completion list"
  n_submits :: nat
  n_ticks :: nat
  trace :: "qp_event list"

text \<open>
  The environment: what the transport returns for the \<open>k\<close>-th submission, the requests it aborts
  or completes when asked, whether a callback run while polling asks to delete the queue pair, the
  \<open>k\<close>-th reading of the clock, the number of this process, and the functions of the controller that
  disconnect, reinitialise, fail it and free a queue pair.
\<close>

record qp_env =
  e_submit :: "nat \<Rightarrow> int"
  e_abort_reqs :: "io_qpair \<Rightarrow> (nat \<times> cpl_status) list"
  e_poll :: "io_qpair \<Rightarrow> int \<times> (nat \<times> cpl_status) list \<times> bool"
  e_ticks :: "nat \<Rightarrow> u64"
  e_disconnect :: "io_qpair \<Rightarrow> io_qpair option"
  e_reinitialize :: "io_qpair \<Rightarrow> io_qpair option"
  e_pid :: nat
  e_ctrlr_fail :: "io_qpair \<Rightarrow> io_qpair option"
  e_free_io_qpair :: "io_qpair \<Rightarrow> io_qpair option"

abbreviation OPC_FABRIC :: u8 where "OPC_FABRIC \<equiv> 0x7F"
abbreviation SC_INTERNAL_DEVICE_ERROR :: nat where "SC_INTERNAL_DEVICE_ERROR \<equiv> 6"
abbreviation SC_ABORTED_BY_REQUEST :: nat where "SC_ABORTED_BY_REQUEST \<equiv> 7"
abbreviation SC_ABORTED_SQ_DELETION :: nat where "SC_ABORTED_SQ_DELETION \<equiv> 8"

definition on_node :: "nat \<Rightarrow> (req_node \<Rightarrow> req_node) \<Rightarrow> io_qpair \<Rightarrow> io_qpair" where
  "on_node i f q = q\<lparr>nodes := (nodes q)(i := f (nodes q i))\<rparr>"

definition qp_ticks :: "qp_env \<Rightarrow> io_qpair \<Rightarrow> u64 \<times> io_qpair" where
  "qp_ticks e q = (e_ticks e (n_ticks q), q\<lparr>n_ticks := n_ticks q + 1\<rparr>)"

definition nvme_qpair_set_state :: "nvme_qpair_state \<Rightarrow> io_qpair \<Rightarrow> io_qpair" where
  "nvme_qpair_set_state st q = (let q = q\<lparr>qp_state := st\<rparr> in if st = ENABLED then q\<lparr>is_new_qpair := False\<rparr> else q)"

definition nvme_completion_is_retry :: "cpl_status \<Rightarrow> bool" where
  "nvme_completion_is_retry st =
     (if st_sct st = 0 then st_sc st \<in> {0x82, 0x84} \<and> \<not> st_dnr st
      else if st_sct st = 3 then st_sc st = 0 \<and> \<not> st_dnr st
      else False)"

section \<open>Completion\<close>

definition free_node :: "nat \<Rightarrow> io_qpair \<Rightarrow> io_qpair option" where
  "free_node i q =
     (if n_children (nodes q i) \<noteq> [] then None
      else if i = reserved_req q then Some q
      else if outstanding q = 0 then None
      else Some (q\<lparr>free_list := i # free_list q, outstanding := outstanding q - 1\<rparr>))"

definition nvme_request_remove_child :: "nat \<Rightarrow> nat \<Rightarrow> io_qpair \<Rightarrow> io_qpair option" where
  "nvme_request_remove_child parent child q =
     (if n_parent (nodes q child) \<noteq> Some parent \<or> child \<notin> set (n_children (nodes q parent)) then None
      else Some (on_node parent (\<lambda>n. n\<lparr>n_children := remove1 child (n_children n)\<rparr>)
             (on_node child (\<lambda>n. n\<lparr>n_parent := None\<rparr>) q)))"

text \<open>The first injected error for the opcode of a command that completed successfully.\<close>

fun inject_completion :: "u8 \<Rightarrow> cpl_status \<Rightarrow> nvme_error_cmd list \<Rightarrow> cpl_status \<times> nvme_error_cmd list" where
  "inject_completion op st [] = (st, [])"
| "inject_completion op st (c # cs) =
     (if \<not> do_not_submit c \<and> ec_opc c = op \<and> err_count c \<noteq> 0
      then (st\<lparr>st_sct := ec_sct c, st_sc := ec_sc c\<rparr>, c\<lparr>err_count := err_count c - 1\<rparr> # cs)
      else let (st, cs) = inject_completion op st cs in (st, c # cs))"

definition before_complete :: "nat \<Rightarrow> cpl_status \<Rightarrow> io_qpair \<Rightarrow> (cpl_status \<times> io_qpair) option" where
  "before_complete i st q = do {
     q \<leftarrow> (if n_accel (nodes q i)
          then if status_is_error st then Some ((on_node i (\<lambda>n. n\<lparr>n_accel := False\<rparr>) q)\<lparr>trace := trace q @ [Abort_sequence i]\<rparr>) else None
          else Some q);
     let (st, cs) = (if status_is_error st then (st, err_cmd_head q) else inject_completion (n_opc (nodes q i)) st (err_cmd_head q));
     q \<leftarrow> free_node i (q\<lparr>err_cmd_head := cs\<rparr>);
     Some (st, q)
   }"

text \<open>
  \<open>nvme_complete_request\<close> together with \<open>nvme_cb_complete_child\<close>, the callback of a child: the
  last child to complete completes its parent with the status collected there.
\<close>

definition child_completed :: "nat \<Rightarrow> nat \<Rightarrow> cpl_status \<Rightarrow> io_qpair \<Rightarrow> io_qpair option" where
  "child_completed parent child st q = do {
     q \<leftarrow> nvme_request_remove_child parent child q;
     Some (if status_is_error st then on_node parent (\<lambda>n. n\<lparr>n_parent_status := st\<rparr>) q else q)
   }"

partial_function (option) nvme_complete_request :: "nat \<Rightarrow> cpl_status \<Rightarrow> io_qpair \<Rightarrow> io_qpair option" where
  "nvme_complete_request i st q = do {
     (st, q) \<leftarrow> before_complete i st q;
     (case n_cb (nodes q i) of
        User_cb arg \<Rightarrow> Some (q\<lparr>trace := trace q @ [Callback arg st]\<rparr>)
      | Complete_child \<Rightarrow> (case n_parent (nodes q i) of
          None \<Rightarrow> None
        | Some p \<Rightarrow> do {
            q \<leftarrow> child_completed p i st q;
            if n_children (nodes q p) = [] then nvme_complete_request p (n_parent_status (nodes q p)) q else Some q
          }))
   }"

definition manual_complete :: "nat \<Rightarrow> nat \<Rightarrow> bool \<Rightarrow> nat \<Rightarrow> io_qpair \<Rightarrow> io_qpair option" where
  "manual_complete sct sc dnr i q = nvme_complete_request i \<lparr>st_sct = sct, st_sc = sc, st_dnr = dnr\<rparr> q"

partial_function (option) free_children :: "nat \<Rightarrow> io_qpair \<Rightarrow> io_qpair option" where
  "free_children i q = (case n_children (nodes q i) of
     [] \<Rightarrow> Some q
   | c # _ \<Rightarrow> do {
       q \<leftarrow> nvme_request_remove_child i c q;
       q \<leftarrow> free_children c q;
       q \<leftarrow> free_node c q;
       free_children i q
     })"

section \<open>Aborting queued requests\<close>

definition nvme_qpair_abort_queued_reqs :: "io_qpair \<Rightarrow> io_qpair option" where
  "nvme_qpair_abort_queued_reqs q =
     foldM (\<lambda>i q. manual_complete 0 SC_ABORTED_SQ_DELETION (abort_dnr q) i q) (queued_req q) (q\<lparr>queued_req := []\<rparr>)"

definition complete_abort_queued_reqs :: "io_qpair \<Rightarrow> io_qpair option" where
  "complete_abort_queued_reqs q =
     foldM (manual_complete 0 SC_ABORTED_BY_REQUEST True) (aborting_queued_req q) (q\<lparr>aborting_queued_req := []\<rparr>)"

definition cb_arg_is :: "io_qpair \<Rightarrow> u64 \<Rightarrow> nat \<Rightarrow> bool" where
  "cb_arg_is q arg i \<longleftrightarrow> n_cb (nodes q i) = User_cb arg \<or>
     (case n_parent (nodes q i) of None \<Rightarrow> False | Some p \<Rightarrow> n_cb (nodes q p) = User_cb arg)"

definition nvme_qpair_abort_queued_reqs_with_cbarg :: "u64 \<Rightarrow> io_qpair \<Rightarrow> nat \<times> io_qpair" where
  "nvme_qpair_abort_queued_reqs_with_cbarg arg q =
     (let hit = filter (cb_arg_is q arg) (queued_req q)
      in (length hit, q\<lparr>queued_req := filter (\<lambda>i. \<not> cb_arg_is q arg i) (queued_req q), aborting_queued_req := aborting_queued_req q @ hit\<rparr>))"

definition complete_error_req :: "nat \<Rightarrow> io_qpair \<Rightarrow> io_qpair option" where
  "complete_error_req i q = manual_complete (st_sct (n_cpl (nodes q i))) (st_sc (n_cpl (nodes q i))) (abort_dnr q) i q"

definition nvme_qpair_complete_error_reqs :: "io_qpair \<Rightarrow> io_qpair option" where
  "nvme_qpair_complete_error_reqs q = foldM complete_error_req (err_req_head q) (q\<lparr>err_req_head := []\<rparr>)"

definition nvme_qpair_abort_all_queued_reqs :: "io_qpair \<Rightarrow> io_qpair option" where
  "nvme_qpair_abort_all_queued_reqs q = do {
     q \<leftarrow> nvme_qpair_complete_error_reqs q;
     q \<leftarrow> nvme_qpair_abort_queued_reqs q;
     complete_abort_queued_reqs q
   }"

definition transport_abort_reqs :: "qp_env \<Rightarrow> io_qpair \<Rightarrow> io_qpair option" where
  "transport_abort_reqs e q = foldM (\<lambda>(i, st). nvme_complete_request i st) (e_abort_reqs e q) q"

section \<open>Submission\<close>

text \<open>The label \<open>error\<close> of the submission function.\<close>

definition submit_error :: "int \<Rightarrow> nat \<Rightarrow> io_qpair \<Rightarrow> (int \<times> io_qpair) option" where
  "submit_error rc i q = do {
     q \<leftarrow> (case n_parent (nodes q i) of None \<Rightarrow> Some q | Some p \<Rightarrow> nvme_request_remove_child p i q);
     if n_queued (nodes q i) then do {
       q \<leftarrow> (if rc = - ENXIO then manual_complete 0 SC_ABORTED_SQ_DELETION (abort_dnr q) i q
            else manual_complete 0 SC_INTERNAL_DEVICE_ERROR True i q);
       Some (rc, q)
     } else do {
       q \<leftarrow> free_node i q;
       Some (rc, q)
     }
   }"

text \<open>An opcode whose commands are not to be sent but to fail after a while.\<close>

fun inject_submission :: "u8 \<Rightarrow> nvme_error_cmd list \<Rightarrow> (nvme_error_cmd \<times> nvme_error_cmd list) option" where
  "inject_submission op [] = None"
| "inject_submission op (c # cs) =
     (if do_not_submit c \<and> ec_opc c = op \<and> err_count c \<noteq> 0 then Some (c, c\<lparr>err_count := err_count c - 1\<rparr> # cs)
      else map_option (\<lambda>(x, cs). (x, c # cs)) (inject_submission op cs))"

definition hold_back :: "qp_env \<Rightarrow> nvme_error_cmd \<Rightarrow> nvme_error_cmd list \<Rightarrow> nat \<Rightarrow> io_qpair \<Rightarrow> io_qpair" where
  "hold_back e c cs i q =
     (let (now, q) = qp_ticks e q
      in (on_node i (\<lambda>n. n\<lparr>n_timeout_tsc := ec_timeout_tsc c, n_submit_tick := now,
            n_cpl := (n_cpl n)\<lparr>st_sct := ec_sct c, st_sc := ec_sc c\<rparr>\<rparr>) q)\<lparr>err_cmd_head := cs, err_req_head := err_req_head q @ [i]\<rparr>)"

definition stamp :: "qp_env \<Rightarrow> nat \<Rightarrow> io_qpair \<Rightarrow> io_qpair" where
  "stamp e i q =
     (if \<not> timeout_enabled q then on_node i (\<lambda>n. n\<lparr>n_submit_tick := 0\<rparr>) q
      else if n_submit_tick (nodes q i) = 0
      then let (now, q) = qp_ticks e q in on_node i (\<lambda>n. n\<lparr>n_submit_tick := now, n_timed_out := False\<rparr>) q
      else q)"

definition transport_submit :: "qp_env \<Rightarrow> nat \<Rightarrow> io_qpair \<Rightarrow> int \<times> io_qpair" where
  "transport_submit e i q =
     (let rc = e_submit e (n_submits q)
      in (rc, q\<lparr>n_submits := n_submits q + 1, trace := (if rc = 0 then trace q @ [Sent i] else trace q)\<rparr>))"

definition submit_leaf :: "qp_env \<Rightarrow> nat \<Rightarrow> io_qpair \<Rightarrow> (int \<times> io_qpair) option" where
  "submit_leaf e i q = (case inject_submission (n_opc (nodes q i)) (err_cmd_head q) of
     Some (c, cs) \<Rightarrow> Some (0, hold_back e c cs i q)
   | None \<Rightarrow>
       if ctrlr_is_failed q then submit_error (- ENXIO) i q
       else let q = stamp e i q
            in if qp_state q = ENABLED \<or> n_opc (nodes q i) = OPC_FABRIC \<and> qp_state q = CONNECTING
               then let (rc, q) = transport_submit e i q
                    in if rc = 0 then Some (0, on_node i (\<lambda>n. n\<lparr>n_queued := False\<rparr>) q)
                       else if rc = - EAGAIN then Some (rc, q)
                       else submit_error rc i q
               else Some (- EAGAIN, q))"

definition enqueue :: "nat \<Rightarrow> io_qpair \<Rightarrow> io_qpair" where
  "enqueue i q = (on_node i (\<lambda>n. n\<lparr>n_queued := True\<rparr>) q)\<lparr>queued_req := queued_req q @ [i]\<rparr>"

text \<open>\<open>nvme_qpair_submit_request\<close>, for a given \<open>_nvme_qpair_submit_request\<close>.\<close>

definition submit_or_queue :: "(nat \<Rightarrow> io_qpair \<Rightarrow> (int \<times> io_qpair) option) \<Rightarrow> nat \<Rightarrow> io_qpair \<Rightarrow> (int \<times> io_qpair) option" where
  "submit_or_queue f i q =
     (if queued_req q \<noteq> [] \<and> n_children (nodes q i) = [] \<and> (n_opc (nodes q i) \<noteq> OPC_FABRIC \<or> qp_state q \<noteq> CONNECTING)
      then Some (0, enqueue i q)
      else do {
        (rc, q) \<leftarrow> f i q;
        if rc = - EAGAIN then Some (0, enqueue i q) else Some (rc, q)
      })"

definition submit_child :: "(nat \<Rightarrow> io_qpair \<Rightarrow> (int \<times> io_qpair) option) \<Rightarrow> nat \<Rightarrow> nat \<Rightarrow> int \<times> bool \<times> io_qpair \<Rightarrow> (int \<times> bool \<times> io_qpair) option" where
  "submit_child f i c s = (case s of (rc, child_req_failed, q) \<Rightarrow>
     if \<not> child_req_failed then do {
       (rc, q) \<leftarrow> submit_or_queue f c q;
       Some (rc, rc \<noteq> 0, q)
     } else do {
       q \<leftarrow> nvme_request_remove_child i c q;
       q \<leftarrow> free_children c q;
       q \<leftarrow> free_node c q;
       Some (rc, child_req_failed, q)
     })"

text \<open>
  \<open>_nvme_qpair_submit_request\<close>. The first argument bounds the depth of the tree of children, the second
  is \<open>nvme_qpair_check_enabled\<close>.
\<close>

primrec qpair_submit :: "nat \<Rightarrow> (io_qpair \<Rightarrow> (bool \<times> io_qpair) option) \<Rightarrow> qp_env \<Rightarrow> nat \<Rightarrow> io_qpair \<Rightarrow> (int \<times> io_qpair) option" where
  "qpair_submit 0 check_enabled e i q = None"
| "qpair_submit (Suc k) check_enabled e i q = do {
     (_, q) \<leftarrow> check_enabled q;
     if qp_state q \<in> {DISCONNECTED, DISCONNECTING, DESTROYING} then do {
       q \<leftarrow> free_children i q;
       submit_error (- ENXIO) i q
     }
     else if n_children (nodes q i) \<noteq> [] then do {
       (rc, child_req_failed, q) \<leftarrow> foldM (submit_child (qpair_submit k check_enabled e) i) (n_children (nodes q i)) (0, False, q);
       if child_req_failed then
         (if n_children (nodes q i) \<noteq> []
          then Some (0, on_node i (\<lambda>n. n\<lparr>n_cpl := (n_cpl n)\<lparr>st_sct := 0, st_sc := SC_INTERNAL_DEVICE_ERROR\<rparr>\<rparr>) q)
          else submit_error rc i q)
       else Some (rc, q)
     }
     else submit_leaf e i q
   }"

text \<open>
  The last part of \<open>nvme_qpair_check_enabled\<close>, which is all that is left of it outside the state
  \<open>CONNECTED\<close>; in particular when it is called again for a request that is sent from the queue.
\<close>

definition check_failure :: "qp_env \<Rightarrow> io_qpair \<Rightarrow> (bool \<times> io_qpair) option" where
  "check_failure e q =
     (if transport_failure_reason q \<noteq> FAILURE_NONE \<and> qp_state q = ENABLED then do {
        q \<leftarrow> (if \<not> is_pcie q then e_disconnect e q else Some q);
        q \<leftarrow> (if transport_failure_reason q = FAILURE_RESET then e_reinitialize e q else Some q);
        Some (False, q)
      } else Some (qp_state q = ENABLED, q))"

definition nvme_qpair_resubmit_request :: "qp_env \<Rightarrow> nat \<Rightarrow> io_qpair \<Rightarrow> (int \<times> io_qpair) option" where
  "nvme_qpair_resubmit_request e i q =
     (if n_children (nodes q i) \<noteq> [] \<or> \<not> n_queued (nodes q i) then None
      else do {
        (rc, q) \<leftarrow> qpair_submit 1 (check_failure e) e i q;
        Some (rc, if rc = - EAGAIN then q\<lparr>queued_req := i # queued_req q\<rparr> else q)
      })"

partial_function (option) resubmit_all :: "qp_env \<Rightarrow> io_qpair \<Rightarrow> io_qpair option" where
  "resubmit_all e q = (case queued_req q of
     [] \<Rightarrow> Some q
   | i # rest \<Rightarrow> do {
       (rc, q) \<leftarrow> nvme_qpair_resubmit_request e i (q\<lparr>queued_req := rest\<rparr>);
       if rc \<noteq> 0 then Some q else resubmit_all e q
     })"

definition nvme_qpair_check_enabled :: "qp_env \<Rightarrow> io_qpair \<Rightarrow> (bool \<times> io_qpair) option" where
  "nvme_qpair_check_enabled e q = do {
     q \<leftarrow> (if qp_state q = CONNECTED \<and> \<not> ctrlr_is_resetting q then do {
            let q = nvme_qpair_set_state ENABLING q;
            q \<leftarrow> (if is_pcie q \<and> \<not> is_new_qpair q
                 then Option.bind (nvme_qpair_abort_all_queued_reqs q) (transport_abort_reqs e) else Some q);
            resubmit_all e (nvme_qpair_set_state ENABLED q)
          } else Some q);
     check_failure e q
   }"

definition nvme_qpair_submit_request :: "nat \<Rightarrow> qp_env \<Rightarrow> nat \<Rightarrow> io_qpair \<Rightarrow> (int \<times> io_qpair) option" where
  "nvme_qpair_submit_request k e = submit_or_queue (qpair_submit k (nvme_qpair_check_enabled e) e)"

section \<open>Polling\<close>

primrec resubmit_some :: "nat \<Rightarrow> qp_env \<Rightarrow> io_qpair \<Rightarrow> io_qpair option" where
  "resubmit_some 0 e q = Some q"
| "resubmit_some (Suc m) e q =
     (if ctrlr_is_resetting q then Some q
      else case queued_req q of
          [] \<Rightarrow> Some q
        | i # rest \<Rightarrow> do {
            (rc, q) \<leftarrow> nvme_qpair_resubmit_request e i (q\<lparr>queued_req := rest\<rparr>);
            if rc \<noteq> 0 then Some q else resubmit_some m e q
          })"

definition nvme_qpair_resubmit_requests :: "nat \<Rightarrow> qp_env \<Rightarrow> io_qpair \<Rightarrow> io_qpair option" where
  "nvme_qpair_resubmit_requests num_requests e q =
     (if num_requests = 0 then None else Option.bind (resubmit_some num_requests e q) complete_abort_queued_reqs)"

definition expire_error_req :: "qp_env \<Rightarrow> nat \<Rightarrow> io_qpair \<Rightarrow> io_qpair option" where
  "expire_error_req e i q =
     (let (now, q) = qp_ticks e q
      in if now - n_submit_tick (nodes q i) > n_timeout_tsc (nodes q i)
         then complete_error_req i (q\<lparr>err_req_head := remove1 i (err_req_head q)\<rparr>) else Some q)"

definition nvme_complete_register_operations :: "qp_env \<Rightarrow> io_qpair \<Rightarrow> io_qpair" where
  "nvme_complete_register_operations e q =
     (let operations = filter (\<lambda>c. rg_pid c = e_pid e) (register_operations q)
      in q\<lparr>register_operations := filter (\<lambda>c. rg_pid c \<noteq> e_pid e) (register_operations q),
           trace := trace q @ concat (map (\<lambda>c. case rg_cb c of None \<Rightarrow> [] | Some arg \<Rightarrow> [Register_done arg (rg_value c) (rg_cpl c)]) operations)\<rparr>)"

text \<open>The transport's own polling, with the completions it reports, and what follows it.\<close>

definition poll_transport :: "qp_env \<Rightarrow> io_qpair \<Rightarrow> (int \<times> io_qpair) option" where
  "poll_transport e q = do {
     let (ret, cpls, delete_qpair) = e_poll e q;
     q \<leftarrow> foldM (\<lambda>(i, st). nvme_complete_request i st) cpls q;
     (ret, q) \<leftarrow> (if ret < 0
       then if ret = - ENXIO \<and> qp_state q = DISCONNECTING then Some (0, q)
            else do { q \<leftarrow> (if is_admin q then e_ctrlr_fail e q else Some q); Some (ret, q) }
       else Some (ret, q));
     if delete_qpair then do { q \<leftarrow> e_free_io_qpair e q; Some (ret, q) }
     else do {
       q \<leftarrow> (if ret > 0 then nvme_qpair_resubmit_requests (nat ret) e q else complete_abort_queued_reqs q);
       Some (ret, q)
     }
   }"

definition spdk_nvme_qpair_process_completions :: "qp_env \<Rightarrow> io_qpair \<Rightarrow> (int \<times> io_qpair) option" where
  "spdk_nvme_qpair_process_completions e q = do {
     let q = (if is_admin q then nvme_complete_register_operations e q else q);
     if ctrlr_is_failed q \<and> qp_state q \<noteq> DISCONNECTING then do {
       q \<leftarrow> (if ctrlr_is_removed q
            then Option.bind (nvme_qpair_abort_all_queued_reqs (nvme_qpair_set_state DESTROYING q)) (transport_abort_reqs e) else Some q);
       Some (- ENXIO, q)
     } else do {
       (enabled, q) \<leftarrow> nvme_qpair_check_enabled e q;
       if \<not> enabled \<and> qp_state q \<notin> {CONNECTING, DISCONNECTING} then Some (- ENXIO, q)
       else Option.bind (foldM (expire_error_req e) (err_req_head q) q) (poll_transport e)
     }
   }"

section \<open>Setting up and tearing down\<close>

definition zero_node :: req_node where
  "zero_node = \<lparr>n_opc = 0, n_cb = User_cb 0, n_parent = None, n_children = [], n_parent_status = status_ok, n_cpl = status_ok,
     n_queued = False, n_timed_out = False, n_submit_tick = 0, n_timeout_tsc = 0, n_accel = False\<rparr>"

definition nvme_qpair_init :: "bool \<Rightarrow> nat \<Rightarrow> io_qpair \<Rightarrow> int \<times> io_qpair" where
  "nvme_qpair_init oom num_requests q =
     (let q = q\<lparr>is_new_qpair := True, outstanding := 0, free_list := [], queued_req := [], aborting_queued_req := [],
                err_cmd_head := [], err_req_head := []\<rparr>
      in if oom then (- ENOMEM, q)
         else (0, q\<lparr>nodes := (\<lambda>_. zero_node), reserved_req := 0, free_list := rev [1..<num_requests + 1]\<rparr>))"

definition nvme_qpair_deinit :: "io_qpair \<Rightarrow> io_qpair option" where
  "nvme_qpair_deinit q = do {
     q \<leftarrow> nvme_qpair_abort_queued_reqs q;
     q \<leftarrow> complete_abort_queued_reqs q;
     q \<leftarrow> nvme_qpair_complete_error_reqs q;
     Some (q\<lparr>err_cmd_head := []\<rparr>)
   }"

definition spdk_nvme_qpair_is_connected :: "io_qpair \<Rightarrow> bool" where
  "spdk_nvme_qpair_is_connected q \<longleftrightarrow> qp_state q \<in> {CONNECTED, ENABLING, ENABLED}"

text \<open>The errors injected for an opcode; the entry is reused when there is one.\<close>

fun set_injection :: "nvme_error_cmd \<Rightarrow> nvme_error_cmd list \<Rightarrow> nvme_error_cmd list" where
  "set_injection x [] = [x]"
| "set_injection x (c # cs) = (if ec_opc c = ec_opc x then x # cs else c # set_injection x cs)"

definition spdk_nvme_qpair_add_cmd_error_injection :: "bool \<Rightarrow> nvme_error_cmd \<Rightarrow> io_qpair \<Rightarrow> int \<times> io_qpair" where
  "spdk_nvme_qpair_add_cmd_error_injection oom x q =
     (if oom \<and> ec_opc x \<notin> ec_opc ` set (err_cmd_head q) then (- ENOMEM, q)
      else (0, q\<lparr>err_cmd_head := set_injection x (err_cmd_head q)\<rparr>))"

fun drop_injection :: "u8 \<Rightarrow> nvme_error_cmd list \<Rightarrow> nvme_error_cmd list" where
  "drop_injection op [] = []"
| "drop_injection op (c # cs) = (if ec_opc c = op then cs else c # drop_injection op cs)"

definition spdk_nvme_qpair_remove_cmd_error_injection :: "u8 \<Rightarrow> io_qpair \<Rightarrow> io_qpair" where
  "spdk_nvme_qpair_remove_cmd_error_injection op q = q\<lparr>err_cmd_head := drop_injection op (err_cmd_head q)\<rparr>"

end
