(* ===== verification/Nvme_Done.thy ===== *)
theory Nvme_Done
  imports Nvme_Qpair Nvme_Io
begin

text \<open>
  Properties of submission and completion: a request is answered exactly once, whatever its
  children and the order in which they complete, and the places where the code breaks this.
\<close>

section \<open>Trees of outstanding requests\<close>

text \<open>
  The requests still outstanding for one call, with the status collected so far, and what it means
  that they are linked in the heap. Completing a leaf either leaves a smaller tree or completes
  the whole tree with a status.
\<close>

datatype ptree = PNode (p_id: nat) (p_status: cpl_status) (p_kids: "ptree list")

fun pids :: "ptree \<Rightarrow> nat list" where
  "pids (PNode i s ts) = i # concat (map pids ts)"

fun pleaves :: "ptree \<Rightarrow> nat list" where
  "pleaves (PNode i s ts) = (if ts = [] then [i] else concat (map pleaves ts))"

fun linked_as :: "nat option \<Rightarrow> request_cb \<Rightarrow> ptree \<Rightarrow> (nat \<Rightarrow> req_node) \<Rightarrow> bool" where
  "linked_as par cb (PNode i s ts) h \<longleftrightarrow> n_parent (h i) = par \<and> n_cb (h i) = cb \<and> \<not> n_accel (h i) \<and>
     n_children (h i) = map p_id ts \<and> (ts \<noteq> [] \<longrightarrow> n_parent_status (h i) = s) \<and> (\<forall>t \<in> set ts. linked_as (Some i) Complete_child t h)"

definition kid_status :: "cpl_status + ptree \<Rightarrow> cpl_status \<Rightarrow> cpl_status" where
  "kid_status r s = (case r of Inl e \<Rightarrow> if status_is_error e then e else s | Inr _ \<Rightarrow> s)"

definition still :: "(cpl_status + ptree) list \<Rightarrow> ptree list" where
  "still rs = concat (map (\<lambda>r. case r of Inl _ \<Rightarrow> [] | Inr t \<Rightarrow> [t]) rs)"

fun finish :: "nat \<Rightarrow> cpl_status \<Rightarrow> ptree \<Rightarrow> cpl_status + ptree" where
  "finish i st (PNode j s ts) =
     (if ts = [] then if i = j then Inl st else Inr (PNode j s ts)
      else let rs = map (finish i st) ts; s' = fold kid_status rs s
           in if still rs = [] then Inl s' else Inr (PNode j s' (still rs)))"

fun bad :: "ptree \<Rightarrow> bool" where
  "bad (PNode i s ts) \<longleftrightarrow> ts \<noteq> [] \<and> (status_is_error s \<or> (\<exists>t \<in> set ts. bad t))"

lemma p_id_pids: "p_id t \<in> set (pids t)"
  by (cases t) simp

lemma pleaves_pids: "set (pleaves t) \<subseteq> set (pids t)"
  by (induction t) (auto split: if_splits)

lemma pleaves_nonempty: "pleaves t \<noteq> []"
proof (induction t)
  case (PNode i s ts)
  then show ?case by (cases ts) auto
qed

lemma linked_frame: "\<forall>x \<in> set (pids t). h' x = h x \<Longrightarrow> linked_as par cb t h' = linked_as par cb t h"
  by (induction t arbitrary: par cb) auto

lemma still_Inr [simp]: "still (map Inr ts) = ts" "still (rs @ rs') = still rs @ still rs'" "still (Inr t # rs) = t # still rs"
    "still (Inl e # rs) = still rs" "still [] = []"
  by (induction ts) (auto simp: still_def)

lemma fold_kid_Inr [simp]: "fold kid_status (map Inr ts) s = s"
  by (induction ts) (auto simp: kid_status_def)

lemma finish_other: "i \<notin> set (pleaves t) \<Longrightarrow> finish i st t = Inr t"
proof (induction t)
  case (PNode j s ts)
  show ?case
  proof (cases "ts = []")
    case False
    then have "map (finish i st) ts = map Inr ts" using PNode by auto
    then show ?thesis using False by (simp only: finish.simps Let_def still_Inr fold_kid_Inr if_False)
  qed (use PNode.prems in simp)
qed

lemma siblings_disjoint:
  assumes "distinct (concat (map f (us @ c # vs)))" and "t \<in> set us \<union> set vs"
  shows "set (f t) \<inter> set (f c) = {}"
proof -
  have "set (concat (map f us)) \<inter> set (f c) = {}" and "set (f c) \<inter> set (concat (map f vs)) = {}"
    using assms(1) unfolding map_append list.map concat_append concat.simps distinct_append set_append by blast+
  moreover have "set (f t) \<subseteq> set (concat (map f us)) \<or> set (f t) \<subseteq> set (concat (map f vs))"
    using assms(2) unfolding set_concat set_map by blast
  ultimately show ?thesis by blast
qed

text \<open>Only the child that has the leaf changes.\<close>

lemma finish_at:
  assumes "i \<in> set (pleaves c)" and "distinct (pids (PNode j s (us @ c # vs)))"
  shows "finish i st (PNode j s (us @ c # vs)) = (case finish i st c of
     Inr c' \<Rightarrow> Inr (PNode j s (us @ c' # vs))
   | Inl e \<Rightarrow> if us @ vs = [] then Inl (kid_status (Inl e) s) else Inr (PNode j (kid_status (Inl e) s) (us @ vs)))"
proof -
  have "\<forall>t \<in> set us \<union> set vs. i \<notin> set (pleaves t)"
  proof
    fix t assume "t \<in> set us \<union> set vs"
    then have "set (pids t) \<inter> set (pids c) = {}" using assms(2) by (intro siblings_disjoint [of pids us c vs]) simp_all
    then show "i \<notin> set (pleaves t)" using assms(1) pleaves_pids by blast
  qed
  then have "map (finish i st) us = map Inr us" "map (finish i st) vs = map Inr vs" by (auto simp: finish_other)
  then have "map (finish i st) (us @ c # vs) = map Inr us @ finish i st c # map Inr vs" by (simp only: map_append list.map)
  then show ?thesis
    by (cases "finish i st c") (simp_all only: finish.simps Let_def, simp_all add: kid_status_def)
qed

lemma leaf_child:
  assumes "i \<in> set (pleaves (PNode j s ts))" and "ts \<noteq> []"
  obtains us c vs where "ts = us @ c # vs" "i \<in> set (pleaves c)"
proof -
  from assms obtain c where "c \<in> set ts" "i \<in> set (pleaves c)" by auto
  then show ?thesis using that by (metis split_list)
qed

lemma distinct_child:
  assumes "distinct (pids (PNode j s (us @ c # vs)))"
  shows "distinct (pids c)" and "distinct (pids (PNode j s' (us @ vs)))" and "p_id c \<noteq> j" and "j \<notin> set (pids c)"
    and "distinct (pids c') \<Longrightarrow> set (pids c') \<subseteq> set (pids c) \<Longrightarrow> distinct (pids (PNode j s' (us @ c' # vs)))"
proof -
  show "distinct (pids c)" "p_id c \<noteq> j" "j \<notin> set (pids c)" using assms p_id_pids [of c] by auto
  show "distinct (pids (PNode j s' (us @ vs)))" using assms by (simp add: Int_Un_distrib)
  show "distinct (pids (PNode j s' (us @ c' # vs)))" if "distinct (pids c')" "set (pids c') \<subseteq> set (pids c)"
    using assms that unfolding pids.simps map_append list.map concat_append concat.simps distinct_append distinct.simps set_append by blast
qed

definition kept :: "nat \<Rightarrow> cpl_status \<Rightarrow> ptree \<Rightarrow> cpl_status + ptree \<Rightarrow> bool" where
  "kept i st t r \<longleftrightarrow> (case r of
      Inr t' \<Rightarrow> p_id t' = p_id t \<and> mset (pleaves t) = mset (pleaves t') + {#i#} \<and> distinct (pids t') \<and> set (pids t') \<subseteq> set (pids t) \<and>
        (bad t' \<longleftrightarrow> bad t \<or> status_is_error st)
    | Inl e \<Rightarrow> pleaves t = [i] \<and> (status_is_error e \<longleftrightarrow> bad t \<or> status_is_error st))"

lemma finish_keeps: "i \<in> set (pleaves t) \<Longrightarrow> distinct (pids t) \<Longrightarrow> kept i st t (finish i st t)"
proof (induction t)
  case (PNode j s ts)
  show ?case
  proof (cases "ts = []")
    case False
    then obtain us c vs where ts: "ts = us @ c # vs" and i: "i \<in> set (pleaves c)"
      using leaf_child [OF PNode.prems(1)] by blast
    have d: "distinct (pids (PNode j s (us @ c # vs)))" using PNode.prems(2) ts by simp
    note at = finish_at [OF i d, of st]
    have IH: "kept i st c (finish i st c)" using PNode.IH [of c, OF _ i] ts distinct_child(1) [OF d] by simp
    show ?thesis
    proof (cases "finish i st c")
      case (Inr c')
      then show ?thesis using IH at ts distinct_child(5) [OF d, of c' s] by (auto simp: kept_def)
    next
      case (Inl e)
      then show ?thesis using IH at ts distinct_child(2) [OF d, of s] distinct_child(2) [OF d, of e]
        by (auto simp: kept_def kid_status_def)
    qed
  qed (use PNode.prems in \<open>simp add: kept_def\<close>)
qed

section \<open>Completion in the heap\<close>

text \<open>Only the nodes in \<open>A\<close> change, and the requests \<open>gone\<close> are put back into the pool.\<close>

definition settles :: "nat set \<Rightarrow> nat multiset \<Rightarrow> io_qpair \<Rightarrow> io_qpair \<Rightarrow> bool" where
  "settles A gone q q' \<longleftrightarrow> (\<exists>h fl. q' = q\<lparr>nodes := h, free_list := fl, outstanding := outstanding q - size gone\<rparr> \<and>
     (\<forall>x. x \<notin> A \<longrightarrow> h x = nodes q x) \<and> mset fl = mset (free_list q) + gone \<and> size gone \<le> outstanding q)"

lemma settles_refl [simp]: "settles A {#} q q"
  by (auto simp: settles_def intro!: exI [of _ "nodes q"] exI [of _ "free_list q"])

lemma settles_intro:
  assumes "q' = q\<lparr>nodes := h, free_list := fl, outstanding := outstanding q - size gone\<rparr>" and "\<And>x. x \<notin> A \<Longrightarrow> h x = nodes q x"
    and "mset fl = mset (free_list q) + gone" and "size gone \<le> outstanding q"
  shows "settles A gone q q'"
  using assms unfolding settles_def by blast

lemma settles_trans:
  assumes "settles A g q q'" and "settles B g' q' q''" and "A \<subseteq> C" and "B \<subseteq> C"
  shows "settles C (g + g') q q''"
proof -
  obtain h fl where 1: "q' = q\<lparr>nodes := h, free_list := fl, outstanding := outstanding q - size g\<rparr>" "\<And>x. x \<notin> A \<Longrightarrow> h x = nodes q x"
      "mset fl = mset (free_list q) + g" "size g \<le> outstanding q"
    using assms(1) unfolding settles_def by blast
  obtain h' fl' where 2: "q'' = q'\<lparr>nodes := h', free_list := fl', outstanding := outstanding q' - size g'\<rparr>" "\<And>x. x \<notin> B \<Longrightarrow> h' x = nodes q' x"
      "mset fl' = mset (free_list q') + g'" "size g' \<le> outstanding q'"
    using assms(2) unfolding settles_def by blast
  have "q'' = q\<lparr>nodes := h', free_list := fl', outstanding := outstanding q - size (g + g')\<rparr>" using 2(1) 1(1) by simp
  moreover have "\<forall>x. x \<notin> C \<longrightarrow> h' x = nodes q x"
  proof (intro allI impI)
    fix x assume "x \<notin> C"
    then have "x \<notin> A" "x \<notin> B" using assms(3,4) by auto
    then show "h' x = nodes q x" using 1(2) 2(2) 1(1) by simp
  qed
  moreover have "mset fl' = mset (free_list q) + (g + g')" using 1(1,3) 2(3) by simp
  moreover have "size (g + g') \<le> outstanding q" using 1(1,4) 2(4) by simp
  ultimately show ?thesis unfolding settles_def by blast
qed

lemma settles_keeps:
  assumes "settles A g q q'"
  shows "reserved_req q' = reserved_req q" "err_cmd_head q' = err_cmd_head q" "trace q' = trace q" "outstanding q' = outstanding q - size g"
    "size g \<le> outstanding q" "x \<notin> A \<Longrightarrow> nodes q' x = nodes q x" "mset (free_list q') = mset (free_list q) + g"
  using assms by (auto simp: settles_def)

text \<open>Completing one request whose children are done.\<close>

lemma before_complete_plain:
  assumes "n_children (nodes q i) = []" and "\<not> n_accel (nodes q i)" and "i \<noteq> reserved_req q" and "0 < outstanding q" and "err_cmd_head q = []"
  shows "before_complete i st q = Some (st, q\<lparr>free_list := i # free_list q, outstanding := outstanding q - 1\<rparr>)"
  using assms by (cases "status_is_error st") (simp_all add: before_complete_def free_node_def)

text \<open>The requests can be completed: they are outstanding and no errors are injected.\<close>

definition ready :: "nat list \<Rightarrow> io_qpair \<Rightarrow> bool" where
  "ready is q \<longleftrightarrow> reserved_req q \<notin> set is \<and> length is \<le> outstanding q \<and> err_cmd_head q = []"

definition childless :: "nat option \<Rightarrow> request_cb \<Rightarrow> nat \<Rightarrow> (nat \<Rightarrow> req_node) \<Rightarrow> bool" where
  "childless par cb i h \<longleftrightarrow> n_parent (h i) = par \<and> n_cb (h i) = cb \<and> \<not> n_accel (h i) \<and> n_children (h i) = []"

lemma complete_user:
  assumes "childless par (User_cb arg) i (nodes q)" and "i \<noteq> reserved_req q" and "0 < outstanding q" and "err_cmd_head q = []"
  shows "nvme_complete_request i st q =
    Some (q\<lparr>free_list := i # free_list q, outstanding := outstanding q - 1, trace := trace q @ [Callback arg st]\<rparr>)"
  using assms by (subst nvme_complete_request.simps) (simp add: before_complete_plain childless_def)

lemma complete_kid:
  assumes "childless (Some p) Complete_child i (nodes q)" and "i \<noteq> reserved_req q" and "0 < outstanding q" and "err_cmd_head q = []"
    and "i \<noteq> p" and "i \<in> set (n_children (nodes q p))"
  obtains q' where "settles {i, p} {#i#} q q'"
    and "nvme_complete_request i st q = (if n_children (nodes q' p) = [] then nvme_complete_request p (n_parent_status (nodes q' p)) q' else Some q')"
    and "nodes q' p = (nodes q p)\<lparr>n_children := remove1 i (n_children (nodes q p)), n_parent_status := kid_status (Inl st) (n_parent_status (nodes q p))\<rparr>"
proof
  let ?f = "\<lambda>n. n\<lparr>n_children := remove1 i (n_children n), n_parent_status := kid_status (Inl st) (n_parent_status n)\<rparr>"
  let ?q = "on_node p ?f (on_node i (\<lambda>n. n\<lparr>n_parent := None\<rparr>) (q\<lparr>free_list := i # free_list q, outstanding := outstanding q - 1\<rparr>))"
  show "settles {i, p} {#i#} q ?q" using assms(3)
    by (intro settles_intro [where h = "nodes ?q" and fl = "i # free_list q"]) (simp_all add: on_node_def)
  show "nodes ?q p = (nodes q p)\<lparr>n_children := remove1 i (n_children (nodes q p)), n_parent_status := kid_status (Inl st) (n_parent_status (nodes q p))\<rparr>"
    using assms(5) by (simp add: on_node_def)
  have "child_completed p i st (q\<lparr>free_list := i # free_list q, outstanding := outstanding q - 1\<rparr>) = Some ?q"
    using assms(1,5,6) by (auto simp: child_completed_def nvme_request_remove_child_def childless_def on_node_def kid_status_def fun_eq_iff)
  then show "nvme_complete_request i st q = (if n_children (nodes ?q p) = [] then nvme_complete_request p (n_parent_status (nodes ?q p)) ?q else Some ?q)"
    using assms by (subst nvme_complete_request.simps) (simp add: before_complete_plain childless_def)
qed

text \<open>
  Completing a leaf of a tree has the effect that \<open>finish\<close> describes. If the tree is done, what is
  left to do is to complete its root with the status collected.
\<close>

lemma linked_childless: "linked_as par cb (PNode i s []) h \<Longrightarrow> childless par cb i h"
  by (simp add: childless_def)

text \<open>The siblings of a child are not affected by what happens below it.\<close>

lemma siblings_linked:
  assumes "linked_as par cb (PNode j s (us @ c # vs)) (nodes q)" and "distinct (pids (PNode j s (us @ c # vs)))"
    and "settles (insert j (set (pids c))) g q q'" and "u \<in> set us \<union> set vs"
  shows "linked_as (Some j) Complete_child u (nodes q')"
proof -
  have "set (pids u) \<inter> set (pids c) = {}" using assms(2,4) by (intro siblings_disjoint [of pids us c vs]) simp_all
  moreover have "j \<notin> set (pids u)" using assms(2,4) unfolding pids.simps distinct.simps set_concat set_map set_append list.set by blast
  ultimately have out: "x \<notin> insert j (set (pids c))" if "x \<in> set (pids u)" for x using that by blast
  have "\<forall>x \<in> set (pids u). nodes q' x = nodes q x" using settles_keeps(6) [OF assms(3) out] by (rule ballI)
  moreover have "linked_as (Some j) Complete_child u (nodes q)" using assms(1,4) unfolding linked_as.simps set_append list.set by blast
  ultimately show ?thesis by (simp only: linked_frame [of u "nodes q'" "nodes q"])
qed

lemma settles_mono: "settles A g q q' \<Longrightarrow> A \<subseteq> B \<Longrightarrow> settles B g q q'"
  using settles_trans [of A g q q' B "{#}" q' B] by simp

lemma child_shrinks:
  assumes "linked_as par cb (PNode j s (us @ c # vs)) (nodes q)" and d: "distinct (pids (PNode j s (us @ c # vs)))"
    and st: "settles (set (pids c)) g q q'" and "linked_as (Some j) Complete_child c' (nodes q')" and "p_id c' = p_id c"
  shows "linked_as par cb (PNode j s (us @ c' # vs)) (nodes q')"
proof -
  have "nodes q' j = nodes q j" by (rule settles_keeps(6) [OF st distinct_child(4) [OF d]])
  moreover have "\<forall>u \<in> set us \<union> set vs. linked_as (Some j) Complete_child u (nodes q')"
    using siblings_linked [OF assms(1,2) settles_mono [OF st]] by blast
  ultimately show ?thesis using assms(1,4,5) by auto
qed

lemma child_ends:
  assumes l: "linked_as par cb (PNode j s (us @ c # vs)) (nodes q)" and d: "distinct (pids (PNode j s (us @ c # vs)))"
    and st: "settles (set (pids c)) g q q'" and "childless (Some j) Complete_child (p_id c) (nodes q')"
    and "ready (pids (PNode j s (us @ c # vs))) q" and g: "mset (pids c) = add_mset (p_id c) g"
  obtains q'' where "settles (insert j (set (pids c))) (mset (pids c)) q q''"
    and "nvme_complete_request (p_id c) e q' = (if us @ vs = [] then nvme_complete_request j (kid_status (Inl e) s) q'' else Some q'')"
    and "linked_as par cb (PNode j (kid_status (Inl e) s) (us @ vs)) (nodes q'')"
proof -
  have j: "nodes q' j = nodes q j" by (rule settles_keeps(6) [OF st distinct_child(4) [OF d]])
  have len: "length (pids c) = Suc (size g)" using g by (metis size_add_mset size_mset)
  have "Suc (size g) \<le> outstanding q" using assms(5) len by (simp add: ready_def)
  then have pos: "0 < outstanding q'" using settles_keeps(4) [OF st] by simp
  have res: "p_id c \<noteq> reserved_req q'" using assms(5) p_id_pids [of c] settles_keeps(1) [OF st] by (auto simp: ready_def)
  have err: "err_cmd_head q' = []" using assms(5) settles_keeps(2) [OF st] by (simp add: ready_def)
  have ch: "n_children (nodes q j) = map p_id (us @ c # vs)" "n_parent_status (nodes q j) = s" using l by simp_all
  have mem: "p_id c \<in> set (n_children (nodes q' j))" using ch j by simp
  obtain q'' where q'': "settles {p_id c, j} {#p_id c#} q' q''"
      "nvme_complete_request (p_id c) e q' = (if n_children (nodes q'' j) = [] then nvme_complete_request j (n_parent_status (nodes q'' j)) q'' else Some q'')"
      "nodes q'' j = (nodes q' j)\<lparr>n_children := remove1 (p_id c) (n_children (nodes q' j)), n_parent_status := kid_status (Inl e) (n_parent_status (nodes q' j))\<rparr>"
    by (rule complete_kid [OF assms(4) res pos err distinct_child(3) [OF d] mem, where st = e])
  have "p_id c \<notin> p_id ` set us"
  proof
    assume "p_id c \<in> p_id ` set us"
    then obtain u where u: "u \<in> set us" "p_id u = p_id c" by auto
    then have "set (pids u) \<inter> set (pids c) = {}" using d by (intro siblings_disjoint [of pids us c vs]) simp_all
    then show False using u(2) p_id_pids [of u] p_id_pids [of c] by auto
  qed
  then have r: "n_children (nodes q'' j) = map p_id (us @ vs)" "n_parent_status (nodes q'' j) = kid_status (Inl e) s"
    using q''(3) j ch by (simp_all add: remove1_append)
  have "p_id c \<in> set (pids c)" by (rule p_id_pids)
  then have s2: "settles (insert j (set (pids c))) (g + {#p_id c#}) q q''" using settles_trans [OF st q''(1)] by auto
  have "\<forall>u \<in> set us \<union> set vs. linked_as (Some j) Complete_child u (nodes q'')" using siblings_linked [OF l d s2] by blast
  then have "linked_as par cb (PNode j (kid_status (Inl e) s) (us @ vs)) (nodes q'')" using l q''(3) j r by auto
  then show thesis using that s2 q''(2) r g by (simp add: Un_empty)
qed

lemma complete_leaf:
  assumes "linked_as par cb t (nodes q)" and "distinct (pids t)" and "i \<in> set (pleaves t)" and "ready (pids t) q"
  shows "case finish i st t of
      Inr t' \<Rightarrow> \<exists>q' gone. nvme_complete_request i st q = Some q' \<and> linked_as par cb t' (nodes q') \<and>
        settles (set (pids t)) gone q q' \<and> mset (pids t) = mset (pids t') + gone
    | Inl e \<Rightarrow> \<exists>q' gone. nvme_complete_request i st q = nvme_complete_request (p_id t) e q' \<and> childless par cb (p_id t) (nodes q') \<and>
        settles (set (pids t)) gone q q' \<and> mset (pids t) = add_mset (p_id t) gone"
  using assms
proof (induction t arbitrary: par cb)
  case (PNode j s ts)
  show ?case
  proof (cases "ts = []")
    case True
    then show ?thesis using PNode.prems linked_childless [of par cb j s "nodes q"]
      by (auto intro!: exI [of _ q] exI [of _ "{#}"])
  next
    case False
    then obtain us c vs where ts: "ts = us @ c # vs" and i: "i \<in> set (pleaves c)"
      using leaf_child [OF PNode.prems(3)] by blast
    have d: "distinct (pids (PNode j s (us @ c # vs)))" and l: "linked_as par cb (PNode j s (us @ c # vs)) (nodes q)"
      and r: "ready (pids (PNode j s (us @ c # vs))) q" using PNode.prems ts by simp_all
    have lc: "linked_as (Some j) Complete_child c (nodes q)" and rc: "ready (pids c) q" using l r by (auto simp: ready_def)
    have "c \<in> set ts" using ts by simp
    note IH = PNode.IH [OF this lc distinct_child(1) [OF d] i rc] and at = finish_at [OF i d, of st]
    have sub: "set (pids c) \<subseteq> set (pids (PNode j s (us @ c # vs)))" by auto
    show ?thesis
    proof (cases "finish i st c")
      case (Inr c')
      then obtain q' gone where q': "nvme_complete_request i st q = Some q'" "linked_as (Some j) Complete_child c' (nodes q')"
          "settles (set (pids c)) gone q q'" "mset (pids c) = mset (pids c') + gone"
        using IH by auto
      have "p_id c' = p_id c" using finish_keeps [OF i distinct_child(1) [OF d], of st] Inr by (simp add: kept_def)
      note l' = child_shrinks [OF l d q'(3,2) this] and s' = settles_mono [OF q'(3) sub]
      have "mset (pids (PNode j s (us @ c # vs))) = mset (pids (PNode j s (us @ c' # vs))) + gone" using q'(4) by simp
      then show ?thesis unfolding ts at Inr sum.case using q'(1) l' s' by blast
    next
      case (Inl e)
      then obtain q' gone where q': "nvme_complete_request i st q = nvme_complete_request (p_id c) e q'"
          "childless (Some j) Complete_child (p_id c) (nodes q')" "settles (set (pids c)) gone q q'" "mset (pids c) = add_mset (p_id c) gone"
        using IH by auto
      obtain q'' where q'': "settles (insert j (set (pids c))) (mset (pids c)) q q''"
          "nvme_complete_request (p_id c) e q' = (if us @ vs = [] then nvme_complete_request j (kid_status (Inl e) s) q'' else Some q'')"
          "linked_as par cb (PNode j (kid_status (Inl e) s) (us @ vs)) (nodes q'')"
        using child_ends [OF l d q'(3,2) r q'(4)] by blast
      have s2: "settles (set (pids (PNode j s (us @ c # vs)))) (mset (pids c)) q q''" by (rule settles_mono [OF q''(1)]) auto
      show ?thesis
      proof (cases "us @ vs = []")
        case True
        then have "nvme_complete_request i st q = nvme_complete_request j (kid_status (Inl e) s) q''" using q'(1) q''(2) by simp
        moreover have "mset (pids (PNode j s (us @ c # vs))) = add_mset j (mset (pids c))" using True by simp
        moreover have "childless par cb j (nodes q'')" using q''(3) True by (intro linked_childless) simp
        ultimately show ?thesis unfolding ts at Inl sum.case if_P [OF True] ptree.sel using s2 by blast
      next
        case False
        have "nvme_complete_request i st q = Some q''" unfolding q'(1) q''(2) by (rule if_not_P [OF False])
        moreover have "mset (pids (PNode j s (us @ c # vs))) = mset (pids (PNode j (kid_status (Inl e) s) (us @ vs))) + mset (pids c)" by simp
        ultimately show ?thesis unfolding ts at Inl sum.case if_not_P [OF False] using s2 q''(3) by blast
      qed
    qed
  qed
qed

text \<open>The root of a tree answers the caller.\<close>

lemma complete_root:
  assumes "linked_as None (User_cb arg) t (nodes q)" and "distinct (pids t)" and "i \<in> set (pleaves t)" and "ready (pids t) q"
    and "finish i st t = Inl e"
  shows "\<exists>q'. nvme_complete_request i st q = Some q' \<and> trace q' = trace q @ [Callback arg e] \<and>
    mset (free_list q') = mset (free_list q) + mset (pids t) \<and> outstanding q' = outstanding q - length (pids t)"
proof -
  obtain q' gone where q': "nvme_complete_request i st q = nvme_complete_request (p_id t) e q'" "childless None (User_cb arg) (p_id t) (nodes q')"
      "settles (set (pids t)) gone q q'" "mset (pids t) = add_mset (p_id t) gone"
    using complete_leaf [OF assms(1-4), of st] assms(5) by auto
  note k = settles_keeps [OF q'(3)]
  have len: "length (pids t) = Suc (size gone)" using q'(4) by (metis size_add_mset size_mset)
  have "p_id t \<noteq> reserved_req q'" "0 < outstanding q'" "err_cmd_head q' = []"
    using assms(4) k(1,2,4) len p_id_pids [of t] by (auto simp: ready_def)
  note complete_user [OF q'(2) this, of e]
  then show ?thesis unfolding q'(1) using k(3,4,7) len q'(4) by simp
qed

text \<open>Whatever the order in which the leaves complete, the caller is answered once, at the end.\<close>

lemma complete_all:
  assumes "linked_as None (User_cb arg) t (nodes q)" and "distinct (pids t)" and "ready (pids t) q" and "mset (map fst cpls) = mset (pleaves t)"
  shows "\<exists>q' e. foldM (\<lambda>(i, st). nvme_complete_request i st) cpls q = Some q' \<and> trace q' = trace q @ [Callback arg e] \<and>
    mset (free_list q') = mset (free_list q) + mset (pids t) \<and> outstanding q' = outstanding q - length (pids t) \<and>
    (status_is_error e \<longleftrightarrow> bad t \<or> (\<exists>x \<in> set cpls. status_is_error (snd x)))"
  using assms
proof (induction cpls arbitrary: t q)
  case Nil
  then show ?case using pleaves_nonempty [of t] by simp
next
  case (Cons x cpls)
  obtain i st where x: "x = (i, st)" by (cases x)
  have i: "i \<in> set (pleaves t)" using Cons.prems(4) x by (metis fst_conv list.set_intros(1) list.simps(9) set_mset_mset)
  note kp = finish_keeps [OF i Cons.prems(2), of st]
  show ?case
  proof (cases "finish i st t")
    case (Inl e)
    then have "pleaves t = [i]" and e: "status_is_error e \<longleftrightarrow> bad t \<or> status_is_error st" using kp by (simp_all add: kept_def)
    then have "cpls = []" using Cons.prems(4) x by simp
    then show ?thesis using complete_root [OF Cons.prems(1,2) i Cons.prems(3) Inl] e x by auto
  next
    case (Inr t')
    obtain q' gone where q': "nvme_complete_request i st q = Some q'" "linked_as None (User_cb arg) t' (nodes q')"
        "settles (set (pids t)) gone q q'" "mset (pids t) = mset (pids t') + gone"
      using complete_leaf [OF Cons.prems(1,2) i Cons.prems(3), of st] Inr by auto
    have t': "mset (pleaves t) = mset (pleaves t') + {#i#}" "distinct (pids t')" "set (pids t') \<subseteq> set (pids t)"
        "bad t' \<longleftrightarrow> bad t \<or> status_is_error st"
      using kp Inr by (simp_all add: kept_def)
    note k = settles_keeps [OF q'(3)]
    have len: "length (pids t) = length (pids t') + size gone" using q'(4) by (metis size_mset size_union)
    have "ready (pids t') q'" using Cons.prems(3) k(1,2,4) t'(3) len by (auto simp: ready_def)
    moreover have "mset (map fst cpls) = mset (pleaves t')" using Cons.prems(4) x t'(1) by simp
    ultimately obtain q2 e where r: "foldM (\<lambda>(i, st). nvme_complete_request i st) cpls q' = Some q2" "trace q2 = trace q' @ [Callback arg e]"
        "mset (free_list q2) = mset (free_list q') + mset (pids t')" "outstanding q2 = outstanding q' - length (pids t')"
        "status_is_error e \<longleftrightarrow> bad t' \<or> (\<exists>x \<in> set cpls. status_is_error (snd x))"
      using Cons.IH [OF q'(2) t'(2)] by blast
    have "foldM (\<lambda>(i, st). nvme_complete_request i st) (x # cpls) q = Some q2" using x q'(1) r(1) by simp
    moreover have "trace q2 = trace q @ [Callback arg e]" using r(2) k(3) by simp
    moreover have "mset (free_list q2) = mset (free_list q) + mset (pids t)" using r(3) k(7) q'(4) by simp
    moreover have "outstanding q2 = outstanding q - length (pids t)" using r(4) k(4) len by simp
    moreover have "status_is_error e \<longleftrightarrow> bad t \<or> (\<exists>x \<in> set (x # cpls). status_is_error (snd x))" using r(5) t'(4) x by auto
    ultimately show ?thesis by blast
  qed
qed

section \<open>Submission in the heap\<close>

text \<open>Submitting touches no links, and adds to the trace what is sent.\<close>

definition same_links :: "req_node \<Rightarrow> req_node \<Rightarrow> bool" where
  "same_links m n \<longleftrightarrow> n_parent m = n_parent n \<and> n_cb m = n_cb n \<and> n_accel m = n_accel n \<and> n_children m = n_children n \<and>
     n_parent_status m = n_parent_status n"

definition sends :: "nat list \<Rightarrow> io_qpair \<Rightarrow> io_qpair \<Rightarrow> bool" where
  "sends is q q' \<longleftrightarrow> (\<exists>h k m. q' = q\<lparr>nodes := h, n_submits := k, n_ticks := m, trace := trace q @ map Sent is\<rparr> \<and> (\<forall>x. same_links (h x) (nodes q x)))"

lemma same_links_refl [simp]: "same_links n n"
  by (simp add: same_links_def)

lemma linked_same:
  assumes "\<And>x. same_links (h' x) (h x)"
  shows "linked_as par cb t h' = linked_as par cb t h"
  using assms by (induction t arbitrary: par cb) (auto simp: same_links_def)

lemma sends_Nil [simp]: "sends [] q q"
  unfolding sends_def by (intro exI [of _ "nodes q"] exI [of _ "n_submits q"] exI [of _ "n_ticks q"]) simp

lemma sends_trans:
  assumes "sends is q q'" and "sends js q' q''"
  shows "sends (is @ js) q q''"
proof -
  obtain h k m where 1: "q' = q\<lparr>nodes := h, n_submits := k, n_ticks := m, trace := trace q @ map Sent is\<rparr>" "\<And>x. same_links (h x) (nodes q x)"
    using assms(1) unfolding sends_def by blast
  obtain h' k' m' where 2: "q'' = q'\<lparr>nodes := h', n_submits := k', n_ticks := m', trace := trace q' @ map Sent js\<rparr>" "\<And>x. same_links (h' x) (nodes q' x)"
    using assms(2) unfolding sends_def by blast
  have "q'' = q\<lparr>nodes := h', n_submits := k', n_ticks := m', trace := trace q @ map Sent (is @ js)\<rparr>" using 1(1) 2(1) by simp
  moreover have "\<forall>x. same_links (h' x) (nodes q x)" using 1 2(2) by (simp add: same_links_def)
  ultimately show ?thesis unfolding sends_def by blast
qed

text \<open>The queue pair is enabled, nothing is queued and no error is injected.\<close>

definition idle :: "io_qpair \<Rightarrow> bool" where
  "idle q \<longleftrightarrow> qp_state q = ENABLED \<and> transport_failure_reason q = FAILURE_NONE \<and> \<not> ctrlr_is_failed q \<and> queued_req q = [] \<and> err_cmd_head q = []"

lemma sends_keeps:
  assumes "sends is q q'"
  shows "idle q' = idle q" "linked_as par cb t (nodes q') = linked_as par cb t (nodes q)" "ready js q' = ready js q"
    "trace q' = trace q @ map Sent is" "free_list q' = free_list q" "outstanding q' = outstanding q"
proof -
  obtain h k m where 1: "q' = q\<lparr>nodes := h, n_submits := k, n_ticks := m, trace := trace q @ map Sent is\<rparr>" "\<And>x. same_links (h x) (nodes q x)"
    using assms unfolding sends_def by blast
  show "linked_as par cb t (nodes q') = linked_as par cb t (nodes q)" using linked_same [OF 1(2)] 1(1) by simp
  show "idle q' = idle q" "ready js q' = ready js q" "trace q' = trace q @ map Sent is" "free_list q' = free_list q" "outstanding q' = outstanding q"
    using 1(1) by (simp_all add: idle_def ready_def)
qed

lemma check_enabled_idle: "idle q \<Longrightarrow> nvme_qpair_check_enabled e q = Some (True, q)"
  by (simp add: nvme_qpair_check_enabled_def check_failure_def idle_def)

lemma stamp_links: "\<exists>h m. stamp e i q = q\<lparr>nodes := h, n_ticks := m\<rparr> \<and> (\<forall>x. same_links (h x) (nodes q x)) \<and> (\<forall>x. n_opc (h x) = n_opc (nodes q x) \<and> n_queued (h x) = n_queued (nodes q x))"
  by (auto simp: stamp_def on_node_def qp_ticks_def same_links_def intro!: exI [of _ "nodes (stamp e i q)"] exI [of _ "n_ticks (stamp e i q)"] split: if_splits)

lemma submit_leaf_sends:
  assumes "idle q" and "e_submit e (n_submits q) = 0"
  shows "\<exists>q'. submit_leaf e i q = Some (0, q') \<and> sends [i] q q' \<and> n_submits q' = Suc (n_submits q) \<and>
    (\<forall>x. x \<noteq> i \<longrightarrow> n_queued (nodes q' x) = n_queued (nodes q x))"
proof -
  obtain h m where st: "stamp e i q = q\<lparr>nodes := h, n_ticks := m\<rparr>" and h: "\<forall>x. same_links (h x) (nodes q x)"
      and qu: "\<forall>x. n_queued (h x) = n_queued (nodes q x)"
    using stamp_links [of e i q] by blast
  let ?h = "h(i := (h i)\<lparr>n_queued := False\<rparr>)"
  let ?q = "q\<lparr>nodes := ?h, n_submits := Suc (n_submits q), n_ticks := m, trace := trace q @ map Sent [i]\<rparr>"
  have "submit_leaf e i q = Some (0, ?q)"
    using assms by (simp add: submit_leaf_def st transport_submit_def on_node_def idle_def)
  moreover have "\<forall>x. same_links (?h x) (nodes q x)" using h by (simp add: same_links_def)
  then have "sends [i] q ?q" unfolding sends_def by blast
  moreover have "\<forall>x. x \<noteq> i \<longrightarrow> n_queued (nodes ?q x) = n_queued (nodes q x)" using qu by simp
  moreover have "n_submits ?q = Suc (n_submits q)" by simp
  ultimately show ?thesis by blast
qed

fun pdepth :: "ptree \<Rightarrow> nat" where
  "pdepth (PNode i s ts) = Suc (foldr max (map pdepth ts) 0)"

lemma foldr_max_le: "foldr max ns 0 \<le> k \<longleftrightarrow> (\<forall>n \<in> set ns. n \<le> (k :: nat))"
  by (induction ns) auto

text \<open>All children are accepted in turn.\<close>

lemma children_sent:
  assumes "\<And>t q. t \<in> set ts \<Longrightarrow> idle q \<Longrightarrow> linked_as (Some i) Complete_child t (nodes q) \<Longrightarrow>
      \<exists>q'. f (p_id t) q = Some (0, q') \<and> sends (pleaves t) q q'"
    and "idle q" and "\<forall>t \<in> set ts. linked_as (Some i) Complete_child t (nodes q)"
  shows "\<exists>q'. foldM (submit_child f i) (map p_id ts) (0, False, q) = Some (0, False, q') \<and> sends (concat (map pleaves ts)) q q'"
  using assms
proof (induction ts arbitrary: q)
  case Nil
  then show ?case by simp
next
  case (Cons t ts)
  obtain q1 where q1: "f (p_id t) q = Some (0, q1)" "sends (pleaves t) q q1" using Cons.prems by (meson list.set_intros(1))
  have i1: "idle q1" and l1: "\<forall>u \<in> set ts. linked_as (Some i) Complete_child u (nodes q1)"
    using Cons.prems(2,3) sends_keeps(1,2) [OF q1(2)] by simp_all
  have "submit_child f i (p_id t) (0, False, q) = Some (0, False, q1)"
    using q1(1) Cons.prems(2) by (simp add: submit_child_def submit_or_queue_def idle_def)
  moreover obtain q2 where "foldM (submit_child f i) (map p_id ts) (0, False, q1) = Some (0, False, q2)" "sends (concat (map pleaves ts)) q1 q2"
    using Cons.IH [OF Cons.prems(1) i1 l1] by (meson list.set_intros(2))
  ultimately show ?case using sends_trans [OF q1(2)] by auto
qed

lemma submit_tree:
  assumes "\<forall>k. e_submit e k = 0" and "idle q" and "linked_as par cb t (nodes q)" and "pdepth t \<le> k"
  shows "\<exists>q'. qpair_submit k (nvme_qpair_check_enabled e) e (p_id t) q = Some (0, q') \<and> sends (pleaves t) q q'"
  using assms(2-4)
proof (induction k arbitrary: t par cb q)
  case 0
  then show ?case by (cases t) simp
next
  case (Suc k)
  obtain i s ts where t: "t = PNode i s ts" by (cases t)
  note chk = check_enabled_idle [OF Suc.prems(1)] and live = Suc.prems(1) [unfolded idle_def]
  show ?case
  proof (cases "ts = []")
    case True
    then show ?thesis using submit_leaf_sends [of q e i] Suc.prems(1,2) assms(1) t chk live by auto
  next
    case False
    have "\<exists>q'. foldM (submit_child (qpair_submit k (nvme_qpair_check_enabled e) e) i) (map p_id ts) (0, False, q) = Some (0, False, q') \<and>
        sends (concat (map pleaves ts)) q q'"
    proof (rule children_sent)
      fix u q assume "u \<in> set ts" "idle q" "linked_as (Some i) Complete_child u (nodes q)"
      then show "\<exists>q'. qpair_submit k (nvme_qpair_check_enabled e) e (p_id u) q = Some (0, q') \<and> sends (pleaves u) q q'"
        using Suc.IH Suc.prems(3) t by (simp add: foldr_max_le)
    qed (use Suc.prems(1,2) t in simp_all)
    then show ?thesis using False Suc.prems(2) t chk live by auto
  qed
qed

section \<open>A request is answered once\<close>

text \<open>A request as it is built, before anything has completed, and the requests of it that are sent.\<close>

fun plain :: "nvme_request \<Rightarrow> ptree" where
  "plain (Request i r cs) = PNode i status_ok (map plain cs)"

definition leaf_ids :: "nvme_request \<Rightarrow> nat list" where
  "leaf_ids t = pleaves (plain t)"

lemma p_id_plain [simp]: "p_id (plain t) = rq_id t"
  by (cases t) simp

lemma pids_plain: "pids (plain t) = tree_ids t"
  by (induction t) (simp add: comp_def cong: map_cong)

lemma not_bad_plain: "\<not> bad (plain t)"
  by (induction t) (auto simp: status_is_error_def status_ok_def)

lemma submit_request_idle:
  "idle q \<Longrightarrow> qpair_submit k (nvme_qpair_check_enabled e) e i q = Some (0, q') \<Longrightarrow> nvme_qpair_submit_request k e i q = Some (0, q')"
  by (simp add: nvme_qpair_submit_request_def submit_or_queue_def idle_def)

lemma submit_idle:
  assumes "\<forall>k. e_submit e k = 0" and "idle q" and "linked_as par cb (plain t) (nodes q)" and "pdepth (plain t) \<le> k"
  shows "\<exists>q'. nvme_qpair_submit_request k e (rq_id t) q = Some (0, q') \<and> sends (leaf_ids t) q q'"
proof -
  obtain q' where "qpair_submit k (nvme_qpair_check_enabled e) e (rq_id t) q = Some (0, q')" "sends (leaf_ids t) q q'"
    using submit_tree [OF assms] by (auto simp: leaf_ids_def)
  then show ?thesis using submit_request_idle [OF assms(2)] by blast
qed

text \<open>
  C6. A request, split or not, is submitted to a transport that accepts it: exactly its leaves are
  sent, in order. However their completions are then interleaved, the caller's callback runs exactly once,
  after the last of them, with an error if and only if one of them failed, and every request is back in the pool.
\<close>

theorem request_answered_once:
  assumes "\<forall>k. e_submit e k = 0" and "idle q" and "linked_as None (User_cb arg) (plain t) (nodes q)" and "pdepth (plain t) \<le> k"
    and "distinct (tree_ids t)" and "ready (tree_ids t) q" and "mset (map fst cpls) = mset (leaf_ids t)"
  shows "\<exists>q1 q2 st. nvme_qpair_submit_request k e (rq_id t) q = Some (0, q1) \<and>
    foldM (\<lambda>(i, st). nvme_complete_request i st) cpls q1 = Some q2 \<and>
    trace q2 = trace q @ map Sent (leaf_ids t) @ [Callback arg st] \<and> (status_is_error st \<longleftrightarrow> (\<exists>x \<in> set cpls. status_is_error (snd x))) \<and>
    mset (free_list q2) = mset (free_list q) + mset (tree_ids t) \<and> outstanding q2 = outstanding q - length (tree_ids t)"
proof -
  obtain q1 where q1: "nvme_qpair_submit_request k e (rq_id t) q = Some (0, q1)" "sends (leaf_ids t) q q1"
    using submit_idle [OF assms(1-4)] by blast
  note s = sends_keeps [OF q1(2)]
  have "linked_as None (User_cb arg) (plain t) (nodes q1)" "ready (pids (plain t)) q1" using assms(3,6) s(2,3) by (simp_all add: pids_plain)
  note complete_all [OF this(1) _ this(2), of cpls]
  then obtain q2 st where "foldM (\<lambda>(i, st). nvme_complete_request i st) cpls q1 = Some q2" "trace q2 = trace q1 @ [Callback arg st]"
      "mset (free_list q2) = mset (free_list q1) + mset (tree_ids t)" "outstanding q2 = outstanding q1 - length (tree_ids t)"
      "status_is_error st \<longleftrightarrow> (\<exists>x \<in> set cpls. status_is_error (snd x))"
    using assms(5,7) not_bad_plain [of t] unfolding pids_plain leaf_ids_def by blast
  then show ?thesis using q1(1) s(4-6) by auto
qed

text \<open>A request with number 1 that was split into the requests 2 and 3.\<close>

definition demo_info :: request_info where
  "demo_info = \<lparr>r_cmd = zero_cmd, r_io_id = 0, r_ns_id = 0, r_payload = PAYLOAD_CONTIG 0 0, r_payload_offset = 0, r_md_offset = 0,
     r_payload_size = 0, r_md_size = 0, r_cb = User_cb 5, r_accel = False\<rparr>"

definition demo_tree :: nvme_request where
  "demo_tree = Request 1 demo_info [Request 2 demo_info [], Request 3 demo_info []]"

definition demo_heap :: "nat \<Rightarrow> req_node" where
  "demo_heap i = (if i = 1 then zero_node\<lparr>n_cb := User_cb 5, n_children := [2, 3]\<rparr>
     else zero_node\<lparr>n_opc := NVM_WRITE, n_cb := Complete_child, n_parent := Some 1\<rparr>)"

definition demo_io :: io_qpair where
  "demo_io = \<lparr>nodes = demo_heap, free_list = [4], outstanding = 3, reserved_req = 0, queued_req = [], aborting_queued_req = [],
     err_cmd_head = [], err_req_head = [], qp_state = ENABLED, is_new_qpair = False, abort_dnr = False, transport_failure_reason = FAILURE_NONE,
     ctrlr_is_failed = False, ctrlr_is_removed = False, ctrlr_is_resetting = False, timeout_enabled = False, is_pcie = False, is_admin = False, register_operations = [],
     n_submits = 0, n_ticks = 0, trace = []\<rparr>"

definition demo_transport :: "(nat \<Rightarrow> int) \<Rightarrow> qp_env" where
  "demo_transport f = \<lparr>e_submit = f, e_abort_reqs = (\<lambda>_. []), e_poll = (\<lambda>_. (0, [], False)), e_ticks = (\<lambda>_. 0), e_disconnect = Some, e_reinitialize = Some,
     e_pid = 0, e_ctrlr_fail = Some, e_free_io_qpair = Some\<rparr>"

lemma demo_io_ok: "idle demo_io" "linked_as None (User_cb 5) (plain demo_tree) (nodes demo_io)" "ready (tree_ids demo_tree) demo_io"
    "distinct (tree_ids demo_tree)" "pdepth (plain demo_tree) \<le> 2" "leaf_ids demo_tree = [2, 3]"
  by (simp_all add: idle_def demo_io_def demo_tree_def demo_heap_def zero_node_def ready_def leaf_ids_def)

theorem request_answered_once_witness:
  "\<exists>q1 q2 st. nvme_qpair_submit_request 2 (demo_transport (\<lambda>_. 0)) 1 demo_io = Some (0, q1) \<and>
    foldM (\<lambda>(i, st). nvme_complete_request i st) [(3, status_ok), (2, status_ok\<lparr>st_sc := 6\<rparr>)] q1 = Some q2 \<and>
    trace q2 = [Sent 2, Sent 3, Callback 5 st] \<and> status_is_error st"
proof -
  have "mset (map fst [(3 :: nat, status_ok), (2, status_ok\<lparr>st_sc := 6\<rparr>)]) = mset (leaf_ids demo_tree)" by (simp add: demo_io_ok)
  note request_answered_once [OF _ demo_io_ok(1,2,5,4,3) this, of "demo_transport (\<lambda>_. 0)", unfolded demo_io_ok(6)]
  moreover have "rq_id demo_tree = 1" "trace demo_io = []" by (simp_all add: demo_tree_def demo_io_def)
  ultimately show ?thesis by (auto simp: demo_transport_def status_is_error_def)
qed

section \<open>Refused requests\<close>

lemma submit_leaf_refused:
  assumes "idle q" and "e_submit e (n_submits q) = rc" and "rc \<noteq> 0" and "rc \<noteq> - EAGAIN"
  shows "\<exists>h m. submit_leaf e i q = submit_error rc i (q\<lparr>nodes := h, n_ticks := m, n_submits := Suc (n_submits q)\<rparr>) \<and>
    (\<forall>x. same_links (h x) (nodes q x) \<and> n_queued (h x) = n_queued (nodes q x))"
proof -
  obtain h m where st: "stamp e i q = q\<lparr>nodes := h, n_ticks := m\<rparr>" and h: "\<forall>x. same_links (h x) (nodes q x) \<and> n_queued (h x) = n_queued (nodes q x)"
    using stamp_links [of e i q] by blast
  then have "submit_leaf e i q = submit_error rc i (q\<lparr>nodes := h, n_ticks := m, n_submits := Suc (n_submits q)\<rparr>)"
    using assms by (simp add: submit_leaf_def transport_submit_def idle_def)
  then show ?thesis using h by blast
qed

lemma kid_refused:
  assumes "idle q" and "e_submit e (n_submits q) = rc" and "rc \<noteq> 0" and "rc \<noteq> - EAGAIN" and "linked_as par cb (PNode p s [PNode a sa [], PNode b sb []]) (nodes q)"
    and "distinct [p, a, b]" and "\<not> n_queued (nodes q b)" and "ready [p, a, b] q"
  shows "\<exists>q'. submit_leaf e b q = Some (rc, q') \<and> linked_as par cb (PNode p s [PNode a sa []]) (nodes q') \<and> ready [p, a] q' \<and> trace q' = trace q"
proof -
  obtain h m where sl: "submit_leaf e b q = submit_error rc b (q\<lparr>nodes := h, n_ticks := m, n_submits := Suc (n_submits q)\<rparr>)"
      and h: "\<And>x. same_links (h x) (nodes q x)" and nq: "\<not> n_queued (h b)"
    using submit_leaf_refused [OF assms(1-4), of b] assms(7) by auto
  let ?h = "h(b := (h b)\<lparr>n_parent := None\<rparr>, p := (h p)\<lparr>n_children := [a]\<rparr>)"
  let ?q = "q\<lparr>nodes := ?h, n_ticks := m, n_submits := Suc (n_submits q), free_list := b # free_list q, outstanding := outstanding q - 1\<rparr>"
  have lh: "linked_as par cb (PNode p s [PNode a sa [], PNode b sb []]) h" using assms(5) linked_same [of h "nodes q", OF h] by (simp only:)
  then have "submit_leaf e b q = Some (rc, ?q)" unfolding sl using assms(6,8) nq
    by (auto simp: submit_error_def nvme_request_remove_child_def on_node_def free_node_def ready_def)
  moreover have "linked_as par cb (PNode p s [PNode a sa []]) (nodes ?q)" using lh assms(6) by auto
  moreover have "ready [p, a] ?q" using assms(8) by (auto simp: ready_def)
  ultimately show ?thesis by (intro exI [of _ ?q]) simp
qed

text \<open>
  C7. When the transport accepts the first child of a request that was split in two and refuses the second,
  the call still reports success. Once the first child has completed, the caller is told that the
  whole request succeeded, although the second half was never sent: the failure is noted in a field of the
  parent that nobody reads.
\<close>

theorem half_sent_reports_success:
  assumes "idle q" and "linked_as None (User_cb arg) (PNode p status_ok [PNode a sa [], PNode b sb []]) (nodes q)"
    and "distinct [p, a, b]" and "ready [p, a, b] q" and "\<not> n_queued (nodes q b)"
    and "e_submit e (n_submits q) = 0" and "e_submit e (Suc (n_submits q)) \<noteq> 0" and "e_submit e (Suc (n_submits q)) \<noteq> - EAGAIN"
  shows "\<exists>q1 q2. nvme_qpair_submit_request 2 e p q = Some (0, q1) \<and> nvme_complete_request a status_ok q1 = Some q2 \<and>
    trace q2 = trace q @ [Sent a, Callback arg status_ok]"
proof -
  let ?chk = "nvme_qpair_check_enabled e" and ?rc = "e_submit e (Suc (n_submits q))"
  obtain qa where qa: "submit_leaf e a q = Some (0, qa)" "sends [a] q qa" "n_submits qa = Suc (n_submits q)" "\<not> n_queued (nodes qa b)"
    using submit_leaf_sends [OF assms(1,6), of a] assms(3,5) by auto
  note s = sends_keeps [OF qa(2)]
  have ia: "idle qa" using s(1) assms(1) by simp
  have la: "linked_as None (User_cb arg) (PNode p status_ok [PNode a sa [], PNode b sb []]) (nodes qa)" using assms(2) s(2) by blast
  obtain qb where qb: "submit_leaf e b qa = Some (?rc, qb)" "linked_as None (User_cb arg) (PNode p status_ok [PNode a sa []]) (nodes qb)"
      "ready [p, a] qb" "trace qb = trace qa"
    using kid_refused [OF ia _ assms(7,8) la assms(3) qa(4)] qa(3) assms(4) s(3) by auto
  let ?q = "on_node p (\<lambda>n. n\<lparr>n_cpl := (n_cpl n)\<lparr>st_sct := 0, st_sc := SC_INTERNAL_DEVICE_ERROR\<rparr>\<rparr>) qb"
  have leaf: "qpair_submit 1 ?chk e i r = submit_leaf e i r" if "idle r" "n_children (nodes r i) = []" for i r
    using that check_enabled_idle [of r e] by (simp add: idle_def)
  have fold: "foldM (submit_child (qpair_submit 1 ?chk e) p) [a, b] (0, False, q) = Some (?rc, True, qb)"
    using leaf [OF assms(1), of a] leaf [OF ia, of b] assms(1,2,7,8) la ia qa(1) qb(1)
    by (simp add: submit_child_def submit_or_queue_def idle_def del: qpair_submit.simps)
  have ch: "n_children (nodes qb p) = [a]" "n_children (nodes q p) = [a, b]" and en: "qp_state q = ENABLED"
    using qb(2) assms(1,2) by (simp_all add: idle_def)
  have "qpair_submit (Suc 1) ?chk e p q = Some (0, ?q)" unfolding qpair_submit.simps(2) check_enabled_idle [OF assms(1)]
    by (simp add: fold ch en del: foldM.simps qpair_submit.simps One_nat_def)
  then have sub: "nvme_qpair_submit_request 2 e p q = Some (0, ?q)" unfolding Suc_1 [symmetric] by (rule submit_request_idle [OF assms(1)])
  have "linked_as None (User_cb arg) (PNode p status_ok [PNode a sa []]) (nodes ?q)" using qb(2) assms(3) by (auto simp: on_node_def)
  moreover have "ready (pids (PNode p status_ok [PNode a sa []])) ?q" using qb(3) by (simp add: ready_def on_node_def)
  moreover have "finish a status_ok (PNode p status_ok [PNode a sa []]) = Inl status_ok"
    by (simp add: kid_status_def status_is_error_def status_ok_def)
  ultimately have "\<exists>q'. nvme_complete_request a status_ok ?q = Some q' \<and> trace q' = trace ?q @ [Callback arg status_ok]"
    using complete_root [of arg "PNode p status_ok [PNode a sa []]" ?q a status_ok status_ok] assms(3) by auto
  moreover have "trace ?q = trace q @ [Sent a]" using qb(4) s(4) by (simp add: on_node_def)
  ultimately show ?thesis using sub by auto
qed

theorem half_sent_reports_success_witness:
  "\<exists>q1 q2. nvme_qpair_submit_request 2 (demo_transport (\<lambda>k. if k = 0 then 0 else - ENXIO)) 1 demo_io = Some (0, q1) \<and>
    nvme_complete_request 2 status_ok q1 = Some q2 \<and> trace q2 = [Sent 2, Callback 5 status_ok]"
  using half_sent_reports_success [of demo_io 5 1 2 status_ok 3 status_ok "demo_transport (\<lambda>k. if k = 0 then 0 else - ENXIO)"]
  by (simp add: idle_def demo_io_def demo_heap_def zero_node_def ready_def demo_transport_def)

text \<open>A child without a parent cannot complete.\<close>

lemma before_complete_links:
  "before_complete i st q = Some (st', q') \<Longrightarrow> n_cb (nodes q' i) = n_cb (nodes q i) \<and> n_parent (nodes q' i) = n_parent (nodes q i)"
  by (auto simp: before_complete_def free_node_def on_node_def Let_def split: if_splits prod.splits)

lemma complete_orphan:
  assumes "n_cb (nodes q i) = Complete_child" and "n_parent (nodes q i) = None"
  shows "nvme_complete_request i st q = None"
proof (cases "before_complete i st q")
  case None
  then show ?thesis by (subst nvme_complete_request.simps) simp
next
  case (Some r)
  then show ?thesis using assms before_complete_links [of i st q "fst r" "snd r"]
    by (subst nvme_complete_request.simps) (simp add: case_prod_beta)
qed

text \<open>
  C8. A child that waited in the queue and is then refused by the transport is unlinked from its parent
  before its callback runs, and the callback starts by following the link to the parent: the driver
  dereferences NULL.
\<close>

theorem refused_queued_child_follows_null:
  assumes "qp_state q = ENABLED" and "transport_failure_reason q = FAILURE_NONE" and "\<not> ctrlr_is_failed q" and "err_cmd_head q = []"
    and "e_submit e (n_submits q) \<noteq> 0" and "e_submit e (n_submits q) \<noteq> - EAGAIN"
    and "n_queued (nodes q c)" and "childless (Some p) Complete_child c (nodes q)" and "c \<in> set (n_children (nodes q p))" and "c \<noteq> p"
  shows "nvme_qpair_resubmit_request e c q = None"
proof -
  let ?rc = "e_submit e (n_submits q)"
  obtain h m where st: "stamp e c q = q\<lparr>nodes := h, n_ticks := m\<rparr>" and h: "\<forall>x. same_links (h x) (nodes q x)" "n_queued (h c)"
    using stamp_links [of e c q] assms(7) by blast
  have "submit_leaf e c q = submit_error ?rc c (q\<lparr>nodes := h, n_ticks := m, n_submits := Suc (n_submits q)\<rparr>)"
    using assms(1,3,4,5,6) st by (simp add: submit_leaf_def transport_submit_def)
  also have "\<dots> = None"
    using assms(8,9,10) h
    by (simp add: submit_error_def nvme_request_remove_child_def on_node_def manual_complete_def childless_def same_links_def complete_orphan)
  finally show ?thesis using assms(1,2,8)
    by (simp add: nvme_qpair_resubmit_request_def check_failure_def childless_def)
qed

theorem refused_queued_child_follows_null_witness:
  "nvme_qpair_resubmit_request (demo_transport (\<lambda>_. - ENXIO)) 3 (on_node 3 (\<lambda>n. n\<lparr>n_queued := True\<rparr>) demo_io) = None"
  by (rule refused_queued_child_follows_null [where p = 1])
    (simp_all add: on_node_def demo_io_def demo_heap_def zero_node_def demo_transport_def childless_def)

section \<open>Submitting to a dead queue pair\<close>

lemma linked_orphan:
  assumes "linked_as (Some j) cb c h" and "distinct (pids c)" and "h' (p_id c) = (h (p_id c))\<lparr>n_parent := None\<rparr>"
    and "\<And>x. x \<in> set (pids c) \<Longrightarrow> x \<noteq> p_id c \<Longrightarrow> h' x = h x"
  shows "linked_as None cb c h'"
proof (cases c)
  case (PNode i s ts)
  have "linked_as (Some i) Complete_child t h'" if "t \<in> set ts" for t
  proof -
    have "i \<notin> set (pids t)" and "set (pids t) \<subseteq> set (pids c)" using assms(2) that PNode by auto
    then have "\<forall>x \<in> set (pids t). h' x = h x" using assms(4) PNode by auto
    then show ?thesis using linked_frame [of t h' h] assms(1) that PNode by simp
  qed
  then show ?thesis using assms(1,3) PNode by simp
qed

definition freed :: "nat option \<Rightarrow> request_cb \<Rightarrow> ptree \<Rightarrow> io_qpair \<Rightarrow> io_qpair option \<Rightarrow> bool" where
  "freed par cb t q r \<longleftrightarrow> (\<exists>q' gone. r = Some q' \<and> childless par cb (p_id t) (nodes q') \<and> settles (set (pids t)) gone q q' \<and>
     mset (pids t) = add_mset (p_id t) gone \<and> n_queued (nodes q' (p_id t)) = n_queued (nodes q (p_id t)))"

text \<open>Unlinking and freeing the first child.\<close>

lemma free_first:
  assumes l: "linked_as par cb (PNode j s (c # cs)) (nodes q)" and dd: "distinct (pids (PNode j s (c # cs)))" and r: "ready (pids (PNode j s (c # cs))) q"
    and IH: "\<And>q. linked_as None Complete_child c (nodes q) \<Longrightarrow> ready (pids c) q \<Longrightarrow> freed None Complete_child c q (free_children (p_id c) q)"
  obtains q' where "free_children j q = free_children j q'" and "linked_as par cb (PNode j s cs) (nodes q')"
    and "settles (insert j (set (pids c))) (mset (pids c)) q q'" and "n_queued (nodes q' j) = n_queued (nodes q j)"
proof -
  let ?q = "on_node j (\<lambda>n. n\<lparr>n_children := map p_id cs\<rparr>) (on_node (p_id c) (\<lambda>n. n\<lparr>n_parent := None\<rparr>) q)"
  have d: "distinct (pids (PNode j s ([] @ c # cs)))" and l': "linked_as par cb (PNode j s ([] @ c # cs)) (nodes q)" using dd l by simp_all
  note dc = distinct_child [OF d]
  have lc: "linked_as (Some j) Complete_child c (nodes q)" using l by simp
  have rem: "nvme_request_remove_child j (p_id c) q = Some ?q"
    using l dc(3) lc by (cases c) (auto simp: nvme_request_remove_child_def on_node_def)
  have s1: "settles {j, p_id c} {#} q ?q"
    by (intro settles_intro [where h = "nodes ?q" and fl = "free_list q"]) (simp_all add: on_node_def)
  have "linked_as None Complete_child c (nodes ?q)"
    by (rule linked_orphan [OF lc dc(1)]) (use dc(3,4) in \<open>auto simp: on_node_def\<close>)
  moreover have "ready (pids c) ?q" using r by (auto simp: ready_def on_node_def)
  ultimately obtain q1 g where q1: "free_children (p_id c) ?q = Some q1" "childless None Complete_child (p_id c) (nodes q1)"
      "settles (set (pids c)) g ?q q1" "mset (pids c) = add_mset (p_id c) g"
    using IH unfolding freed_def by blast
  let ?q2 = "q1\<lparr>free_list := p_id c # free_list q1, outstanding := outstanding q1 - 1\<rparr>"
  have len: "length (pids c) = Suc (size g)" using q1(4) by (metis size_add_mset size_mset)
  note k = settles_keeps [OF q1(3)]
  have pos: "0 < outstanding q1" using r k(4) len by (simp add: ready_def on_node_def)
  have "p_id c \<noteq> reserved_req q1" using r k(1) p_id_pids [of c] by (auto simp: ready_def on_node_def)
  then have fn: "free_node (p_id c) q1 = Some ?q2" using pos q1(2) by (simp add: free_node_def childless_def)
  have s2: "settles {p_id c} {#p_id c#} q1 ?q2" using pos
    by (intro settles_intro [where h = "nodes q1" and fl = "p_id c # free_list q1"]) simp_all
  have "settles (insert j (set (pids c))) ({#} + g) q q1" by (rule settles_trans [OF s1 q1(3)]) (use p_id_pids [of c] in auto)
  then have "settles (insert j (set (pids c))) (({#} + g) + {#p_id c#}) q ?q2" by (rule settles_trans [OF _ s2]) (use p_id_pids [of c] in auto)
  then have st: "settles (insert j (set (pids c))) (mset (pids c)) q ?q2" using q1(4) by simp
  have nj: "nodes ?q2 j = (nodes q j)\<lparr>n_children := map p_id cs\<rparr>" using k(6) [of j] dc(3,4) by (simp add: on_node_def)
  have "\<forall>u \<in> set cs. linked_as (Some j) Complete_child u (nodes ?q2)" using siblings_linked [OF l' d st] by simp
  then have "linked_as par cb (PNode j s cs) (nodes ?q2)" using l nj by simp
  moreover have "free_children j q = free_children j ?q2"
    using l rem q1(1) fn by (subst free_children.simps) simp
  moreover have "n_queued (nodes ?q2 j) = n_queued (nodes q j)" unfolding nj by simp
  ultimately show thesis using that st by blast
qed

lemma free_tree:
  assumes "linked_as par cb t (nodes q)" and "distinct (pids t)" and "ready (pids t) q"
  shows "freed par cb t q (free_children (p_id t) q)"
  using assms
proof (induction t arbitrary: par cb q)
  case (PNode j s ts)
  from PNode show ?case
  proof (induction ts arbitrary: q)
    case Nil
    then show ?case using linked_childless [of par cb j s "nodes q"]
      by (subst free_children.simps) (auto simp: freed_def intro!: exI [of _ q] exI [of _ "{#}"])
  next
    case (Cons c cs)
    have d: "distinct (pids (PNode j s ([] @ c # cs)))" using Cons.prems(3) by simp
    have "freed None Complete_child c q (free_children (p_id c) q)" if "linked_as None Complete_child c (nodes q)" "ready (pids c) q" for q
      using Cons.prems(1) [of c, OF _ that(1) distinct_child(1) [OF d] that(2)] by simp
    then obtain q' where q': "free_children j q = free_children j q'" "linked_as par cb (PNode j s cs) (nodes q')"
        "settles (insert j (set (pids c))) (mset (pids c)) q q'" "n_queued (nodes q' j) = n_queued (nodes q j)"
      using free_first [OF Cons.prems(2-4)] by blast
    have dj: "distinct (pids (PNode j s cs))" using distinct_child(2) [OF d, of s] by simp
    have rj: "ready (pids (PNode j s cs)) q'" using Cons.prems(4) settles_keeps(1,2,4) [OF q'(3)] by (auto simp: ready_def)
    have "freed par cb (PNode j s cs) q' (free_children j q')" using Cons.IH [OF _ q'(2) dj rj] Cons.prems(1) by simp
    then obtain q2 g where q2: "free_children j q' = Some q2" "childless par cb j (nodes q2)" "settles (set (pids (PNode j s cs))) g q' q2"
        "mset (pids (PNode j s cs)) = add_mset j g" "n_queued (nodes q2 j) = n_queued (nodes q' j)"
      by (auto simp: freed_def)
    have "settles (set (pids (PNode j s (c # cs)))) (mset (pids c) + g) q q2" by (rule settles_trans [OF q'(3) q2(3)]) auto
    moreover have "mset (pids (PNode j s (c # cs))) = add_mset j (mset (pids c) + g)" using q2(4) by simp
    ultimately show ?case unfolding freed_def using q'(1,4) q2(1,2,5) by auto
  qed
qed

text \<open>
  C9. A request submitted to a queue pair that is being disconnected or destroyed is refused with \<open>-ENXIO\<close>. Nothing
  is sent, no callback runs, and the request and all its children are back in the pool.
\<close>

theorem dead_pair_returns_requests:
  assumes "qp_state q \<in> {DISCONNECTED, DISCONNECTING, DESTROYING}" and "queued_req q = []" and "\<not> n_queued (nodes q (rq_id t))"
    and "linked_as None (User_cb arg) (plain t) (nodes q)" and "distinct (tree_ids t)" and "ready (tree_ids t) q"
  shows "\<exists>q'. nvme_qpair_submit_request (Suc k) e (rq_id t) q = Some (- ENXIO, q') \<and> trace q' = trace q \<and>
    mset (free_list q') = mset (free_list q) + mset (tree_ids t) \<and> outstanding q' = outstanding q - length (tree_ids t)"
proof -
  obtain q1 g where q1: "free_children (rq_id t) q = Some q1" "childless None (User_cb arg) (rq_id t) (nodes q1)" "settles (set (tree_ids t)) g q q1"
      "mset (tree_ids t) = add_mset (rq_id t) g" "\<not> n_queued (nodes q1 (rq_id t))"
    using free_tree [OF assms(4), unfolded pids_plain, OF assms(5,6)] assms(3) by (auto simp: freed_def pids_plain)
  let ?q = "q1\<lparr>free_list := rq_id t # free_list q1, outstanding := outstanding q1 - 1\<rparr>"
  note k = settles_keeps [OF q1(3)]
  have len: "length (tree_ids t) = Suc (size g)" using q1(4) by (metis size_add_mset size_mset)
  have "rq_id t \<noteq> reserved_req q1" "0 < outstanding q1"
    using assms(6) k(1,4) len p_id_pids [of "plain t"] by (auto simp: ready_def pids_plain)
  then have err: "submit_error (- ENXIO) (rq_id t) q1 = Some (- ENXIO, ?q)" using q1(2,5) by (simp add: submit_error_def free_node_def childless_def)
  have dead: "qp_state q \<noteq> ENABLED" "qp_state q \<noteq> CONNECTED" using assms(1) by auto
  have "nvme_qpair_check_enabled e q = Some (False, q)" using dead by (simp add: nvme_qpair_check_enabled_def check_failure_def)
  then have "qpair_submit (Suc k) (nvme_qpair_check_enabled e) e (rq_id t) q = Some (- ENXIO, ?q)"
    unfolding qpair_submit.simps(2) by (simp only: bind.simps case_prod_conv if_P [OF assms(1)] q1(1) err)
  then have "nvme_qpair_submit_request (Suc k) e (rq_id t) q = Some (- ENXIO, ?q)"
    unfolding nvme_qpair_submit_request_def submit_or_queue_def by (simp add: assms(2) del: qpair_submit.simps)
  then show ?thesis using k(3,4,7) q1(4) len by simp
qed

theorem dead_pair_returns_requests_witness:
  "\<exists>q'. nvme_qpair_submit_request 2 (demo_transport (\<lambda>_. 0)) 1 (demo_io\<lparr>qp_state := DISCONNECTED\<rparr>) = Some (- ENXIO, q') \<and> trace q' = [] \<and>
    mset (free_list q') = {#1, 2, 3, 4#}"
  using dead_pair_returns_requests [of "demo_io\<lparr>qp_state := DISCONNECTED\<rparr>" demo_tree 5 1 "demo_transport (\<lambda>_. 0)"] demo_io_ok(2,3,4)
  by (auto simp: demo_io_def demo_tree_def demo_heap_def zero_node_def ready_def numeral_2_eq_2 [symmetric])

end
