(* ===== verification/Nvme_Heap.thy ===== *)
theory Nvme_Heap
  imports Nvme_Io Nvme_Done
begin

text \<open>
  The two views of a request put together: the tree that the construction of a request returns
  (\<open>Nvme_Ns_Cmd\<close>) and the linked nodes of a queue pair that are submitted and completed
  (\<open>Nvme_Qpair\<close>). The theory says which fields of the nodes a construction writes, and shows that
  the tree of a request that was built is then linked in the heap as submission expects it.
\<close>

section \<open>Writing a tree\<close>

text \<open>
  The pool of a queue pair; \<open>stale i\<close> is the namespace number left in request \<open>i\<close> by its last use.
\<close>

definition pool_of :: "(nat \<Rightarrow> u32) \<Rightarrow> bool \<Rightarrow> io_qpair \<Rightarrow> spdk_nvme_qpair" where
  "pool_of stale grouped q = \<lparr>free_req = map (\<lambda>i. (i, stale i)) (free_list q), num_outstanding_reqs = outstanding q,
     in_poll_group = grouped\<rparr>"

text \<open>
  What taking a request from the pool, linking it to its parent and setting it up leave in its
  node. The parent pointer of a request is cleared when it gets its first child and set when it
  becomes a child; a request that is neither keeps the one it had. The status collected for a
  parent is cleared with its first child.
\<close>

definition init_node :: "nat option \<Rightarrow> nvme_request \<Rightarrow> req_node \<Rightarrow> req_node" where
  "init_node par t n = n\<lparr>n_opc := c_opc (r_cmd (rq_info t)), n_cb := r_cb (rq_info t), n_accel := r_accel (rq_info t),
     n_parent := (if par = None \<and> rq_children t = [] then n_parent n else par), n_children := map rq_id (rq_children t),
     n_parent_status := (if rq_children t = [] then n_parent_status n else status_ok),
     n_queued := False, n_timed_out := False, n_submit_tick := 0\<rparr>"

fun store :: "nat option \<Rightarrow> nvme_request \<Rightarrow> (nat \<Rightarrow> req_node) \<Rightarrow> nat \<Rightarrow> req_node" where
  "store par (Request i r cs) h = fold (store (Some i)) cs (h(i := init_node par (Request i r cs) (h i)))"

definition place :: "nvme_request \<Rightarrow> spdk_nvme_qpair \<Rightarrow> io_qpair \<Rightarrow> io_qpair" where
  "place t qp q = q\<lparr>nodes := store None t (nodes q), free_list := map fst (free_req qp), outstanding := num_outstanding_reqs qp\<rparr>"

section \<open>Stored trees are linked\<close>

lemma fold_store_frame:
  assumes "\<And>c h. c \<in> set cs \<Longrightarrow> x \<notin> set (tree_ids c) \<Longrightarrow> f c h x = h x" and "x \<notin> set (concat (map tree_ids cs))"
  shows "fold f cs h x = h x"
  using assms by (induction cs arbitrary: h) auto

lemma store_frame: "x \<notin> set (tree_ids t) \<Longrightarrow> store par t h x = h x"
proof (induction t arbitrary: par h)
  case (Request i r cs)
  have "fold (store (Some i)) cs (h(i := init_node par (Request i r cs) (h i))) x = (h(i := init_node par (Request i r cs) (h i))) x"
    using Request by (intro fold_store_frame) auto
  then show ?case using Request.prems by auto
qed

text \<open>
  The shape of a tree built within \<open>n\<close> levels: the callbacks of all but the top report to the
  parent, and no request carries an accel sequence.
\<close>

fun shaped :: "nat \<Rightarrow> request_cb \<Rightarrow> nvme_request \<Rightarrow> bool" where
  "shaped 0 cb t \<longleftrightarrow> False"
| "shaped (Suc n) cb (Request i r cs) \<longleftrightarrow> r_cb r = cb \<and> \<not> r_accel r \<and> (\<forall>c \<in> set cs. shaped n Complete_child c)"

lemma shaped_depth: "shaped n cb t \<Longrightarrow> pdepth (plain t) \<le> n"
  by (induction n cb t rule: shaped.induct) (auto simp: foldr_max_le)

lemma fold_store_linked:
  assumes "\<And>c h. c \<in> set cs \<Longrightarrow> linked_as (Some i) Complete_child (plain c) (store (Some i) c h)"
    and "distinct (concat (map tree_ids cs))" and "c \<in> set cs"
  shows "linked_as (Some i) Complete_child (plain c) (fold (store (Some i)) cs h)"
  using assms
proof (induction cs arbitrary: h)
  case (Cons d cs)
  show ?case
  proof (cases "c \<in> set cs")
    case True
    then show ?thesis using Cons by simp
  next
    case False
    then have c: "c = d" using Cons.prems(3) by simp
    have "set (tree_ids d) \<inter> set (concat (map tree_ids cs)) = {}" using Cons.prems(2) by auto
    then have "\<forall>x \<in> set (pids (plain d)). fold (store (Some i)) cs (store (Some i) d h) x = store (Some i) d h x"
      unfolding pids_plain by (intro ballI fold_store_frame store_frame) auto
    moreover have "linked_as (Some i) Complete_child (plain d) (store (Some i) d h)" using Cons.prems(1) by simp
    ultimately show ?thesis unfolding c by (simp only: linked_frame fold_simps)
  qed
qed simp

lemma store_linked:
  assumes "shaped n cb t" and "distinct (tree_ids t)" and "par = None \<longrightarrow> n_parent (h (rq_id t)) = None"
  shows "linked_as par cb (plain t) (store par t h)"
  using assms
proof (induction n cb t arbitrary: par h rule: shaped.induct)
  case (2 n cb i r cs)
  let ?h = "h(i := init_node par (Request i r cs) (h i))"
  let ?g = "fold (store (Some i)) cs ?h"
  have d: "distinct (concat (map tree_ids cs))" "i \<notin> set (concat (map tree_ids cs))" using "2.prems"(2) by auto
  have "distinct (tree_ids c)" if "c \<in> set cs" for c
    using d(1) that by (auto simp: distinct_concat_iff)
  then have "linked_as (Some i) Complete_child (plain c) (store (Some i) c h')" if "c \<in> set cs" for c h'
    using "2.IH" [OF that] "2.prems"(1) that by simp
  then have kids: "linked_as (Some i) Complete_child (plain c) ?g" if "c \<in> set cs" for c
    using fold_store_linked [OF _ d(1) that] by blast
  have "?g i = ?h i" using d(2) by (intro fold_store_frame store_frame)
  then have "?g i = init_node par (Request i r cs) (h i)" by simp
  then show ?case using kids "2.prems"(1,3) by (auto simp: init_node_def comp_def)
qed simp

section \<open>Built trees are shaped\<close>

lemma shaped_root: "shaped n cb t \<Longrightarrow> shaped n cb' (on_info (\<lambda>r. r\<lparr>r_cb := cb'\<rparr>) t)"
  by (induction n cb t rule: shaped.induct) simp_all

lemma shaped_setup: "shaped n cb t \<Longrightarrow> setup_request ns A lba cnt t = Some t' \<Longrightarrow> shaped n cb t'"
  by (induction n cb t rule: shaped.induct) (auto simp: setup_request_def split: if_splits)

definition makes_shaped :: "nat \<Rightarrow> make_child \<Rightarrow> bool" where
  "makes_shaped n mk \<longleftrightarrow> (\<forall>po mo lba cnt qp qp' c. mk po mo lba cnt qp = Some (qp', Inr c) \<longrightarrow> (\<exists>cb. shaped n cb c))"

lemma shaped_add_child:
  assumes "add_child_request (mk po mo lba cnt qp) req = Some (qp', Inr t)" and "makes_shaped n mk" and "shaped (Suc n) cb req"
  shows "shaped (Suc n) cb t"
proof -
  obtain qp1 c where m: "mk po mo lba cnt qp = Some (qp1, Inr c)" and t: "nvme_request_add_child req c = Some t"
    using assms(1) by (auto simp: add_child_request_def split: option.splits prod.splits sum.splits)
  obtain cb' where "shaped n cb' c" using assms(2) m unfolding makes_shaped_def by blast
  then have "shaped n Complete_child (on_info (\<lambda>r. r\<lparr>r_cb := Complete_child\<rparr>) c)" by (rule shaped_root)
  then show ?thesis using assms(3) t by (cases req) (auto simp: nvme_request_add_child_def split: if_splits)
qed

lemma shaped_split_loop:
  assumes "split_loop mk sec md_sz mx msk po mo lba rem req qp = Some res"
  shows "makes_shaped n mk \<longrightarrow> shaped (Suc n) cb req \<longrightarrow> (\<forall>t. snd res = Inr t \<longrightarrow> shaped (Suc n) cb t)"
  by (rule split_loop.raw_induct [where P = "\<lambda>mk _ _ _ _ _ _ _ _ req _ res. makes_shaped n mk \<longrightarrow> shaped (Suc n) cb req \<longrightarrow>
      (\<forall>t. snd res = Inr t \<longrightarrow> shaped (Suc n) cb t)", OF _ assms])
    (auto simp: Let_def split: if_splits sum.split_asm, metis shaped_add_child sum.exhaust)

lemma shaped_sge_child:
  assumes "sge_child mk ns accel po mo lba len req qp = Some (qp', Inr t)" and "makes_shaped n mk" and "shaped (Suc n) cb req"
  shows "shaped (Suc n) cb t"
  using assms shaped_add_child [of mk po mo lba "len div extended_lba_size ns" qp req qp' t n cb]
  by (auto simp: sge_child_def split: if_splits)

lemma shaped_prp_loop:
  assumes "prp_loop mk ns accel sges psize w req qp = Some res"
  shows "makes_shaped n mk \<longrightarrow> shaped (Suc n) cb req \<longrightarrow> (\<forall>t. snd (snd res) = Inr t \<longrightarrow> shaped (Suc n) cb t)"
  by (rule prp_loop.raw_induct [where P = "\<lambda>mk _ _ _ _ _ req _ res. makes_shaped n mk \<longrightarrow> shaped (Suc n) cb req \<longrightarrow>
      (\<forall>t. snd (snd res) = Inr t \<longrightarrow> shaped (Suc n) cb t)", OF _ assms])
    (auto simp: Let_def split: if_splits sum.split_asm prod.split_asm, metis shaped_sge_child sum.exhaust)

lemma shaped_sgl_loop:
  assumes "sgl_loop mk ns accel sges psize w req qp = Some res"
  shows "makes_shaped n mk \<longrightarrow> shaped (Suc n) cb req \<longrightarrow> (\<forall>t. snd (snd res) = Inr t \<longrightarrow> shaped (Suc n) cb t)"
  by (rule sgl_loop.raw_induct [where P = "\<lambda>mk _ _ _ _ _ req _ res. makes_shaped n mk \<longrightarrow> shaped (Suc n) cb req \<longrightarrow>
      (\<forall>t. snd (snd res) = Inr t \<longrightarrow> shaped (Suc n) cb t)", OF _ assms])
    (auto simp: Let_def split: if_splits sum.split_asm prod.split_asm, metis shaped_sge_child sum.exhaust)

lemma shaped_finish:
  assumes "finish_sges ns A lba cnt psize r = Some (qp', Inr t)" and "\<And>w qp req. r = Some (w, qp, Inr req) \<Longrightarrow> shaped n cb req"
  shows "shaped n cb t"
  using assms by (auto simp: finish_sges_def intro: shaped_setup split: option.splits prod.splits sum.splits if_splits)

lemma rw_shaped: "ns_cmd_rw n ns A check False po mo lba cnt qp = Some (qp', Inr t) \<Longrightarrow> shaped n (a_cb A) t"
proof (induction n arbitrary: check po mo lba cnt qp qp' t)
  case 0
  then show ?case by simp
next
  case (Suc n)
  have mk: "makes_shaped n (ns_cmd_rw n ns A chk False)" for chk unfolding makes_shaped_def using Suc.IH by blast
  obtain qp1 req0 where al: "nvme_allocate_request qp (a_payload A) (cnt * host_buffer_sector_size ns (a_flags A)) (cnt * md_size ns) (a_cb A) = Some (qp1, req0)"
    using Suc.prems by (auto simp: ns_cmd_rw.simps Let_def split: option.splits)
  define req where "req = on_info (\<lambda>r. r\<lparr>r_payload_offset := po, r_md_offset := mo, r_accel := False\<rparr>) req0"
  have req: "shaped (Suc n) (a_cb A) req"
    using al by (auto simp: nvme_allocate_request_def req_def split: list.splits prod.splits)
  have split: "shaped (Suc n) (a_cb A) t"
    if "split_request (ns_cmd_rw n ns A True False) ns (a_flags A) False mx msk po mo lba cnt req qp1 = Some (qp', Inr t)" for mx msk
    using that req mk shaped_split_loop by (fastforce simp: split_request_def)
  have prp: "shaped (Suc n) (a_cb A) t"
    if "split_request_prp (ns_cmd_rw n ns A False False) ns A False f po mo lba cnt req qp1 = Some (qp', Inr t)" for f
    using that unfolding split_request_prp_def Let_def
    by (rule shaped_finish) (use req mk shaped_prp_loop in fastforce)
  have sgl: "shaped (Suc n) (a_cb A) t"
    if "split_request_sgl (ns_cmd_rw n ns A False False) ns A False f po mo lba cnt req qp1 = Some (qp', Inr t)" for f
    using that unfolding split_request_sgl_def Let_def
    by (rule shaped_finish) (use req mk shaped_sgl_loop in fastforce)
  show ?case
    using Suc.prems split prp sgl shaped_setup [OF req] by (auto simp: ns_cmd_rw.simps al Let_def req_def [symmetric] split: if_splits option.splits)
qed

section \<open>A built request is ready to be submitted\<close>

text \<open>
  A queue pair between calls: its free requests are distinct, not the reserved one, and no longer
  linked to a parent (completion unlinks a child before it is freed).
\<close>

definition pool_ok :: "io_qpair \<Rightarrow> bool" where
  "pool_ok q \<longleftrightarrow> distinct (free_list q) \<and> reserved_req q \<notin> set (free_list q) \<and> length (free_list q) < 65535 \<and>
     (\<forall>i \<in> set (free_list q). n_parent (nodes q i) = None)"

lemma init_pool_ok: "num_requests < 65535 \<Longrightarrow> pool_ok (snd (nvme_qpair_init False num_requests q))"
  by (auto simp: pool_ok_def nvme_qpair_init_def Let_def zero_node_def)

lemma rq_id_in: "rq_id t \<in> set (tree_ids t)"
  by (cases t) simp

lemma placed:
  assumes "pool_ok q" and "build ns (pool_of stale grouped q) p lba cnt cb op io_flags mk tag dw check False = Some (qp', Inr t)"
    and "holds (mset (tree_ids t)) (pool_of stale grouped q) qp'" and "err_cmd_head q = []"
  shows "linked_as None (User_cb cb) (plain t) (nodes (place t qp' q))" and "pdepth (plain t) \<le> 4"
    and "distinct (tree_ids t)" and "ready (tree_ids t) (place t qp' q)"
proof -
  have sh: "shaped 4 (User_cb cb) t" using rw_shaped [OF assms(2) [unfolded build_def]] by simp
  show "pdepth (plain t) \<le> 4" by (rule shaped_depth [OF sh])
  have m: "mset (free_list q) = mset (map fst (free_req qp')) + mset (tree_ids t)"
    and out: "num_outstanding_reqs qp' = outstanding q + length (tree_ids t)"
    using assms(3) by (simp_all add: holds_def pool_ids_def pool_of_def comp_def)
  then have sub: "set (tree_ids t) \<subseteq> set (free_list q)" by (metis set_mset_mset set_mset_union Un_upper2)
  have "distinct (map fst (free_req qp') @ tree_ids t)"
    using assms(1) m by (metis mset_append mset_eq_imp_distinct_iff pool_ok_def)
  then show d: "distinct (tree_ids t)" by simp
  have "n_parent (nodes q (rq_id t)) = None" using assms(1) sub rq_id_in [of t] by (auto simp: pool_ok_def)
  then show "linked_as None (User_cb cb) (plain t) (nodes (place t qp' q))"
    using store_linked [OF sh d, of None "nodes q"] by (simp add: place_def)
  show "ready (tree_ids t) (place t qp' q)"
    using assms(1,4) sub out by (auto simp: ready_def place_def pool_ok_def)
qed

end
