(* ===== verification/Spec2Isabelle.thy ===== *)
theory Spec2Isabelle
  imports Nof_Prelude Tailq Histogram Perf_Rep Perf_Group Perf_Barrier Perf_Start Perf_Edge
    Iov Nvmf_Aer Nvmf_Reservation Nvmf_Resv_Spec Nvmf_Resv_Cmds Nvmf_Resv_Run Nvmf_Resv_Store
    Nvme_Request Nvme_Ns_Cmd Nvme_Split Nvme_Io Nvme_Qpair Nvme_Done Nvme_Heap
begin

text \<open>
  A verification library for nof-rep, a storage toolkit (a fork of SPDK) with load generators that
  write every block to several NVMe over fabrics targets. The program parts modelled here and the
  way they work together:

  \<^item> The replicated load generator (\<open>src/app/spdk_nvme_perf_rep/perf_rep.c\<close>) keeps a number of I/O groups in flight. A
    group is a main task and one copy per replica, chained in a tail queue; the group is sent again when all
    its replicas have completed.
  \<^item> The NVMe driver (\<open>src/lib/nvme\<close>) takes the commands of the load generator, cuts them to what the
    device accepts, sends them and reports each one back to its caller once.
  \<^item> The NVMe over fabrics target (\<open>src/lib/nvmf\<close>) keeps the reservations of each namespace, hands
    copies of them to the poll groups that check every command, and tells hosts about changes by
    asynchronous events and log pages.
  \<^item> Tail queues, latency histograms and scatter/gather copies are shared helpers.

  \<^bold>\<open>Conventions.\<close> C integers are words of their width, so sums wrap where C wraps. A result \<open>None\<close>
  stands for undefined behaviour, a failed assertion or a call that never returns; errors that the code
  returns are values. Pointers to tasks are addresses in an explicit heap with a set of live addresses, since
  releasing and relinking tasks is where the replicated code goes wrong; requests of the driver
  are trees while they are built and linked nodes once they are submitted. What is not part of the repository is an argument: the clock, the
  random numbers and the driver's answer to a submission (\<open>env\<close> in \<open>Perf_Rep\<close>), the element callbacks of
  a scattered payload, the transport below a queue pair (\<open>qp_env\<close> in \<open>Nvme_Qpair\<close>), the text format of the
  reservation record.

  \<^bold>\<open>Theories.\<close>

  \<^item> \<open>Nof_Prelude\<close>: integer types, error numbers, the fold over histories of operations, generic
    lemmas and the fact collections \<open>word_bounds\<close> and \<open>frame\<close>.
  \<^item> \<open>Tailq\<close>: the \<open>TAILQ\<close> macros on link fields (\<open>include/spdk/queue.h\<close>, \<open>queue_extras.h\<close>). The locale
    \<open>tail_queue\<close> states the laws of a queue; the pointer operations are an instance.
  \<^item> \<open>Histogram\<close>: \<open>include/spdk/histogram_data.h\<close>; tallying, bucket bounds, iteration and merging,
    with the locale \<open>datapoint_sink\<close> for what the load generator relies on.
  \<^item> \<open>Perf_Rep\<close>: the load generator's state, payload set-up, submission, completion, release,
    requeueing, namespace registration and worker association, function by function.
    \<open>Perf_Group\<close> shows what one submission of a group does. \<open>Perf_Barrier\<close> has the invariant
    that ties the completion counter to the commands in flight, and the step relation \<open>completes\<close>.
    \<open>Perf_Start\<close> shows that the start of a run establishes it, so that replicas receive the same
    operations in the same order in every reachable state. \<open>Perf_Edge\<close> has offsets, sizes, I/O numbers, the
    scatter walk, and two failures: releasing a group and a refused replica.
  \<^item> \<open>Iov\<close>: \<open>lib/util/iov.c\<close>; the iterators are compared with copying flat byte lists, and the locale
    \<open>byte_sink\<close> is the interface through which log pages and reports are written.
  \<^item> \<open>Nvmf_Aer\<close>: asynchronous events, the reservation notice log and the changed namespace list
    (\<open>lib/nvmf/ctrlr.c\<close>), over arbitrary histories of operations.
  \<^item> \<open>Nvmf_Reservation\<close>: registrants, the reservation commands, notices, report, persistence and the
    check of commands (\<open>lib/nvmf/subsystem.c\<close>, \<open>nvmf.c\<close>, \<open>ctrlr.c\<close>). \<open>Nvmf_Resv_Spec\<close> is the abstract
    contract: a map from hosts to keys and at most one reservation. \<open>Nvmf_Resv_Cmds\<close> shows that each command
    implements its abstract counterpart, \<open>Nvmf_Resv_Run\<close> lifts this to histories, and
    \<open>Nvmf_Resv_Store\<close> treats the copies in poll groups, power loss and the report.
  \<^item> \<open>Nvme_Request\<close>: requests and their pool (\<open>lib/nvme/nvme_internal.h\<close>). \<open>Nvme_Ns_Cmd\<close>: the read,
    write, compare, append and data-less calls with all splitting (\<open>lib/nvme/nvme_ns_cmd.c\<close>). \<open>Nvme_Split\<close> shows
    that splitting covers the request, ends, and accounts for every pool entry; \<open>Nvme_Io\<close> draws the
    properties of the calls from it.
  \<^item> \<open>Nvme_Qpair\<close>: submission, queueing, completion, aborts and injected errors of an I/O queue pair
    (\<open>lib/nvme/nvme_qpair.c\<close>, \<open>nvme_internal.h\<close>), on a heap of linked requests. \<open>Nvme_Done\<close> relates the heap to
    trees of outstanding requests, shows that a request is answered exactly once in whatever order its children
    complete and that a dead queue pair gives every request back, and proves two failures.
  \<^item> This theory joins the reservation history with the poll groups, and a write call with the
    submission and completion of its commands.

  \<^bold>\<open>Bounds.\<close> Building a request recurses for its children; the model bounds the depth by 4, and \<open>Nvme_Split\<close> shows
    that 4 is enough: a stripe split, a transfer-size split and an element split can nest, and the innermost
    call makes one command. Submitting a request recurses over the same trees, and its theorems hold for
    every bound that is at least the depth of the tree. Loops over elements and queues are partial functions, and the theorems show that
    they return. Reservation histories assume at most 16 hosts, the size of the tables in the code;
    \<open>Nvmf_Resv_Run\<close> shows what the 17th does. The pool is assumed to hold fewer than 65535 requests,
    the width of the child counter. The I/O numbers of the load generator are distinct until 32 bits wrap.

  \<^bold>\<open>Not modelled.\<close> The transports of driver and target, device and thread management, the block
  device layer, remote procedure calls and JSON are calls into other libraries or unchanged parts of the toolkit.
  The plain and batched load generators repeat the code of the replicated one. Of the load generator,
  command line, probing, printed statistics and the libaio and uring back ends are left out; of the
  target, the parts of the controller that neither log events nor check reservations. Callbacks of
  users of a queue pair are recorded and do not call back into the driver.
\<close>

section \<open>Reservations across poll groups\<close>

text \<open>
  C4. After any sequence of reservation requests by at most 16 hosts, each handed to every poll
  group before it is answered, every poll group lets a host issue a command exactly when the
  reservation that results from the abstract commands allows it.
\<close>

theorem groups_enforce_reservation:
  assumes "resv_ok (s_ns s)" and "finite H" and "card H \<le> MAX_NUM_REGISTRANTS"
    and "hostid ` set (registrants (s_ns s)) \<subseteq> H" and "\<forall>r \<in> set reqs. fst (snd r) \<in> H"
    and "notify_room (2 * MAX_NUM_REGISTRANTS * length reqs) (s_ctrlrs s)" and "\<forall>g \<in> set gs. in_sync (s_ns s) g"
  shows "\<exists>s' gs'. foldM (reservation_round fmt) (map (Pair False) reqs) (s, gs) = Some (s', gs') \<and> length gs' = length gs \<and>
     (\<forall>g \<in> set gs'. \<forall>h cmd. h \<noteq> 0 \<longrightarrow> reservation_request_check g h cmd =
        (if access_allowed (a_history (\<not> ptpl_file (s_ns s)) reqs (abs_ns (s_ns s))) h cmd then SC_SUCCESS else SC_RESERVATION_CONFLICT))"
  using assms
proof (induction reqs arbitrary: s gs)
  case Nil
  then show ?case by (simp add: a_history_def access_check_faithful)
next
  case (Cons r reqs)
  obtain e h cmd where r: "r = (e, h, cmd)" by (cases r) auto
  have room: "notify_room (2 * MAX_NUM_REGISTRANTS * length reqs + 2 * MAX_NUM_REGISTRANTS) (s_ctrlrs s)"
    using Cons.prems(6) by (simp add: algebra_simps)
  have ins: "insert h (hostid ` set (registrants (s_ns s))) \<subseteq> H" using Cons.prems(4,5) r by simp
  obtain s1 st upd where one: "ns_reservation_request fmt e h cmd s = Some (s1, st, upd)" "resv_ok (s_ns s1)"
    "hostid ` set (registrants (s_ns s1)) \<subseteq> H" "notify_room (2 * MAX_NUM_REGISTRANTS * length reqs) (s_ctrlrs s1)"
    "ptpl_file (s_ns s1) = ptpl_file (s_ns s)" "\<not> upd \<longrightarrow> resv_same (s_ns s) (s_ns s1)"
    "abs_ns (s_ns s1) = fst (a_step (\<not> ptpl_file (s_ns s)) (oom e) h cmd (abs_ns (s_ns s)))"
    using resv_request_ok [OF Cons.prems(1) few_hosts [OF Cons.prems(1,4,2,3)] room Cons.prems(2,3) ins, of fmt e cmd] by blast
  obtain gs1 where gs1: "(if upd then subsystem_update_ns (s_ns s1) gs else Some gs) = Some gs1" "length gs1 = length gs"
    "\<forall>g \<in> set gs1. in_sync (s_ns s1) g"
    using subsystem_update_ns_ok [OF one(2) few_hosts [OF one(2,3) Cons.prems(2,3)], of gs] in_sync_same one(6) Cons.prems(7)
    by (cases upd) auto
  have "reservation_round fmt (False, r) (s, gs) = Some (s1, gs1)" using one(1) gs1(1) by (cases upd) (simp_all add: reservation_round_def r)
  moreover have "\<forall>r \<in> set reqs. fst (snd r) \<in> H" using Cons.prems(5) by simp
  ultimately show ?case
    using Cons.IH [OF one(2) Cons.prems(2,3) one(3) _ one(4) gs1(3)] one(5,7) gs1(2) by (simp add: r a_history_def)
qed

theorem groups_enforce_reservation_witness:
  "\<exists>info s' g. in_sync demo_ns info \<and>
     foldM (reservation_round (\<lambda>_. [])) [(False, demo_env, 12, demo_cmd OPC_RESERVATION_ACQUIRE 1 200 100)] (demo_state, [info]) = Some (s', [g]) \<and>
     reservation_request_check g 11 (demo_cmd 1 0 0 0) = SC_RESERVATION_CONFLICT \<and>
     reservation_request_check g 12 (demo_cmd 1 0 0 0) = SC_SUCCESS"
proof -
  let ?r = "(demo_env, 12, demo_cmd OPC_RESERVATION_ACQUIRE 1 200 100)" and ?a = "a_take 12 200 WRITE_EXCLUSIVE (a_drop {11} (abs_ns demo_ns))"
  obtain info where sync: "in_sync demo_ns info" using poll_group_update_ok [OF demo_ok demo_few] unfolding in_sync_def by blast
  have pre: "resv_ok (s_ns demo_state)" "finite {11, 12, 13 :: nat}" "card {11, 12, 13 :: nat} \<le> MAX_NUM_REGISTRANTS"
    "hostid ` set (registrants (s_ns demo_state)) \<subseteq> {11, 12, 13}" "\<forall>r \<in> set [?r]. fst (snd r) \<in> {11, 12, 13}"
    "notify_room (2 * MAX_NUM_REGISTRANTS * length [?r]) (s_ctrlrs demo_state)" "\<forall>g \<in> set [info]. in_sync (s_ns demo_state) g"
    using demo_ok demo_room [of 32] sync by (simp_all add: demo_state_def, simp add: demo_ns_def)
  have hist: "a_history (\<not> ptpl_file (s_ns demo_state)) [?r] (abs_ns (s_ns demo_state)) = ?a" by (rule demo_history)
  have spec: "\<not> access_allowed ?a 11 (demo_cmd 1 0 0 0)" "access_allowed ?a 12 (demo_cmd 1 0 0 0)"
    by (simp_all add: access_allowed_def a_take_def a_drop_def a_release_def Let_def all_type_def demo_cmd_def)
  obtain s' gs' where run: "foldM (reservation_round (\<lambda>_. [])) (map (Pair False) [?r]) (demo_state, [info]) = Some (s', gs')"
    "length gs' = length [info]" and chk: "\<forall>g \<in> set gs'. \<forall>h cmd. h \<noteq> 0 \<longrightarrow> reservation_request_check g h cmd =
        (if access_allowed ?a h cmd then SC_SUCCESS else SC_RESERVATION_CONFLICT)"
    using groups_enforce_reservation [OF pre, of "\<lambda>_. []"] unfolding hist by blast
  obtain g where g: "gs' = [g]" using run(2) by (cases gs') auto
  have "reservation_request_check g 11 (demo_cmd 1 0 0 0) = SC_RESERVATION_CONFLICT" "reservation_request_check g 12 (demo_cmd 1 0 0 0) = SC_SUCCESS"
    using chk spec by (simp_all add: g del: One_nat_def)
  moreover have "foldM (reservation_round (\<lambda>_. [])) [(False, ?r)] (demo_state, [info]) = Some (s', [g])"
    using run(1) unfolding list.map g .
  ultimately show ?thesis using sync by blast
qed

section \<open>Writes from the call to the callback\<close>

lemma leaf_ids_length: "length (leaves t) = length (leaf_ids t)"
  unfolding leaf_ids_def by (induction t) (simp add: length_concat comp_def cong: map_cong)

lemma leaf_ids_completed:
  assumes "mset (map fst cpls) = mset (leaf_ids t)" and "n < length (leaves t)"
  shows "\<exists>s. (leaf_ids t ! n, s) \<in> set cpls"
proof -
  have "leaf_ids t ! n \<in> set (map fst cpls)" using assms leaf_ids_length [of t] by (metis mset_eq_setD nth_mem)
  then show ?thesis by auto
qed

lemma built_covers:
  assumes "A = args_of p cb op io_flags mk tag dw" and "args_ok ns A" and "sgl p = None \<or> sgl_ok ns A" and "usable ns A"
    and "unat lba + unat cnt \<le> 2 ^ 64" and "cnt \<noteq> 0" and "unat cnt * unat (host_buffer_sector_size ns io_flags) < 2 ^ 32"
    and "length (free_req qp) < 65535" and "build ns qp p lba cnt cb op io_flags mk tag dw check False = Some (qp', Inr t)"
  shows "concat (map leaf_blocks (leaves t)) = [unat lba..<unat lba + unat cnt]" and "holds (mset (tree_ids t)) qp qp'"
proof -
  have A: "a_payload A = p" "a_flags A = io_flags" using assms(1) by (simp_all add: args_of_def)
  have b: "built (sgl p \<noteq> None) (made ns A 0 lba cnt) qp (Some (qp', Inr t))"
    using rw_any [OF assms(2) _ assms(5,8), of 0 check 0] assms(1,3,9) A by (simp add: build_rw)
  then have "made ns A 0 lba cnt t" by (auto simp: built_def)
  then have "covers ns A [unat lba..<unat lba + unat cnt] [unat (0 :: u32)..<byte_end ns A 0 cnt] (map view (leaves t))"
    using assms(4,6,7) A by (simp add: made_def byte_end_def)
  then show "concat (map leaf_blocks (leaves t)) = [unat lba..<unat lba + unat cnt]" by (simp add: covers_def view_def comp_def)
  show "holds (mset (tree_ids t)) qp qp'" using b by (auto simp: built_def)
qed

text \<open>A request that was built is submitted to an idle queue pair and its commands complete in any order.\<close>

lemma placed_runs:
  assumes "linked_as None (User_cb cb) (plain t) (nodes q)" and "pdepth (plain t) \<le> k" and "distinct (tree_ids t)" and "ready (tree_ids t) q"
    and "idle q" and "\<forall>k. e_submit e k = 0" and "mset (map fst cpls) = mset (leaf_ids t)"
  shows "\<exists>q1 q2 st. nvme_qpair_submit_request k e (rq_id t) q = Some (0, q1) \<and> foldM (\<lambda>(i, st). nvme_complete_request i st) cpls q1 = Some q2 \<and>
    trace q2 = trace q @ map Sent (leaf_ids t) @ [Callback cb st] \<and> (status_is_error st \<longleftrightarrow> (\<exists>x \<in> set cpls. status_is_error (snd x))) \<and>
    mset (free_list q2) = mset (free_list q) + mset (tree_ids t)"
proof -
  obtain q1 where q1: "nvme_qpair_submit_request k e (rq_id t) q = Some (0, q1)" "sends (leaf_ids t) q q1"
    using submit_idle [OF assms(6,5,1,2)] by blast
  note s = sends_keeps [OF q1(2)]
  have l: "linked_as None (User_cb cb) (plain t) (nodes q1)" and r: "ready (pids (plain t)) q1"
    using assms(1,4) s(2,3) by (simp_all add: pids_plain)
  obtain q2 st where "foldM (\<lambda>(i, st). nvme_complete_request i st) cpls q1 = Some q2" "trace q2 = trace q1 @ [Callback cb st]"
      "status_is_error st \<longleftrightarrow> (\<exists>x \<in> set cpls. status_is_error (snd x))" "mset (free_list q2) = mset (free_list q1) + mset (tree_ids t)"
    using complete_all [OF l _ r, of cpls] assms(3,7) not_bad_plain [of t] unfolding pids_plain leaf_ids_def by blast
  then show ?thesis using q1(1) s(4,5) by auto
qed


text \<open>Six blocks from block 6 are cut at the stripe boundary into two commands.\<close>

lemma demo_write: "case build demo_nvme demo_qpair (PAYLOAD_CONTIG 4096 0) 6 6 1 NVM_WRITE 0 0 0 0 False False of
    Some (qp, Inr t) \<Rightarrow> plain t = PNode 0 status_ok [PNode 1 status_ok [], PNode 2 status_ok []] | _ \<Rightarrow> False"
  by code_simp

definition demo_sender :: io_qpair where
  "demo_sender = demo_io\<lparr>reserved_req := 9, free_list := [0..<9], outstanding := 0, nodes := (\<lambda>_. zero_node)\<rparr>"


end
